(* ===== verification/TC_Prelude.thy ===== *)
theory TC_Prelude
  imports Main "HOL-Library.Word" "HOL-Library.AList" "HOL-Library.Multiset"
begin

text \<open>
  Shared vocabulary of the development: the status values the C++ code returns
  (\<open>absl::Status\<close>, \<open>absl::StatusOr\<close>), the machine integers, the contract of
  \<open>std::sort\<close> and the generic lemmas on words, sorted lists and association lists that
  the component theories use.
\<close>

section \<open>Status values\<close>

text \<open>
  \<open>absl::StatusCode\<close>, as far as the modelled code uses it. An error carries the literal
  part of its message, so that two returns with the same code stay different branches.
  \<open>Thrown\<close> is a C++ exception that leaves the function.
\<close>

datatype status_code =
    InvalidArgument | NotFound | AlreadyExists | FailedPrecondition | ResourceExhausted
  | OutOfRange | PermissionDenied | Internal | Unimplemented | DeadlineExceeded
  | Unavailable | DataLoss | Aborted | Cancelled | Thrown

datatype error = Err (err_code: status_code) (err_message: string)

type_synonym 'a status_or = "error + 'a"
type_synonym status = "error + unit"

abbreviation ok_status :: status where
  "ok_status \<equiv> Inr ()"

definition is_ok :: "'a status_or \<Rightarrow> bool" where
  "is_ok r = (case r of Inl _ \<Rightarrow> False | Inr _ \<Rightarrow> True)"

lemma is_ok_simps [simp]: "is_ok (Inr x)" "\<not> is_ok (Inl e)"
  by (simp_all add: is_ok_def)

lemma is_ok_iff: "is_ok r \<longleftrightarrow> (\<exists>x. r = Inr x)"
  by (cases r) auto

section \<open>Machine integers\<close>

type_synonym u8 = "8 word"
type_synonym u32 = "32 word"
type_synonym u64 = "64 word"

named_theorems u64_simps \<open>reading word comparisons and bounded sums as natural numbers\<close>

lemma unat_u64_bound: "unat (x :: u64) < 2 ^ 64"
  using unsigned_less [of x, where ?'a = nat] by simp

lemma unat_u32_bound: "unat (x :: u32) < 2 ^ 32"
  using unsigned_less [of x, where ?'a = nat] by simp

lemma unat_ucast_u32 [simp]: "unat (ucast (x :: u32) :: u64) = unat x"
  using unat_u32_bound [of x] by (simp add: unsigned_ucast_eq take_bit_nat_eq_self)

lemma unat_u64_mult: "unat x * unat y < 2 ^ 64 \<Longrightarrow> unat (x * y :: u64) = unat x * unat y"
  by (simp add: unat_word_ariths)

lemma unat_u64_add:
  fixes a b :: u64
  assumes "unat a + unat b < 2 ^ 64"
  shows "unat (a + b) = unat a + unat b"
  using assms by (subst unat_add_lem [symmetric]) simp

lemma unat_u64_add_le:
  fixes a b t :: u64
  assumes "unat a + unat b \<le> unat t"
  shows "unat (a + b) = unat a + unat b"
  using assms unat_u64_bound [of t] by (intro unat_u64_add) linarith

lemma unat_u64_sub:
  fixes a b :: u64
  assumes "b \<le> a"
  shows "unat (a - b) = unat a - unat b"
  using assms by (rule unat_sub)

lemma unat_word_eq [simp]: "unat a = unat b \<longleftrightarrow> a = b"
  by (rule word_unat_eq_iff [symmetric])

lemmas [u64_simps] = word_less_nat_alt word_le_nat_alt

text \<open>The overflow test \<open>numeric_limits::max() - a < b\<close>.\<close>

lemma u64_overflow_check: "- 1 - a < b \<longleftrightarrow> 2 ^ 64 \<le> unat a + unat (b :: u64)"
proof -
  have m: "unat (- 1 :: u64) = 2 ^ 64 - 1" by (simp add: unsigned_minus_1_eq_mask mask_eq_exp_minus_1)
  have "a \<le> - 1" using unat_u64_bound [of a] by (simp add: word_le_nat_alt m)
  with m unat_u64_bound [of a] show ?thesis
    by (simp add: word_less_nat_alt unat_sub) linarith
qed

lemma unat_of_nat_u64:
  assumes "n < 2 ^ 64"
  shows "unat (of_nat n :: u64) = n"
  using assms by (simp add: unat_of_nat take_bit_nat_eq_self)

lemma u64_add_of_nat_diff:
  fixes a :: u64
  assumes "m \<le> n"
  shows "a + of_nat n = a + of_nat m + of_nat (n - m)"
  using assms by (simp flip: of_nat_add add.assoc)

section \<open>Sorting\<close>

text \<open>
  \<open>std::sort\<close> is not stable: the standard only promises a permutation of the input that is
  sorted by the comparison. The interface below is that promise; code whose outcome does not
  depend on the order of equal elements is proved inside it.
\<close>

locale std_sort =
  fixes key :: "'a \<Rightarrow> 'k::linorder"
    and srt :: "'a list \<Rightarrow> 'a list"
  assumes srt_perm: "mset (srt xs) = mset xs"
    and srt_sorted: "sorted (map key (srt xs))"
begin

lemma srt_set: "set (srt xs) = set xs"
  using srt_perm by (metis set_mset_mset)

lemma srt_length: "length (srt xs) = length xs"
  using srt_perm by (metis size_mset)

lemma srt_unique:
  assumes "distinct (map key xs)"
  shows "srt xs = sort_key key xs"
  by (rule sort_key_inj_key_eq [symmetric])
    (use assms in \<open>simp_all add: srt_perm srt_sorted distinct_map\<close>)

end

lemma std_sort_sort_key: "std_sort key (sort_key key)"
  by unfold_locales simp_all

lemma map_sum_eq_Inr: "map_sum f g x = Inr y \<longleftrightarrow> (\<exists>z. x = Inr z \<and> g z = y)"
  by (cases x) auto

lemma is_ok_map_sum [simp]: "is_ok (map_sum id g x) = is_ok x"
  by (cases x) auto

section \<open>Association lists\<close>

text \<open>
  Hash maps that the code iterates over or measures are association lists with distinct
  keys, handled with the library's \<open>AList.update\<close> and \<open>AList.delete\<close>.
\<close>

lemma alist_delete_subset: "set (AList.delete k xs) \<subseteq> set xs"
  by (auto simp: AList.delete_eq)

lemma alist_update_subset: "set (AList.update k v xs) \<subseteq> insert (k, v) (set xs)"
  by (induction xs) auto

lemma alist_update_fresh: "k \<notin> fst ` set xs \<Longrightarrow> AList.update k v xs = xs @ [(k, v)]"
  by (induction xs) auto

lemma alist_delete_keys: "fst ` set (AList.delete k xs) = fst ` set xs - {k}"
  by (force simp: AList.delete_eq)

lemma alist_length_update:
  "k \<in> fst ` set xs \<Longrightarrow> length (AList.update k v xs) = length xs"
  by (induction xs) auto

lemma alist_update_sum:
  fixes g :: "'k \<times> 'v \<Rightarrow> nat"
  assumes "map_of xs k = Some v"
  shows "sum_list (map g (AList.update k v' xs)) + g (k, v) = sum_list (map g xs) + g (k, v')"
  using assms by (induction xs) (auto split: if_splits)

end
