(* ===== verification/Byte_Range_Map.thy ===== *)
theory Byte_Range_Map
  imports TC_Prelude
begin

unbundle bit_operations_syntax

text \<open>
  Byte-range maps (\<open>core/store/materialization/contracts/byte_range/byte_range_map.{h,cc}\<close>):
  the segment and map types, \<open>normalize_byte_range_map\<close> and the fingerprint payload of
  \<open>fingerprint_byte_range_map\<close>. The meaning of a map is the function that says, for every
  destination byte, whether it is padding or which byte of which source it holds; the lemmas
  show that normalisation keeps that meaning, accepts exactly the maps that cover the
  destination once, and yields one representative per meaning.
\<close>

section \<open>Data\<close>

datatype seg_kind = kData | kPad

record ByteRangeSegment =
  kind :: seg_kind
  dst_offset :: u64
  seg_length :: u64
  src_offset :: u64
  source_index :: u32

record ByteRangeMap =
  total_bytes :: u64
  num_sources :: u32
  segments :: "ByteRangeSegment list"

text \<open>The sum \<open>dst_offset + length\<close> of the code, at its width.\<close>

definition seg_end :: "ByteRangeSegment \<Rightarrow> u64" where
  "seg_end seg = dst_offset seg + seg_length seg"

section \<open>Normalisation\<close>

definition validate_total_bytes :: "ByteRangeMap \<Rightarrow> status" where
  "validate_total_bytes m =
     (if total_bytes m = 0 then
        (if segments m \<noteq> []
         then Inl (Err InvalidArgument ''byte range map total_bytes is zero with non-empty segments'')
         else ok_status)
      else if num_sources m = 0
      then Inl (Err InvalidArgument ''byte range map num_sources must be > 0'')
      else ok_status)"

text \<open>The first loop: drop empty segments, clear the source of padding, check source indices.\<close>

primrec filter_segments :: "u32 \<Rightarrow> ByteRangeSegment list \<Rightarrow> ByteRangeSegment list status_or" where
  "filter_segments n [] = Inr []"
| "filter_segments n (seg # rest) =
     (if seg_length seg = 0 then filter_segments n rest
      else if kind seg = kPad then
        map_sum id ((#) (seg\<lparr>src_offset := 0, source_index := 0\<rparr>)) (filter_segments n rest)
      else if n = 0 \<or> n \<le> source_index seg then
        Inl (Err InvalidArgument ''byte range map segment source_index out of range'')
      else map_sum id ((#) seg) (filter_segments n rest))"

text \<open>
  The merging loop. The vector \<open>merged\<close> is the first list argument, last element first.
\<close>

definition can_merge :: "ByteRangeSegment \<Rightarrow> ByteRangeSegment \<Rightarrow> bool" where
  "can_merge prev seg \<longleftrightarrow>
     kind seg = kind prev \<and>
     (kind seg = kPad \<or>
      source_index seg = source_index prev \<and>
      src_offset seg = src_offset prev + seg_length prev)"

primrec merge_segments ::
  "u64 \<Rightarrow> ByteRangeSegment list \<Rightarrow> ByteRangeSegment list \<Rightarrow> ByteRangeSegment list status_or"
where
  "merge_segments tot merged [] = Inr (rev merged)"
| "merge_segments tot merged (seg # rest) =
     (if tot \<le> dst_offset seg
      then Inl (Err InvalidArgument ''byte range map segment dst_offset out of bounds'')
      else if tot - dst_offset seg < seg_length seg
      then Inl (Err InvalidArgument ''byte range map segment length out of bounds'')
      else case merged of
        [] \<Rightarrow> merge_segments tot [seg] rest
      | prev # before \<Rightarrow>
          if dst_offset seg < seg_end prev
          then Inl (Err InvalidArgument ''byte range map contains overlapping segments'')
          else if dst_offset seg = seg_end prev \<and> can_merge prev seg
          then merge_segments tot
                 (prev\<lparr>seg_length := seg_length prev + seg_length seg\<rparr> # before) rest
          else merge_segments tot (seg # prev # before) rest)"

text \<open>The last loop: every segment starts where the one before it ends.\<close>

primrec cover_cursor :: "u64 \<Rightarrow> ByteRangeSegment list \<Rightarrow> u64 status_or" where
  "cover_cursor cursor [] = Inr cursor"
| "cover_cursor cursor (seg # rest) =
     (if dst_offset seg \<noteq> cursor
      then Inl (Err InvalidArgument ''byte range map contains destination gaps'')
      else cover_cursor (seg_end seg) rest)"

text \<open>
  The whole function, over the sorting routine it calls: \<open>std::sort\<close> compares
  destination offsets only, so the order it gives equal offsets is not determined.
\<close>

definition normalize_sorted_by ::
  "(ByteRangeSegment list \<Rightarrow> ByteRangeSegment list) \<Rightarrow> ByteRangeMap \<Rightarrow> ByteRangeMap status_or"
where
  "normalize_sorted_by srt m =
     (case validate_total_bytes m of
        Inl e \<Rightarrow> Inl e
      | Inr _ \<Rightarrow>
        (case filter_segments (num_sources m) (segments m) of
           Inl e \<Rightarrow> Inl e
         | Inr filtered \<Rightarrow>
           if total_bytes m = 0 then Inr (m\<lparr>segments := []\<rparr>)
           else
             (case merge_segments (total_bytes m) [] (srt filtered) of
                Inl e \<Rightarrow> Inl e
              | Inr merged \<Rightarrow>
                (case cover_cursor 0 merged of
                   Inl e \<Rightarrow> Inl e
                 | Inr cursor \<Rightarrow>
                   if cursor \<noteq> total_bytes m
                   then Inl (Err InvalidArgument ''byte range map does not cover total_bytes'')
                   else Inr (m\<lparr>segments := merged\<rparr>)))))"

definition normalize_byte_range_map :: "ByteRangeMap \<Rightarrow> ByteRangeMap status_or" where
  "normalize_byte_range_map = normalize_sorted_by (sort_key dst_offset)"

section \<open>Fingerprints\<close>

text \<open>Little-endian bytes, as the shift loops of \<open>byte_range_fingerprint_encoding.h\<close> emit them.\<close>

fun le_bytes :: "nat \<Rightarrow> 'a::len word \<Rightarrow> u8 list" where
  "le_bytes 0 value = []"
| "le_bytes (Suc n) value = ucast (value AND 0xFF) # le_bytes n (drop_bit 8 value)"

definition append_u64 :: "u8 list \<Rightarrow> u64 \<Rightarrow> u8 list" where
  "append_u64 out value = out @ le_bytes 8 value"

definition append_u32 :: "u8 list \<Rightarrow> u32 \<Rightarrow> u8 list" where
  "append_u32 out value = out @ le_bytes 4 value"

definition ascii_bytes :: "string \<Rightarrow> u8 list" where
  "ascii_bytes s = map (\<lambda>c. of_nat (of_char c)) s"

definition kind_code :: "seg_kind \<Rightarrow> u32" where
  "kind_code k = (case k of kData \<Rightarrow> 0 | kPad \<Rightarrow> 1)"

definition append_segment :: "u8 list \<Rightarrow> ByteRangeSegment \<Rightarrow> u8 list" where
  "append_segment out seg =
     append_u64 (append_u32 (append_u64 (append_u64 (append_u32 out (kind_code (kind seg)))
       (dst_offset seg)) (seg_length seg)) (source_index seg)) (src_offset seg)"

definition fingerprint_payload :: "ByteRangeMap \<Rightarrow> u8 list" where
  "fingerprint_payload m =
     foldl append_segment
       (append_u32 (append_u32 (append_u64 (ascii_bytes ''byte_range_map_v1'' @ [0])
          (total_bytes m)) (num_sources m)) (of_nat (length (segments m))))
       (segments m)"

text \<open>The digest routine is a parameter: SHA-256 comes from the crypto library.\<close>

definition fingerprint_byte_range_map ::
  "(u8 list \<Rightarrow> u8 list) \<Rightarrow> ByteRangeMap \<Rightarrow> u8 list status_or"
where
  "fingerprint_byte_range_map sha256_digest_bytes m =
     (case validate_total_bytes m of
        Inl e \<Rightarrow> Inl e
      | Inr _ \<Rightarrow>
        let digest = sha256_digest_bytes (fingerprint_payload m) in
        if length digest < 16
        then Inl (Err Internal ''sha256 digest too short for map fingerprint'')
        else Inr (take 16 digest))"

section \<open>Meaning of a map\<close>

datatype byte_origin = PadByte | SourceByte u32 u64

definition seg_lo :: "ByteRangeSegment \<Rightarrow> nat" where
  "seg_lo s = unat (dst_offset s)"

definition seg_hi :: "ByteRangeSegment \<Rightarrow> nat" where
  "seg_hi s = unat (dst_offset s) + unat (seg_length s)"

definition covers :: "ByteRangeSegment \<Rightarrow> nat \<Rightarrow> bool" where
  "covers s d \<longleftrightarrow> seg_lo s \<le> d \<and> d < seg_hi s"

definition seg_origin :: "ByteRangeSegment \<Rightarrow> nat \<Rightarrow> byte_origin" where
  "seg_origin s d =
     (case kind s of
        kPad \<Rightarrow> PadByte
      | kData \<Rightarrow> SourceByte (source_index s) (src_offset s + of_nat (d - seg_lo s)))"

primrec origin :: "ByteRangeSegment list \<Rightarrow> nat \<Rightarrow> byte_origin option" where
  "origin [] d = None"
| "origin (s # ss) d = (if covers s d then Some (seg_origin s d) else origin ss d)"

definition cover_count :: "ByteRangeSegment list \<Rightarrow> nat \<Rightarrow> nat" where
  "cover_count ss d = length (filter (\<lambda>s. covers s d) ss)"

text \<open>Consecutive, non-empty segments from \<open>a\<close> up to \<open>b\<close>.\<close>

primrec tiles :: "nat \<Rightarrow> nat \<Rightarrow> ByteRangeSegment list \<Rightarrow> bool" where
  "tiles a b [] \<longleftrightarrow> a = b"
| "tiles a b (s # ss) \<longleftrightarrow> seg_lo s = a \<and> seg_length s \<noteq> 0 \<and> tiles (seg_hi s) b ss"

text \<open>The destination range is covered byte by byte, each byte once, and nothing lies outside.\<close>

definition exact_cover :: "nat \<Rightarrow> ByteRangeSegment list \<Rightarrow> bool" where
  "exact_cover n ss \<longleftrightarrow>
     (\<forall>s\<in>set ss. seg_length s \<noteq> 0 \<longrightarrow> seg_hi s \<le> n) \<and> (\<forall>d<n. cover_count ss d = 1)"

definition source_ok :: "u32 \<Rightarrow> ByteRangeSegment \<Rightarrow> bool" where
  "source_ok n s \<longleftrightarrow> seg_length s = 0 \<or> kind s = kPad \<or> source_index s < n"

definition valid_map :: "ByteRangeMap \<Rightarrow> bool" where
  "valid_map m \<longleftrightarrow>
     (if total_bytes m = 0 then segments m = []
      else num_sources m \<noteq> 0 \<and> (\<forall>s\<in>set (segments m). source_ok (num_sources m) s) \<and>
           exact_cover (unat (total_bytes m)) (segments m))"

primrec no_merge :: "ByteRangeSegment list \<Rightarrow> bool" where
  "no_merge [] \<longleftrightarrow> True"
| "no_merge (s # ss) \<longleftrightarrow> (case ss of [] \<Rightarrow> True | t # _ \<Rightarrow> \<not> can_merge s t) \<and> no_merge ss"

definition clean_seg :: "u32 \<Rightarrow> ByteRangeSegment \<Rightarrow> bool" where
  "clean_seg n s \<longleftrightarrow>
     (case kind s of
        kPad \<Rightarrow> src_offset s = 0 \<and> source_index s = 0
      | kData \<Rightarrow> source_index s < n)"

definition canonical_map :: "ByteRangeMap \<Rightarrow> bool" where
  "canonical_map m \<longleftrightarrow>
     (if total_bytes m = 0 then segments m = []
      else num_sources m \<noteq> 0 \<and> tiles 0 (unat (total_bytes m)) (segments m) \<and>
           no_merge (segments m) \<and> (\<forall>s\<in>set (segments m). clean_seg (num_sources m) s))"

section \<open>Coverage lemmas\<close>

lemma covers_nonempty: "covers s d \<Longrightarrow> seg_length s \<noteq> 0"
  by (auto simp: covers_def seg_lo_def seg_hi_def)

lemma seg_lo_less_hi: "seg_lo s < seg_hi s \<longleftrightarrow> seg_length s \<noteq> 0"
  by (auto simp: seg_lo_def seg_hi_def unat_gt_0)

lemma covers_lo [simp]: "covers s (seg_lo s) \<longleftrightarrow> seg_length s \<noteq> 0"
  by (simp add: covers_def seg_lo_less_hi)

lemma origin_append:
  "origin (xs @ ys) d = (case origin xs d of None \<Rightarrow> origin ys d | Some z \<Rightarrow> Some z)"
  by (induction xs) auto

lemma cover_count_simps [simp]:
  "cover_count [] d = 0"
  "cover_count (s # ss) d = (if covers s d then Suc (cover_count ss d) else cover_count ss d)"
  by (simp_all add: cover_count_def)

lemma cover_count_append [simp]: "cover_count (xs @ ys) d = cover_count xs d + cover_count ys d"
  by (simp add: cover_count_def)

lemma cover_count_perm: "mset xs = mset ys \<Longrightarrow> cover_count xs d = cover_count ys d"
  unfolding cover_count_def by (metis mset_filter size_mset)

lemma cover_count_0_iff: "cover_count ss d = 0 \<longleftrightarrow> (\<forall>s\<in>set ss. \<not> covers s d)"
  by (auto simp: cover_count_def filter_empty_conv)

lemma origin_None_iff: "origin ss d = None \<longleftrightarrow> cover_count ss d = 0"
  by (induction ss) auto

lemma origin_SomeD: "origin ss d = Some z \<Longrightarrow> \<exists>s\<in>set ss. covers s d \<and> seg_origin s d = z"
  by (induction ss) (auto split: if_splits)

lemma cover_count_two:
  assumes "covers s d" "covers t d" "s \<in> set xs" "covers u d"
  shows "1 < cover_count (u # xs) d"
proof -
  from assms have "cover_count xs d \<noteq> 0"
    unfolding cover_count_0_iff by blast
  with assms show ?thesis by simp
qed

lemma origin_unique:
  assumes "cover_count ss d = 1" "s \<in> set ss" "covers s d"
  shows "origin ss d = Some (seg_origin s d)"
  using assms
proof (induction ss)
  case (Cons t ss)
  show ?case
  proof (cases "covers t d")
    case True
    with Cons.prems have "cover_count ss d = 0" by simp
    with Cons.prems have "s \<notin> set ss" unfolding cover_count_0_iff by blast
    with Cons.prems True show ?thesis by simp
  next
    case False
    with Cons.prems have "s \<in> set ss" by auto
    with Cons False show ?thesis by simp
  qed
qed simp

lemma origin_perm:
  assumes "mset xs = mset ys" "cover_count xs d \<le> 1"
  shows "origin xs d = origin ys d"
proof (cases "cover_count xs d = 0")
  case True
  with assms show ?thesis by (metis cover_count_perm origin_None_iff)
next
  case False
  with assms have one: "cover_count xs d = 1" "cover_count ys d = 1"
    using cover_count_perm [of xs ys d] by auto
  then obtain s where s: "s \<in> set xs" "covers s d"
    using cover_count_0_iff [of xs d] by auto
  moreover from this have "s \<in> set ys"
    using assms by (metis set_mset_mset)
  ultimately show ?thesis
    using one origin_unique by metis
qed

lemma tiles_bounds: "tiles a b ss \<Longrightarrow> a \<le> b \<and> (\<forall>s\<in>set ss. a \<le> seg_lo s \<and> seg_hi s \<le> b)"
proof (induction ss arbitrary: a)
  case (Cons s ss)
  then have "seg_lo s = a" "seg_lo s < seg_hi s" "tiles (seg_hi s) b ss"
    by (auto simp: seg_lo_less_hi)
  with Cons.IH [of "seg_hi s"] show ?case by fastforce
qed simp

lemma tiles_cover_count:
  "tiles a b ss \<Longrightarrow> cover_count ss d = (if a \<le> d \<and> d < b then 1 else 0)"
proof (induction ss arbitrary: a)
  case (Cons s ss)
  then have "seg_lo s = a" "seg_lo s < seg_hi s" "tiles (seg_hi s) b ss"
    by (auto simp: seg_lo_less_hi)
  moreover from this have "seg_hi s \<le> b" using tiles_bounds by blast
  ultimately show ?case
    using Cons.IH [of "seg_hi s"] by (auto simp: covers_def)
qed simp

lemma tiles_origin_outside: "tiles a b ss \<Longrightarrow> b \<le> d \<Longrightarrow> origin ss d = None"
  using tiles_cover_count [of a b ss d] by (simp add: origin_None_iff)

lemma tiles_origin_inside: "tiles a b ss \<Longrightarrow> a \<le> d \<Longrightarrow> d < b \<Longrightarrow> \<exists>z. origin ss d = Some z"
  using tiles_cover_count [of a b ss d] origin_None_iff [of ss d] by fastforce

lemma origin_append_tiles:
  assumes "tiles a b xs" "a \<le> d"
  shows "origin (xs @ ys) d = (if d < b then origin xs d else origin ys d)"
proof (cases "d < b")
  case True
  then obtain z where "origin xs d = Some z" using tiles_origin_inside [OF assms] by blast
  with True show ?thesis by (simp add: origin_append)
next
  case False
  then show ?thesis using tiles_origin_outside [OF assms(1)] by (simp add: origin_append)
qed

lemma tiles_origin_at:
  assumes "tiles 0 n ss" "s \<in> set ss" "covers s d"
  shows "origin ss d = Some (seg_origin s d)"
proof (rule origin_unique [OF _ assms(2,3)])
  have "d < n" using assms tiles_bounds [OF assms(1)] by (fastforce simp: covers_def)
  then show "cover_count ss d = 1" using tiles_cover_count [OF assms(1)] by simp
qed

lemma tiles_exact_cover: "tiles 0 n ss \<Longrightarrow> exact_cover n ss"
  unfolding exact_cover_def using tiles_bounds [of 0 n ss] tiles_cover_count [of 0 n ss]
  by auto

lemma tiles_append: "tiles a b (xs @ ys) \<longleftrightarrow> (\<exists>c. tiles a c xs \<and> tiles c b ys)"
  by (induction xs arbitrary: a) auto

lemma cover_imp_tiles:
  assumes "sorted (map dst_offset ss)" and "\<forall>s\<in>set ss. seg_length s \<noteq> 0"
    and "\<forall>s\<in>set ss. a \<le> seg_lo s \<and> seg_hi s \<le> b"
    and "\<And>d. a \<le> d \<Longrightarrow> d < b \<Longrightarrow> cover_count ss d = 1" and "a \<le> b"
  shows "tiles a b ss"
  using assms
proof (induction ss arbitrary: a)
  case Nil
  then show ?case by (cases "a < b") auto
next
  case (Cons s ss)
  have s: "seg_lo s < seg_hi s" "a \<le> seg_lo s" "seg_hi s \<le> b"
    using Cons.prems by (auto simp: seg_lo_less_hi)
  then have "a < b" by linarith
  then obtain t where t: "t \<in> set (s # ss)" "covers t a"
    using Cons.prems(4) [of a] cover_count_0_iff [of "s # ss" a] by auto
  have "seg_lo s \<le> seg_lo t"
    using t Cons.prems(1) by (auto simp: seg_lo_def word_le_nat_alt)
  with t s have lo: "seg_lo s = a" by (simp add: covers_def)
  have rest: "seg_hi s \<le> seg_lo u" if "u \<in> set ss" for u
  proof (rule ccontr)
    assume "\<not> seg_hi s \<le> seg_lo u"
    moreover have "seg_lo s \<le> seg_lo u"
      using that Cons.prems(1) by (auto simp: seg_lo_def word_le_nat_alt)
    ultimately have cov: "covers s (seg_lo u)" "covers u (seg_lo u)"
      using that Cons.prems(2) by (auto simp: covers_def seg_lo_less_hi)
    then have "1 < cover_count (s # ss) (seg_lo u)"
      using that cover_count_two by blast
    moreover have "a \<le> seg_lo u" "seg_lo u < b"
      using that Cons.prems(2,3) seg_lo_less_hi [of u] by fastforce+
    ultimately show False using Cons.prems(4) [of "seg_lo u"] by simp
  qed
  have "tiles (seg_hi s) b ss"
  proof (rule Cons.IH)
    fix d assume d: "seg_hi s \<le> d" "d < b"
    then have "\<not> covers s d" by (simp add: covers_def)
    then show "cover_count ss d = 1"
      using Cons.prems(4) [of d] d s lo by auto
  qed (use Cons.prems rest s in auto)
  with lo Cons.prems(2) show ?case by simp
qed

section \<open>Correctness of the loops\<close>

definition clean :: "ByteRangeSegment \<Rightarrow> ByteRangeSegment" where
  "clean s = (if kind s = kPad then s\<lparr>src_offset := 0, source_index := 0\<rparr> else s)"

lemma clean_simps [simp]:
  "dst_offset (clean s) = dst_offset s" "seg_length (clean s) = seg_length s"
  "kind (clean s) = kind s" "seg_lo (clean s) = seg_lo s" "seg_hi (clean s) = seg_hi s"
  "covers (clean s) d = covers s d" "seg_origin (clean s) d = seg_origin s d"
  by (auto simp: clean_def seg_lo_def seg_hi_def covers_def seg_origin_def split: seg_kind.split)

definition live :: "ByteRangeSegment list \<Rightarrow> ByteRangeSegment list" where
  "live ss = map clean (filter (\<lambda>s. seg_length s \<noteq> 0) ss)"

lemma filter_segments_eq:
  "filter_segments n ss =
     (if \<forall>s\<in>set ss. source_ok n s then Inr (live ss)
      else Inl (Err InvalidArgument ''byte range map segment source_index out of range''))"
proof (induction ss)
  case (Cons s ss)
  then show ?case
    by (cases "kind s") (auto simp: live_def clean_def source_ok_def not_le)
qed (simp add: live_def)

lemma live_meaning [simp]:
  "origin (live ss) d = origin ss d" "cover_count (live ss) d = cover_count ss d"
  by (induction ss) (auto simp: live_def dest: covers_nonempty)

lemma set_live: "set (live ss) = clean ` {s \<in> set ss. seg_length s \<noteq> 0}"
  by (simp add: live_def)

lemma live_nonempty: "s \<in> set (live ss) \<Longrightarrow> seg_length s \<noteq> 0"
  by (auto simp: set_live)

lemma exact_cover_live [simp]: "exact_cover n (live ss) \<longleftrightarrow> exact_cover n ss"
  by (auto simp: exact_cover_def set_live)

definition bounded :: "u64 \<Rightarrow> ByteRangeSegment \<Rightarrow> bool" where
  "bounded t s \<longleftrightarrow> seg_hi s \<le> unat t \<and> seg_length s \<noteq> 0"

lemma bounded_seg_end: "bounded t s \<Longrightarrow> unat (seg_end s) = seg_hi s"
  unfolding bounded_def seg_hi_def seg_end_def by (intro unat_u64_add_le) blast

lemma bounded_iff_checks:
  assumes "seg_length s \<noteq> 0"
  shows "\<not> t \<le> dst_offset s \<and> \<not> t - dst_offset s < seg_length s \<longleftrightarrow> bounded t s"
proof (cases "t \<le> dst_offset s")
  case True
  with assms have "\<not> bounded t s"
    by (simp add: bounded_def seg_hi_def word_le_nat_alt unat_gt_0 [symmetric])
  with True show ?thesis by simp
next
  case False
  then have "unat (t - dst_offset s) = unat t - unat (dst_offset s)"
    by (intro unat_u64_sub) simp
  with False assms show ?thesis
    by (auto simp: bounded_def seg_hi_def word_less_nat_alt word_le_nat_alt)
qed

definition seg_splice :: "ByteRangeSegment \<Rightarrow> ByteRangeSegment \<Rightarrow> ByteRangeSegment" where
  "seg_splice p s = p\<lparr>seg_length := seg_length p + seg_length s\<rparr>"

lemma splice_fields [simp]:
  "kind (seg_splice p s) = kind p" "dst_offset (seg_splice p s) = dst_offset p"
  "src_offset (seg_splice p s) = src_offset p" "source_index (seg_splice p s) = source_index p"
  "seg_lo (seg_splice p s) = seg_lo p"
  by (simp_all add: seg_splice_def seg_lo_def)

lemma splice_hi:
  assumes "bounded t p" "bounded t s" "dst_offset s = seg_end p"
  shows "seg_hi (seg_splice p s) = seg_hi s" "seg_lo s = seg_hi p" "bounded t (seg_splice p s)"
proof -
  from assms have lo: "unat (dst_offset s) = seg_hi p"
    by (simp add: bounded_seg_end)
  then show "seg_lo s = seg_hi p" by (simp add: seg_lo_def)
  have sum: "unat (dst_offset p) + unat (seg_length p) + unat (seg_length s) \<le> unat t"
    using assms(2) lo by (simp add: bounded_def seg_hi_def)
  then have "unat (seg_length p + seg_length s) = unat (seg_length p) + unat (seg_length s)"
    by (intro unat_u64_add_le [where t = t]) simp
  moreover from this have "seg_length p + seg_length s \<noteq> 0"
    using assms(1) by (auto simp: bounded_def unat_eq_zero [symmetric] simp del: unat_eq_zero)
  ultimately show "seg_hi (seg_splice p s) = seg_hi s" "bounded t (seg_splice p s)"
    using lo sum by (simp_all add: seg_hi_def seg_splice_def bounded_def)
qed

lemma splice_meaning:
  assumes "bounded t p" "bounded t s" "dst_offset s = seg_end p" "can_merge p s"
  shows "covers (seg_splice p s) d \<longleftrightarrow> covers p d \<or> covers s d"
    and "covers p d \<Longrightarrow> \<not> covers s d"
    and "covers p d \<Longrightarrow> seg_origin (seg_splice p s) d = seg_origin p d"
    and "covers s d \<Longrightarrow> seg_origin (seg_splice p s) d = seg_origin s d"
proof -
  note hi = splice_hi [OF assms(1-3)]
  have lt: "seg_lo p < seg_hi p" "seg_lo s < seg_hi s"
    using assms(1,2) by (simp_all add: bounded_def seg_lo_less_hi)
  show "covers (seg_splice p s) d \<longleftrightarrow> covers p d \<or> covers s d" "covers p d \<Longrightarrow> \<not> covers s d"
    using hi lt by (auto simp: covers_def)
  show "covers p d \<Longrightarrow> seg_origin (seg_splice p s) d = seg_origin p d"
    by (simp add: seg_origin_def split: seg_kind.split)
  assume "covers s d"
  with hi have d: "seg_hi p \<le> d" by (simp add: covers_def)
  have len: "seg_hi p - seg_lo p = unat (seg_length p)"
    by (simp add: seg_hi_def seg_lo_def)
  show "seg_origin (seg_splice p s) d = seg_origin s d"
  proof (cases "kind s")
    case kPad
    with assms(4) show ?thesis by (simp add: seg_origin_def can_merge_def)
  next
    case kData
    with assms(4) have m: "kind p = kData" "source_index s = source_index p"
      "src_offset s = src_offset p + seg_length p"
      by (auto simp: can_merge_def)
    have "d - seg_lo p = unat (seg_length p) + (d - seg_lo s)"
      using d len hi lt by linarith
    then show ?thesis
      using kData m by (simp add: seg_origin_def add.assoc)
  qed
qed

fun adj_ok :: "ByteRangeSegment list \<Rightarrow> bool" where
  "adj_ok (s # t # ss) \<longleftrightarrow> \<not> (dst_offset t = seg_end s \<and> can_merge s t) \<and> adj_ok (t # ss)"
| "adj_ok _ \<longleftrightarrow> True"

lemma adj_ok_append2:
  "adj_ok (xs @ [s, t]) \<longleftrightarrow> adj_ok (xs @ [s]) \<and> \<not> (dst_offset t = seg_end s \<and> can_merge s t)"
  by (induction xs rule: adj_ok.induct) auto

lemma adj_ok_last:
  assumes "adj_ok (xs @ [s])" "dst_offset s' = dst_offset s" "kind s' = kind s"
    "source_index s' = source_index s" "src_offset s' = src_offset s"
  shows "adj_ok (xs @ [s'])"
  using assms by (induction xs rule: adj_ok.induct) (auto simp: can_merge_def)

lemma merge_segments_sound:
  assumes "merge_segments t merged ss = Inr out"
    and "\<forall>s\<in>set merged. bounded t s" and "\<forall>s\<in>set ss. seg_length s \<noteq> 0"
    and "adj_ok (rev merged)"
  shows "(\<forall>s\<in>set out. bounded t s) \<and> adj_ok out \<and>
    (\<forall>d. origin out d = origin (rev merged @ ss) d) \<and>
    (\<forall>d. cover_count out d = cover_count (rev merged @ ss) d)"
  using assms
proof (induction ss arbitrary: merged)
  case (Cons s ss)
  from Cons.prems(1) have "\<not> t \<le> dst_offset s \<and> \<not> t - dst_offset s < seg_length s"
    by (auto split: if_splits)
  with Cons.prems(3) have bs: "bounded t s"
    using bounded_iff_checks [of s t] by simp
  show ?case
  proof (cases merged)
    case Nil
    with Cons.prems bs have "merge_segments t [s] ss = Inr out"
      by (auto split: if_splits)
    from Cons.IH [OF this] Cons.prems bs Nil show ?thesis by simp
  next
    case (Cons p before)
    show ?thesis
    proof (cases "dst_offset s = seg_end p \<and> can_merge p s")
      case True
      with Cons.prems(1) \<open>merged = p # before\<close> bs
      have "merge_segments t (seg_splice p s # before) ss = Inr out"
        by (auto simp: seg_splice_def split: if_splits)
      moreover have bp: "bounded t p" using Cons.prems(2) Cons by simp
      note sp = splice_hi [OF bp bs] splice_meaning [OF bp bs]
      have "adj_ok (rev before @ [seg_splice p s])"
        using Cons.prems(4) Cons by (auto intro: adj_ok_last [of _ p])
      moreover have "\<forall>x\<in>set (seg_splice p s # before). bounded t x"
        using Cons.prems(2) Cons sp True by auto
      ultimately have IH: "(\<forall>s\<in>set out. bounded t s) \<and> adj_ok out \<and>
          (\<forall>d. origin out d = origin (rev (seg_splice p s # before) @ ss) d) \<and>
          (\<forall>d. cover_count out d = cover_count (rev (seg_splice p s # before) @ ss) d)"
        using Cons.prems(3) by (intro Cons.IH) auto
      moreover have "origin (rev (seg_splice p s # before) @ ss) d = origin (rev merged @ s # ss) d" for d
        using sp True Cons by (auto simp: origin_append split: option.split)
      moreover have "cover_count (rev (seg_splice p s # before) @ ss) d
          = cover_count (rev merged @ s # ss) d" for d
        using sp True Cons by auto
      ultimately show ?thesis by simp
    next
      case False
      with Cons.prems(1) \<open>merged = p # before\<close>
      have "merge_segments t (s # merged) ss = Inr out"
        by (auto split: if_splits)
      from Cons.IH [OF this] Cons.prems bs Cons False show ?thesis
        by (simp add: adj_ok_append2)
    qed
  qed
qed auto

lemma merge_segments_keeps:
  assumes "merge_segments t merged ss = Inr out"
    and "\<forall>s\<in>set merged. Q s" and "\<forall>s\<in>set ss. Q s" and keep: "\<And>s l. Q s \<Longrightarrow> Q (s\<lparr>seg_length := l\<rparr>)"
  shows "\<forall>s\<in>set out. Q s"
  using assms(1-3)
proof (induction ss arbitrary: merged)
  case (Cons s ss)
  show ?case
  proof (cases merged)
    case Nil
    with Cons.prems(1) have "merge_segments t [s] ss = Inr out"
      by (auto split: if_splits)
    then show ?thesis by (rule Cons.IH) (use Cons.prems(2,3) Nil in simp_all)
  next
    case (Cons p before)
    show ?thesis
    proof (cases "dst_offset s = seg_end p \<and> can_merge p s")
      case True
      with Cons.prems(1) Cons have m: "merge_segments t (seg_splice p s # before) ss = Inr out"
        by (auto simp: seg_splice_def split: if_splits)
      have "Q p" using Cons.prems(2) Cons by simp
      then have "Q (seg_splice p s)" unfolding seg_splice_def by (rule keep)
      then have "\<forall>a\<in>set (seg_splice p s # before). Q a"
        using Cons.prems(2) Cons by simp
      from Cons.IH [OF m this] Cons.prems(3) show ?thesis by simp
    next
      case False
      with Cons.prems(1) Cons have "merge_segments t (s # merged) ss = Inr out"
        by (auto split: if_splits)
      then show ?thesis by (rule Cons.IH) (use Cons.prems(2,3) Cons in simp_all)
    qed
  qed
qed auto

lemma clean_seg_length [simp]: "clean_seg n (s\<lparr>seg_length := l\<rparr>) = clean_seg n s"
  by (simp add: clean_seg_def split: seg_kind.split)

lemma clean_seg_clean:
  "source_ok n s \<Longrightarrow> seg_length s \<noteq> 0 \<Longrightarrow> clean_seg n (clean s)"
  by (cases "kind s") (auto simp: clean_seg_def clean_def source_ok_def)

lemma tiles_bounded:
  assumes "tiles a (unat t) ss" and "s \<in> set ss"
  shows "bounded t s"
proof -
  from assms have "seg_length s \<noteq> 0"
    by (induction ss arbitrary: a) auto
  with tiles_bounds [OF assms(1)] assms(2) show ?thesis
    by (simp add: bounded_def)
qed

lemma cover_cursor_tiles:
  assumes "\<forall>s\<in>set ss. bounded t s" and "cover_cursor c ss = Inr c'"
  shows "tiles (unat c) (unat c') ss"
  using assms
proof (induction ss arbitrary: c)
  case (Cons s ss)
  then have "dst_offset s = c" "tiles (unat (seg_end s)) (unat c') ss"
    by (auto split: if_splits)
  moreover have "bounded t s" using Cons.prems by simp
  ultimately show ?case
    using bounded_seg_end [of t s] by (simp add: seg_lo_def bounded_def)
qed simp

lemma tiles_cover_cursor:
  "tiles (unat c) (unat t) ss \<Longrightarrow> cover_cursor c ss = Inr t"
proof (induction ss arbitrary: c)
  case (Cons s ss)
  then have "bounded t s" by (meson list.set_intros(1) tiles_bounded)
  then have "unat (seg_end s) = seg_hi s" by (rule bounded_seg_end)
  moreover from Cons.prems have "dst_offset s = c"
    by (simp add: seg_lo_def)
  ultimately show ?case using Cons by simp
qed simp

lemma merge_segments_complete:
  assumes "tiles a (unat t) ss" and "tiles 0 a (rev merged)"
  shows "\<exists>out. merge_segments t merged ss = Inr out \<and> tiles 0 (unat t) out"
  using assms
proof (induction ss arbitrary: a merged)
  case (Cons s ss)
  have bs: "bounded t s" using Cons.prems(1) by (meson list.set_intros(1) tiles_bounded)
  then have chk: "\<not> t \<le> dst_offset s \<and> \<not> t - dst_offset s < seg_length s"
    using bounded_iff_checks [of s t] by (simp add: bounded_def)
  have s: "seg_lo s = a" "tiles (seg_hi s) (unat t) ss" "seg_length s \<noteq> 0"
    using Cons.prems(1) by auto
  have hi: "seg_hi s \<le> unat t" using bs by (simp add: bounded_def)
  have one: "tiles a (seg_hi s) [s]" using s by simp
  have push: "tiles 0 (seg_hi s) (rev merged @ [s])"
    using Cons.prems(2) one tiles_append by blast
  show ?case
  proof (cases merged)
    case Nil
    with chk Cons.IH [OF s(2), of "[s]"] push show ?thesis by simp
  next
    case (Cons p before)
    then obtain c where c: "tiles 0 c (rev before)" "tiles c a [p]"
      using Cons.prems(2) tiles_append [of 0 a "rev before" "[p]"] by auto
    have "a \<le> unat t" using s hi seg_lo_less_hi [of s] by simp
    with c have bp: "bounded t p"
      by (simp add: bounded_def)
    from c s have "unat (dst_offset s) = unat (seg_end p)"
      using bounded_seg_end [OF bp] by (simp add: seg_lo_def)
    then have adj: "dst_offset s = seg_end p" by (simp only: unat_word_eq)
    show ?thesis
    proof (cases "can_merge p s")
      case True
      note sp = splice_hi [OF bp bs adj]
      have "tiles c (seg_hi s) [seg_splice p s]"
        using c sp by (simp add: bounded_def)
      then have "tiles 0 (seg_hi s) (rev (seg_splice p s # before))"
        using c tiles_append [of 0 "seg_hi s" "rev before" "[seg_splice p s]"] by auto
      from Cons.IH [OF s(2) this] True Cons chk adj show ?thesis
        by (simp add: seg_splice_def)
    next
      case False
      with Cons.IH [OF s(2), of "s # merged"] push Cons chk adj show ?thesis
        by simp
    qed
  qed
qed simp

lemma adj_ok_no_merge: "tiles a (unat (t :: u64)) ss \<Longrightarrow> adj_ok ss \<Longrightarrow> no_merge ss"
proof (induction ss arbitrary: a rule: adj_ok.induct)
  case (1 s u ss)
  then have "bounded t s" by (meson list.set_intros(1) tiles_bounded)
  then have "unat (dst_offset u) = unat (seg_end s)"
    using 1 bounded_seg_end [of t s] by (simp add: seg_lo_def)
  then have "dst_offset u = seg_end s" by (simp only: unat_word_eq)
  with 1 show ?case by auto
qed auto

section \<open>One canonical form per meaning\<close>

lemma no_merge_hi_le:
  assumes x: "tiles a b (x # xs)" "no_merge (x # xs)" and y: "tiles a b (y # ys)"
    and same: "kind x = kind y" "kind x = kData \<Longrightarrow>
       source_index x = source_index y \<and> src_offset x = src_offset y"
    and eq: "\<And>d. a \<le> d \<Longrightarrow> d < b \<Longrightarrow> origin (x # xs) d = origin (y # ys) d"
  shows "seg_hi y \<le> seg_hi x"
proof (rule ccontr)
  assume lt: "\<not> seg_hi y \<le> seg_hi x"
  have bnds: "seg_hi y \<le> b" "seg_lo x = a" "seg_lo y = a" "a < seg_hi x"
    using x y tiles_bounds [OF y] seg_lo_less_hi [of x] by auto
  with lt have "seg_hi x < b" by simp
  with x obtain x' xs' where xs: "xs = x' # xs'" "seg_lo x' = seg_hi x" "seg_length x' \<noteq> 0"
    by (cases xs) auto
  let ?d = "seg_hi x"
  have "covers x' ?d" "\<not> covers x ?d" "covers y ?d"
    using xs lt bnds covers_lo [of x'] by (auto simp: covers_def)
  then have o: "seg_origin x' ?d = seg_origin y ?d"
    using eq [of ?d] bnds \<open>seg_hi x < b\<close> xs by simp
  have "?d - a = unat (seg_length x)"
    using bnds by (simp add: seg_lo_def seg_hi_def)
  then have "can_merge x x'"
    using o same xs bnds
    by (cases "kind x"; cases "kind x'") (auto simp: seg_origin_def can_merge_def)
  with x xs show False by simp
qed

lemma clean_seg_same_head:
  assumes "clean_seg n x" "clean_seg n y" "seg_lo x = seg_lo y"
    and "seg_origin x (seg_lo x) = seg_origin y (seg_lo y)"
  shows "dst_offset x = dst_offset y \<and> kind x = kind y \<and> src_offset x = src_offset y \<and>
    source_index x = source_index y"
  using assms
  by (cases "kind x"; cases "kind y")
     (auto simp: clean_seg_def seg_origin_def seg_lo_def)

lemma tiles_unique:
  assumes "tiles a b xs" "tiles a b ys" "no_merge xs" "no_merge ys"
    and "\<forall>s\<in>set xs. clean_seg n s" "\<forall>s\<in>set ys. clean_seg n s"
    and "\<And>d. a \<le> d \<Longrightarrow> d < b \<Longrightarrow> origin xs d = origin ys d"
  shows "xs = ys"
  using assms
proof (induction xs arbitrary: a ys)
  case Nil
  then have "a = b" by simp
  then have "cover_count ys d = 0" for d
    using tiles_cover_count [OF Nil.prems(2)] by simp
  then show ?case
    using Nil.prems(2) cover_count_0_iff [of ys] covers_lo
    by (cases ys) (metis list.distinct(1), metis list.set_intros(1) tiles.simps(2))
next
  case (Cons x xs)
  have x: "seg_lo x = a" "a < seg_hi x" "seg_hi x \<le> b"
    using Cons.prems(1) tiles_bounds [OF Cons.prems(1)] seg_lo_less_hi [of x] by auto
  then obtain y ys' where ys: "ys = y # ys'"
    using Cons.prems(2) by (cases ys) auto
  have y: "seg_lo y = a" "a < seg_hi y" using Cons.prems(2) ys seg_lo_less_hi [of y] by auto
  have "seg_origin x (seg_lo x) = seg_origin y (seg_lo y)"
    using Cons.prems(7) [of a] x y ys by (auto simp: covers_def)
  then have hd: "dst_offset x = dst_offset y \<and> kind x = kind y \<and> src_offset x = src_offset y \<and>
      source_index x = source_index y"
    using Cons.prems(5,6) x y ys by (intro clean_seg_same_head [of n]) auto
  have "seg_hi y \<le> seg_hi x"
    by (rule no_merge_hi_le [OF Cons.prems(1,3) Cons.prems(2) [unfolded ys] _ _
          Cons.prems(7) [unfolded ys]]) (use hd in auto)
  moreover have "seg_hi x \<le> seg_hi y"
    by (rule no_merge_hi_le [OF Cons.prems(2,4) [unfolded ys] Cons.prems(1) _ _
          Cons.prems(7) [unfolded ys, symmetric]]) (use hd in auto)
  ultimately have hi: "seg_hi x = seg_hi y" by simp
  with hd have "seg_length x = seg_length y"
    by (simp add: seg_hi_def)
  with hd have "x = y" by (simp add: ByteRangeSegment.equality)
  moreover have "xs = ys'"
  proof (rule Cons.IH [of "seg_hi x"])
    fix d assume "seg_hi x \<le> d" "d < b"
    then show "origin xs d = origin ys' d"
      using Cons.prems(7) [of d] x hi ys by (auto simp: covers_def)
  qed (use Cons.prems(1-6) ys hi in auto)
  ultimately show ?case using ys by simp
qed

section \<open>Normalisation, for every admissible sort\<close>

lemma validate_total_bytes_ok:
  "is_ok (validate_total_bytes m) \<longleftrightarrow>
     (if total_bytes m = 0 then segments m = [] else num_sources m \<noteq> 0)"
  by (simp add: validate_total_bytes_def)

lemma clean_seg_source_ok: "clean_seg n s \<Longrightarrow> source_ok n s"
  by (cases "kind s") (auto simp: clean_seg_def source_ok_def)

lemma canonical_valid: "canonical_map m \<Longrightarrow> valid_map m"
  by (auto simp: canonical_map_def valid_map_def intro: tiles_exact_cover clean_seg_source_ok
      split: if_splits)

locale segment_sort = std_sort dst_offset srt
  for srt :: "ByteRangeSegment list \<Rightarrow> ByteRangeSegment list"
begin

lemma sorted_live_cover [simp]: "cover_count (srt (live ss)) d = cover_count ss d"
  using cover_count_perm [OF srt_perm] by simp

lemma sorted_live_nonempty: "\<forall>s\<in>set (srt (live ss)). seg_length s \<noteq> 0"
  by (auto simp: srt_set dest: live_nonempty)

lemma valid_tiles:
  assumes "exact_cover n ss"
  shows "tiles 0 n (srt (live ss))"
proof (rule cover_imp_tiles)
  show "sorted (map dst_offset (srt (live ss)))" by (rule srt_sorted)
  show "\<forall>s\<in>set (srt (live ss)). seg_length s \<noteq> 0" by (rule sorted_live_nonempty)
  show "\<forall>s\<in>set (srt (live ss)). 0 \<le> seg_lo s \<and> seg_hi s \<le> n"
    using assms by (auto simp: srt_set set_live exact_cover_def)
  show "cover_count (srt (live ss)) d = 1" if "0 \<le> d" "d < n" for d
    using assms that by (simp add: exact_cover_def)
qed simp

lemma normalize_result:
  assumes "normalize_sorted_by srt m = Inr m'"
  shows "canonical_map m' \<and> valid_map m \<and> total_bytes m' = total_bytes m \<and>
    num_sources m' = num_sources m \<and> (\<forall>d. origin (segments m') d = origin (segments m) d)"
proof -
  let ?ss = "srt (live (segments m))" and ?n = "num_sources m" and ?t = "total_bytes m"
  from assms have v: "is_ok (validate_total_bytes m)"
    by (auto simp: normalize_sorted_by_def split: sum.splits)
  from assms v have src: "\<forall>s\<in>set (segments m). source_ok ?n s"
    by (auto simp: normalize_sorted_by_def filter_segments_eq split: sum.splits if_splits)
  show ?thesis
  proof (cases "?t = 0")
    case True
    with assms v src show ?thesis
      by (auto simp: normalize_sorted_by_def filter_segments_eq validate_total_bytes_ok
          canonical_map_def valid_map_def split: sum.splits)
  next
    case False
    with assms v src obtain merged where
      mg: "merge_segments ?t [] ?ss = Inr merged" and
      cc: "cover_cursor 0 merged = Inr ?t" and m': "m' = m\<lparr>segments := merged\<rparr>"
      by (auto simp: normalize_sorted_by_def filter_segments_eq split: sum.splits if_splits)
    have snd: "(\<forall>s\<in>set merged. bounded ?t s) \<and> adj_ok merged \<and>
        (\<forall>d. origin merged d = origin ?ss d) \<and> (\<forall>d. cover_count merged d = cover_count ?ss d)"
      using merge_segments_sound [OF mg _ sorted_live_nonempty] by simp
    then have tl: "tiles 0 (unat ?t) merged"
      using cover_cursor_tiles [of merged ?t, OF _ cc] by simp
    have cl: "\<forall>s\<in>set merged. clean_seg ?n s"
    proof (rule merge_segments_keeps [OF mg])
      show "\<forall>s\<in>set ?ss. clean_seg ?n s"
        using src by (auto simp: srt_set set_live intro: clean_seg_clean)
    qed simp_all
    have cov: "cover_count (segments m) d = (if d < unat ?t then 1 else 0)" for d
      using snd tiles_cover_count [OF tl, of d] by simp
    have "seg_hi s \<le> unat ?t" if "s \<in> set (segments m)" "seg_length s \<noteq> 0" for s
    proof -
      from that have "covers s (seg_hi s - 1)"
        using seg_lo_less_hi [of s] by (auto simp: covers_def)
      with that have "cover_count (segments m) (seg_hi s - 1) \<noteq> 0"
        unfolding cover_count_0_iff by blast
      with cov [of "seg_hi s - 1"] show ?thesis by (simp split: if_splits)
    qed
    then have ex: "exact_cover (unat ?t) (segments m)"
      using cov by (simp add: exact_cover_def)
    have "origin merged d = origin (segments m) d" for d
      using snd origin_perm [OF srt_perm, of "live (segments m)" d] cov [of d] by simp
    with False tl cl snd src ex v show ?thesis
      by (auto simp: m' canonical_map_def valid_map_def validate_total_bytes_ok
          intro: adj_ok_no_merge)
  qed
qed

lemma normalize_accepts:
  assumes "valid_map m"
  shows "\<exists>m'. normalize_sorted_by srt m = Inr m'"
proof (cases "total_bytes m = 0")
  case True
  with assms show ?thesis
    by (auto simp: valid_map_def normalize_sorted_by_def validate_total_bytes_def
        filter_segments_eq)
next
  case False
  with assms have "tiles 0 (unat (total_bytes m)) (srt (live (segments m)))"
    by (intro valid_tiles) (simp add: valid_map_def)
  then obtain out where "merge_segments (total_bytes m) [] (srt (live (segments m))) = Inr out"
    "tiles (unat (0 :: u64)) (unat (total_bytes m)) out"
    using merge_segments_complete [of 0 "total_bytes m" _ "[]"] by auto
  moreover from this have "cover_cursor 0 out = Inr (total_bytes m)"
    by (intro tiles_cover_cursor)
  ultimately show ?thesis
    using False assms
    by (auto simp: valid_map_def normalize_sorted_by_def validate_total_bytes_def
        filter_segments_eq)
qed

end

interpretation seg_sort: segment_sort "sort_key dst_offset"
  by unfold_locales simp_all

lemma canonical_unique_lemma:
  assumes "canonical_map m" "canonical_map m'" "total_bytes m = total_bytes m'"
    "num_sources m = num_sources m'"
    and "\<And>d. d < unat (total_bytes m) \<Longrightarrow> origin (segments m) d = origin (segments m') d"
  shows "m = m'"
proof -
  have "segments m = segments m'"
  proof (cases "total_bytes m = 0")
    case True
    with assms show ?thesis by (simp add: canonical_map_def)
  next
    case False
    show ?thesis
    proof (rule tiles_unique)
      show "tiles 0 (unat (total_bytes m)) (segments m)" "no_merge (segments m)"
        "\<forall>s\<in>set (segments m). clean_seg (num_sources m) s"
        using assms(1) False by (simp_all add: canonical_map_def)
      show "tiles 0 (unat (total_bytes m)) (segments m')" "no_merge (segments m')"
        "\<forall>s\<in>set (segments m'). clean_seg (num_sources m) s"
        using assms(2-4) False by (simp_all add: canonical_map_def)
      show "origin (segments m) d = origin (segments m') d" if "d < unat (total_bytes m)" for d
        using that by (rule assms(5))
    qed
  qed
  with assms show ?thesis by (simp add: ByteRangeMap.equality)
qed

lemma normalize_valid_iff: "is_ok (normalize_byte_range_map m) \<longleftrightarrow> valid_map m"
  unfolding normalize_byte_range_map_def is_ok_iff
  using seg_sort.normalize_result seg_sort.normalize_accepts by blast

lemma normalize_meaning:
  assumes "normalize_byte_range_map m = Inr m'"
  shows "canonical_map m'" "total_bytes m' = total_bytes m" "num_sources m' = num_sources m"
    "origin (segments m') d = origin (segments m) d" "valid_map m"
  using seg_sort.normalize_result [of m m'] assms
  by (simp_all add: normalize_byte_range_map_def)

lemma normalize_canonical: "canonical_map m \<Longrightarrow> normalize_byte_range_map m = Inr m"
proof -
  assume c: "canonical_map m"
  then obtain m' where m': "normalize_byte_range_map m = Inr m'"
    using canonical_valid [OF c] normalize_valid_iff [of m] by (auto simp: is_ok_iff)
  then have "m' = m"
    by (intro canonical_unique_lemma normalize_meaning [OF m'] c)
  with m' show ?thesis by simp
qed

section \<open>Properties\<close>

text \<open>
  C1. \<open>normalize_byte_range_map\<close> succeeds on exactly the valid maps: those whose non-empty
  segments name existing sources and cover every destination byte exactly once, and the
  empty map of an empty destination.
\<close>

theorem normalize_accepts_exact_covers:
  "(\<exists>m'. normalize_byte_range_map m = Inr m') \<longleftrightarrow> valid_map m"
  using normalize_valid_iff by (simp add: is_ok_iff)

text \<open>
  C2. A successful normalisation yields a canonical map (consecutive non-empty segments from
  0 to the total, no two neighbours that could be merged, cleared padding) of the same size
  and sources, and every destination byte keeps its origin.
\<close>

theorem normalize_keeps_meaning:
  assumes "normalize_byte_range_map m = Inr m'"
  shows "canonical_map m' \<and> total_bytes m' = total_bytes m \<and> num_sources m' = num_sources m \<and>
    (\<forall>d. origin (segments m') d = origin (segments m) d)"
  using normalize_meaning [OF assms] by simp

text \<open>
  C3. Two maps of the same size and source count normalise to the same map exactly when
  they give every destination byte the same origin: the normal form is a complete
  representative of the meaning.
\<close>

theorem normalize_full_abstraction:
  assumes "normalize_byte_range_map m1 = Inr n1" and "normalize_byte_range_map m2 = Inr n2"
    and "total_bytes m1 = total_bytes m2" and "num_sources m1 = num_sources m2"
  shows "n1 = n2 \<longleftrightarrow> (\<forall>d. origin (segments m1) d = origin (segments m2) d)"
proof
  assume "n1 = n2"
  then show "\<forall>d. origin (segments m1) d = origin (segments m2) d"
    using normalize_meaning [OF assms(1)] normalize_meaning [OF assms(2)] by simp
next
  assume eq: "\<forall>d. origin (segments m1) d = origin (segments m2) d"
  show "n1 = n2"
  proof (rule canonical_unique_lemma)
    show "canonical_map n1" "canonical_map n2"
      using assms(1,2) normalize_meaning(1) by blast+
    show "total_bytes n1 = total_bytes n2" "num_sources n1 = num_sources n2"
      using assms normalize_meaning(2,3) by metis+
    show "origin (segments n1) d = origin (segments n2) d" for d
      using eq normalize_meaning(4) [OF assms(1)] normalize_meaning(4) [OF assms(2)] by metis
  qed
qed

text \<open>
  C4. The instability of \<open>std::sort\<close> is not observable: with any routine that returns a
  permutation sorted by destination offset, normalisation succeeds on the same maps and
  with the same result.
\<close>

theorem normalize_sort_order_irrelevant:
  assumes "\<And>xs. mset (srt xs) = mset xs" and "\<And>xs. sorted (map dst_offset (srt xs))"
  shows "normalize_sorted_by srt m = Inr m' \<longleftrightarrow> normalize_byte_range_map m = Inr m'"
proof -
  have srt: "segment_sort srt" using assms by unfold_locales
  have same: "n1 = n2"
    if "normalize_sorted_by srt m = Inr n1" "normalize_byte_range_map m = Inr n2" for n1 n2
  proof (rule canonical_unique_lemma)
    note r = segment_sort.normalize_result [OF srt that(1)] and n = normalize_meaning [OF that(2)]
    show "canonical_map n1" "canonical_map n2" using r n by blast+
    show "total_bytes n1 = total_bytes n2" "num_sources n1 = num_sources n2"
      using r n by metis+
    show "origin (segments n1) d = origin (segments n2) d" for d
      using r n(4) by metis
  qed
  have "(\<exists>n. normalize_sorted_by srt m = Inr n) \<longleftrightarrow> (\<exists>n. normalize_byte_range_map m = Inr n)"
    using segment_sort.normalize_result [OF srt] segment_sort.normalize_accepts [OF srt]
      normalize_valid_iff [of m] unfolding is_ok_iff by metis
  with same show ?thesis by metis
qed

section \<open>The fingerprint payload determines the map\<close>

fun le_word :: "u8 list \<Rightarrow> 'a::len word" where
  "le_word [] = 0"
| "le_word (b # bs) = ucast b OR push_bit 8 (le_word bs)"

lemma and_ff: "w AND 0xFF = take_bit 8 (w :: 'a::len word)"
  by (simp add: take_bit_eq_mask mask_eq_exp_minus_1)

lemma le_word_le_bytes: "le_word (le_bytes n w) = take_bit (8 * n) (w :: 'a::len word)"
proof (induction n arbitrary: w)
  case (Suc n)
  show ?case
    by (rule bit_word_eqI) (auto simp: Suc and_ff bit_simps)
qed simp

lemma length_le_bytes [simp]: "length (le_bytes n w) = n"
  by (induction n arbitrary: w) auto

lemma le_word_full:
  "le_word (le_bytes 8 (a :: u64)) = a" "le_word (le_bytes 4 (c :: u32)) = c"
  by (simp_all add: le_word_le_bytes take_bit_word_eq_self)

lemma le_bytes_eq [simp]:
  "le_bytes 8 (a :: u64) = le_bytes 8 b \<longleftrightarrow> a = b" "le_bytes 4 (c :: u32) = le_bytes 4 d \<longleftrightarrow> c = d"
  by (metis le_word_full(1)) (metis le_word_full(2))

definition segment_bytes :: "ByteRangeSegment \<Rightarrow> u8 list" where
  "segment_bytes seg = append_segment [] seg"

lemma append_segment_eq: "append_segment out seg = out @ segment_bytes seg"
  by (simp add: segment_bytes_def append_segment_def append_u32_def append_u64_def)

lemma length_segment_bytes [simp]: "length (segment_bytes seg) = 32"
  by (simp add: segment_bytes_def append_segment_def append_u32_def append_u64_def)

lemma kind_code_eq [simp]: "kind_code a = kind_code b \<longleftrightarrow> a = b"
  by (cases a; cases b) (auto simp: kind_code_def)

lemma segment_bytes_eq [simp]: "segment_bytes s = segment_bytes t \<longleftrightarrow> s = t"
proof
  assume "segment_bytes s = segment_bytes t"
  then have "kind s = kind t \<and> dst_offset s = dst_offset t \<and> seg_length s = seg_length t \<and>
      source_index s = source_index t \<and> src_offset s = src_offset t"
    by (auto simp: segment_bytes_def append_segment_def append_u32_def append_u64_def)
  then show "s = t" by (simp add: ByteRangeSegment.equality)
qed simp

lemma fingerprint_payload_eq:
  "fingerprint_payload m =
     ascii_bytes ''byte_range_map_v1'' @ [0] @ le_bytes 8 (total_bytes m) @
     le_bytes 4 (num_sources m) @ le_bytes 4 (of_nat (length (segments m)) :: u32) @
     concat (map segment_bytes (segments m))"
proof -
  have "foldl append_segment out ss = out @ concat (map segment_bytes ss)" for out ss
    by (induction ss arbitrary: out) (simp_all add: append_segment_eq)
  then show ?thesis
    by (simp add: fingerprint_payload_def append_u32_def append_u64_def)
qed

lemma concat_segment_bytes_inj:
  "concat (map segment_bytes xs) = concat (map segment_bytes ys) \<Longrightarrow> xs = ys"
proof (induction xs arbitrary: ys)
  case Nil
  then show ?case by (cases ys) (auto dest: arg_cong [where f = length])
next
  case (Cons x xs)
  then show ?case
    by (cases ys) (auto dest: arg_cong [where f = length])
qed

lemma payload_determines: "fingerprint_payload m1 = fingerprint_payload m2 \<longleftrightarrow> m1 = m2"
proof
  assume "fingerprint_payload m1 = fingerprint_payload m2"
  then have "total_bytes m1 = total_bytes m2 \<and> num_sources m1 = num_sources m2 \<and>
      concat (map segment_bytes (segments m1)) = concat (map segment_bytes (segments m2))"
    by (simp add: fingerprint_payload_eq)
  then show "m1 = m2"
    by (simp add: concat_segment_bytes_inj ByteRangeMap.equality)
qed simp

text \<open>
  C5. The byte string that is hashed into a map's fingerprint determines the map: version
  tag, sizes and segments are encoded without ambiguity.
\<close>

theorem fingerprint_payload_injective:
  "fingerprint_payload m1 = fingerprint_payload m2 \<longleftrightarrow> m1 = m2"
  by (rule payload_determines)

section \<open>Witnesses\<close>

definition ex_raw :: ByteRangeMap where
  "ex_raw = \<lparr>total_bytes = 12, num_sources = 2, segments =
     [\<lparr>kind = kData, dst_offset = 8, seg_length = 4, src_offset = 104, source_index = 1\<rparr>,
      \<lparr>kind = kPad, dst_offset = 0, seg_length = 4, src_offset = 9, source_index = 1\<rparr>,
      \<lparr>kind = kData, dst_offset = 4, seg_length = 4, src_offset = 100, source_index = 1\<rparr>]\<rparr>"

definition ex_norm :: ByteRangeMap where
  "ex_norm = \<lparr>total_bytes = 12, num_sources = 2, segments =
     [\<lparr>kind = kPad, dst_offset = 0, seg_length = 4, src_offset = 0, source_index = 0\<rparr>,
      \<lparr>kind = kData, dst_offset = 4, seg_length = 8, src_offset = 100, source_index = 1\<rparr>]\<rparr>"

lemma normalize_ex_raw: "normalize_byte_range_map ex_raw = Inr ex_norm"
  by (simp add: normalize_byte_range_map_def normalize_sorted_by_def ex_raw_def ex_norm_def
      validate_total_bytes_def seg_end_def can_merge_def u64_simps)

lemma normalize_ex_norm: "normalize_byte_range_map ex_norm = Inr ex_norm"
  by (simp add: normalize_byte_range_map_def normalize_sorted_by_def ex_norm_def
      validate_total_bytes_def seg_end_def can_merge_def u64_simps)

theorem normalize_keeps_meaning_witness:
  "canonical_map ex_norm \<and> total_bytes ex_norm = total_bytes ex_raw \<and>
   num_sources ex_norm = num_sources ex_raw \<and>
   (\<forall>d. origin (segments ex_norm) d = origin (segments ex_raw) d)"
  by (rule normalize_keeps_meaning [OF normalize_ex_raw])

theorem normalize_full_abstraction_witness:
  "\<forall>d. origin (segments ex_raw) d = origin (segments ex_norm) d"
  using normalize_full_abstraction [OF normalize_ex_raw normalize_ex_norm]
  by (simp add: ex_raw_def ex_norm_def)

theorem normalize_sort_order_irrelevant_witness:
  "normalize_sorted_by (\<lambda>xs. sort_key dst_offset (rev xs)) ex_raw = Inr ex_norm"
  using normalize_sort_order_irrelevant [of "\<lambda>xs. sort_key dst_offset (rev xs)" ex_raw ex_norm]
    normalize_ex_raw by simp

end
