(* ===== verification/Byte_Range_Builder.thy ===== *)
theory Byte_Range_Builder
  imports Byte_Range_Map "HOL-Library.Product_Lexorder"
begin

text \<open>
  Construction of byte-range maps
  (\<open>core/store/materialization/dataplane/sources/byte_range_map_builder.cc\<close>): the map of a
  canonical tensor index, the map that relocates a canonical index to a source index, and the
  composition of two maps. The lemmas give the origin of every destination byte of the result
  and say exactly when each construction fails.
\<close>

section \<open>Index entries\<close>

record IndexEntry =
  entry_offset :: u64
  entry_size :: u64

record Range =
  range_dst :: u64
  range_length :: u64
  range_src :: u64

text \<open>
  The JSON library is a parameter: the operations below are the ones the code calls, with
  \<open>None\<close> where the library throws.
\<close>

record 'j json_api =
  json_parse :: "string \<Rightarrow> 'j option"
  json_is_object :: "'j \<Rightarrow> bool"
  json_items :: "'j \<Rightarrow> (string \<times> 'j) list"
  json_is_array :: "'j \<Rightarrow> bool"
  json_size :: "'j \<Rightarrow> nat"
  json_at :: "'j \<Rightarrow> nat \<Rightarrow> 'j"
  json_get_u64 :: "'j \<Rightarrow> u64 option"

text \<open>\<open>emplace\<close> of an unordered map: a key that is present keeps its value.\<close>

definition emplace :: "('k \<times> 'v) list \<Rightarrow> 'k \<Rightarrow> 'v \<Rightarrow> ('k \<times> 'v) list" where
  "emplace es k v = (if map_of es k = None then es @ [(k, v)] else es)"

definition entry_shaped :: "'j json_api \<Rightarrow> 'j \<Rightarrow> bool" where
  "entry_shaped J arr \<longleftrightarrow> json_is_array J arr \<and> 2 \<le> json_size J arr"

definition get_entry :: "'j json_api \<Rightarrow> 'j \<Rightarrow> IndexEntry status_or" where
  "get_entry J arr =
     (case json_get_u64 J (json_at J arr 0) of
        None \<Rightarrow> Inl (Err Thrown ''type_error'')
      | Some off \<Rightarrow>
        (case json_get_u64 J (json_at J arr 1) of
           None \<Rightarrow> Inl (Err Thrown ''type_error'')
         | Some sz \<Rightarrow> Inr \<lparr>entry_offset = off, entry_size = sz\<rparr>))"

primrec collect_entries ::
  "'j json_api \<Rightarrow> (string \<times> IndexEntry) list \<Rightarrow> (string \<times> 'j) list
     \<Rightarrow> (string \<times> IndexEntry) list status_or"
where
  "collect_entries J entries [] = Inr entries"
| "collect_entries J entries (item # rest) =
     (if \<not> entry_shaped J (snd item)
      then Inl (Err InvalidArgument ''index entry must be array [offset,size,...]'')
      else case get_entry J (snd item) of
             Inl e \<Rightarrow> Inl e
           | Inr entry \<Rightarrow> collect_entries J (emplace entries (fst item) entry) rest)"

definition parse_index_entries ::
  "'j json_api \<Rightarrow> string \<Rightarrow> (string \<times> IndexEntry) list status_or"
where
  "parse_index_entries J index_json =
     (if index_json = [] then Inl (Err InvalidArgument ''index_json must not be empty'')
      else case json_parse J index_json of
        None \<Rightarrow> Inl (Err InvalidArgument ''Failed to parse index JSON: '')
      | Some j \<Rightarrow>
        if \<not> json_is_object J j
        then Inl (Err InvalidArgument ''index JSON must be an object'')
        else collect_entries J [] (json_items J j))"

definition compute_total_size_from_entries :: "(string \<times> IndexEntry) list \<Rightarrow> u64" where
  "compute_total_size_from_entries entries =
     fold (\<lambda>(_, entry) tot. max tot (entry_offset entry + entry_size entry)) entries 0"

section \<open>From ranges to segments\<close>

definition pad_segment :: "u64 \<Rightarrow> u64 \<Rightarrow> ByteRangeSegment" where
  "pad_segment off len =
     \<lparr>kind = kPad, dst_offset = off, seg_length = len, src_offset = 0, source_index = 0\<rparr>"

definition data_segment :: "Range \<Rightarrow> ByteRangeSegment" where
  "data_segment r =
     \<lparr>kind = kData, dst_offset = range_dst r, seg_length = range_length r,
      src_offset = range_src r, source_index = 0\<rparr>"

definition range_end :: "Range \<Rightarrow> u64" where
  "range_end r = range_dst r + range_length r"

text \<open>
  \<open>int64_t(src) - int64_t(dst)\<close> in two's complement; the code only compares such values
  for equality, for which the 64-bit difference is enough.
\<close>

definition range_delta :: "Range \<Rightarrow> u64" where
  "range_delta r = range_src r - range_dst r"

definition trim_range :: "u64 \<Rightarrow> Range \<Rightarrow> Range" where
  "trim_range cur r =
     \<lparr>range_dst = cur, range_length = range_end r - cur,
      range_src = range_src r + (cur - range_dst r)\<rparr>"

text \<open>The branch that pushes the padding before a range, if any, and the range.\<close>

definition push_range :: "u64 \<Rightarrow> Range \<Rightarrow> ByteRangeSegment list" where
  "push_range cur r =
     (if cur < range_dst r
      then [pad_segment cur (range_dst r - cur), data_segment r]
      else [data_segment r])"

text \<open>The loop over the sorted ranges: the segments pushed so far, the cursor, the delta.\<close>

primrec append_ranges ::
  "u64 \<Rightarrow> u64 \<Rightarrow> u64 option \<Rightarrow> ByteRangeSegment list \<Rightarrow> Range list
     \<Rightarrow> ByteRangeSegment list \<times> u64 status_or"
where
  "append_ranges tot cur active_delta segs [] = (segs, Inr cur)"
| "append_ranges tot cur active_delta segs (r # rest) =
     (if range_length r = 0 then append_ranges tot cur active_delta segs rest
      else if tot \<le> range_dst r \<or> tot - range_dst r < range_length r
      then (segs, Inl (Err InvalidArgument ''byte range map range out of bounds''))
      else if range_dst r < cur then
        (if active_delta \<noteq> None \<and> active_delta \<noteq> Some (range_delta r)
         then (segs, Inl (Err InvalidArgument
                 ''overlapping byte ranges map to different source offsets''))
         else if range_end r \<le> cur then append_ranges tot cur active_delta segs rest
         else append_ranges tot (range_end (trim_range cur r)) (Some (range_delta r))
                (segs @ push_range cur (trim_range cur r)) rest)
      else append_ranges tot (range_end r) (Some (range_delta r)) (segs @ push_range cur r) rest)"

definition range_key :: "Range \<Rightarrow> u64 \<times> u64" where
  "range_key r = (range_dst r, range_src r)"

definition closing_pad :: "u64 \<Rightarrow> u64 \<Rightarrow> ByteRangeSegment list" where
  "closing_pad tot cur = (if cur < tot then [pad_segment cur (tot - cur)] else [])"

definition append_normalized_ranges ::
  "(Range list \<Rightarrow> Range list) \<Rightarrow> ByteRangeMap option \<Rightarrow> Range list \<Rightarrow> ByteRangeMap option \<times> status"
where
  "append_normalized_ranges srt out ranges =
     (case out of
        None \<Rightarrow> (None, Inl (Err InvalidArgument ''byte range map output must not be null''))
      | Some m \<Rightarrow>
        (case append_ranges (total_bytes m) 0 None (segments m) (srt ranges) of
           (segs, Inl e) \<Rightarrow> (Some (m\<lparr>segments := segs\<rparr>), Inl e)
         | (segs, Inr cur) \<Rightarrow>
             (Some (m\<lparr>segments :=
                segs @ closing_pad (total_bytes m) cur\<rparr>), ok_status)))"

section \<open>Maps of tensor indices\<close>

definition build_from_ranges ::
  "(Range list \<Rightarrow> Range list) \<Rightarrow> u64 \<Rightarrow> Range list \<Rightarrow> ByteRangeMap status_or"
where
  "build_from_ranges srt total_size ranges =
     (case append_normalized_ranges srt
             (Some \<lparr>total_bytes = total_size, num_sources = 1, segments = []\<rparr>) ranges of
        (out, Inl e) \<Rightarrow> Inl e
      | (out, Inr _) \<Rightarrow> normalize_byte_range_map (the out))"

text \<open>Entries that are not \<open>[offset, size, ...]\<close> arrays are skipped here, unlike in
  \<open>parse_index_entries\<close>.\<close>

primrec canonical_ranges :: "'j json_api \<Rightarrow> (string \<times> 'j) list \<Rightarrow> Range list status_or" where
  "canonical_ranges J [] = Inr []"
| "canonical_ranges J (item # rest) =
     (if \<not> entry_shaped J (snd item) then canonical_ranges J rest
      else case get_entry J (snd item) of
             Inl e \<Rightarrow> Inl e
           | Inr entry \<Rightarrow>
               map_sum id ((#) \<lparr>range_dst = entry_offset entry, range_length = entry_size entry,
                             range_src = entry_offset entry\<rparr>)
                 (canonical_ranges J rest))"

definition build_byte_range_map_from_canonical_index_json ::
  "(Range list \<Rightarrow> Range list) \<Rightarrow> 'j json_api \<Rightarrow> string \<Rightarrow> u64 \<Rightarrow> ByteRangeMap status_or"
where
  "build_byte_range_map_from_canonical_index_json srt J index_json total_size =
     (if total_size = 0 then Inl (Err InvalidArgument ''total_size must be > 0'')
      else if index_json = [] then Inl (Err InvalidArgument ''index_json must not be empty'')
      else case json_parse J index_json of
        None \<Rightarrow> Inl (Err InvalidArgument ''Failed to parse canonical index JSON: '')
      | Some j \<Rightarrow>
        if \<not> json_is_object J j
        then Inl (Err InvalidArgument ''canonical index JSON must be an object'')
        else case canonical_ranges J (json_items J j) of
               Inl e \<Rightarrow> Inl e
             | Inr ranges \<Rightarrow> build_from_ranges srt total_size ranges)"

primrec check_same_tensors ::
  "(string \<times> IndexEntry) list \<Rightarrow> (string \<times> IndexEntry) list \<Rightarrow> status"
where
  "check_same_tensors source [] = ok_status"
| "check_same_tensors source (ne # rest) =
     (case map_of source (fst ne) of
        None \<Rightarrow> Inl (Err InvalidArgument ''canonical/source index tensor name mismatch'')
      | Some src_entry \<Rightarrow>
        if entry_size (snd ne) \<noteq> entry_size src_entry
        then Inl (Err InvalidArgument ''canonical/source index tensor size mismatch'')
        else check_same_tensors source rest)"

primrec relocated_ranges ::
  "u64 \<Rightarrow> (string \<times> IndexEntry) list \<Rightarrow> (string \<times> IndexEntry) list \<Rightarrow> Range list status_or"
where
  "relocated_ranges source_total_size source [] = Inr []"
| "relocated_ranges source_total_size source (ne # rest) =
     (case map_of source (fst ne) of
        None \<Rightarrow> Inl (Err Thrown ''out_of_range'')
      | Some src_entry \<Rightarrow>
        if source_total_size < entry_offset src_entry \<or>
           source_total_size - entry_offset src_entry < entry_size src_entry
        then Inl (Err InvalidArgument ''source index offsets out of bounds'')
        else map_sum id ((#) \<lparr>range_dst = entry_offset (snd ne), range_length = entry_size (snd ne),
                             range_src = entry_offset src_entry\<rparr>)
               (relocated_ranges source_total_size source rest))"

text \<open>
  \<open>order\<close> is the iteration order of an unordered map, given its bindings in insertion order.
\<close>

definition build_byte_range_map_from_canonical_and_source_index_json ::
  "(Range list \<Rightarrow> Range list)
     \<Rightarrow> ((string \<times> IndexEntry) list \<Rightarrow> (string \<times> IndexEntry) list)
     \<Rightarrow> 'j json_api \<Rightarrow> string \<Rightarrow> string \<Rightarrow> u64 \<Rightarrow> ByteRangeMap status_or"
where
  "build_byte_range_map_from_canonical_and_source_index_json
       srt order J canonical_index_json source_index_json total_size =
     (if total_size = 0 then Inl (Err InvalidArgument ''total_size must be > 0'')
      else case parse_index_entries J canonical_index_json of
        Inl e \<Rightarrow> Inl e
      | Inr canonical \<Rightarrow>
        (case parse_index_entries J source_index_json of
           Inl e \<Rightarrow> Inl e
         | Inr source \<Rightarrow>
           if length canonical \<noteq> length source
           then Inl (Err InvalidArgument ''canonical and source index tensor counts differ'')
           else case check_same_tensors source (order canonical) of
             Inl e \<Rightarrow> Inl e
           | Inr _ \<Rightarrow>
             if compute_total_size_from_entries (order source) = 0
             then Inl (Err InvalidArgument ''source index total_size is zero'')
             else case relocated_ranges (compute_total_size_from_entries (order source)) source
                         (order canonical) of
               Inl e \<Rightarrow> Inl e
             | Inr ranges \<Rightarrow> build_from_ranges srt total_size ranges))"

section \<open>Composition\<close>

definition upper_bound :: "u64 list \<Rightarrow> u64 \<Rightarrow> nat" where
  "upper_bound xs v = length (takeWhile (\<lambda>x. x \<le> v) xs)"

definition find_inner_index :: "ByteRangeMap \<Rightarrow> u64 \<Rightarrow> nat status_or" where
  "find_inner_index inner canonical_offset =
     (if segments inner = [] then Inl (Err InvalidArgument ''inner map has no segments'')
      else if total_bytes inner \<le> canonical_offset
      then Inl (Err InvalidArgument
             ''outer map references canonical offsets beyond inner map total_bytes'')
      else
        (let it = upper_bound (map dst_offset (segments inner)) canonical_offset;
             idx = (if it = 0 then 0 else it - 1)
         in if length (segments inner) \<le> idx
            then Inl (Err InvalidArgument ''inner map segment lookup out of range'')
            else if canonical_offset < dst_offset (segments inner ! idx) \<or>
                    seg_end (segments inner ! idx) \<le> canonical_offset
            then Inl (Err InvalidArgument
                   ''inner map does not cover canonical range for composition'')
            else Inr idx))"

definition compose_take :: "ByteRangeSegment \<Rightarrow> u64 \<Rightarrow> u64 \<Rightarrow> u64" where
  "compose_take inner_seg remaining canonical_cursor =
     min remaining (seg_length inner_seg - (canonical_cursor - dst_offset inner_seg))"

definition compose_piece :: "ByteRangeSegment \<Rightarrow> u64 \<Rightarrow> u64 \<Rightarrow> u64 \<Rightarrow> ByteRangeSegment" where
  "compose_piece inner_seg take_len dst_cursor canonical_cursor =
     (case kind inner_seg of
        kPad \<Rightarrow> pad_segment dst_cursor take_len
      | kData \<Rightarrow>
          \<lparr>kind = kData, dst_offset = dst_cursor, seg_length = take_len,
           src_offset = src_offset inner_seg + (canonical_cursor - dst_offset inner_seg),
           source_index = source_index inner_seg\<rparr>)"

lemma compose_take_pos:
  assumes "\<not> canonical_cursor < dst_offset s" "\<not> seg_end s \<le> canonical_cursor" "remaining \<noteq> 0"
  shows "compose_take s remaining canonical_cursor \<noteq> 0"
proof
  assume "compose_take s remaining canonical_cursor = 0"
  with assms(3) have "seg_length s = canonical_cursor - dst_offset s"
    by (auto simp: compose_take_def min_def split: if_splits)
  with assms(2) show False by (simp add: seg_end_def)
qed

lemma find_inner_index_bounds:
  assumes "find_inner_index inner c = Inr idx"
  shows "idx < length (segments inner)" "\<not> c < dst_offset (segments inner ! idx)"
    "\<not> seg_end (segments inner ! idx) \<le> c"
  using assms by (auto simp: find_inner_index_def Let_def split: if_splits)

function compose_loop ::
  "ByteRangeMap \<Rightarrow> u64 \<Rightarrow> u64 \<Rightarrow> u64 \<Rightarrow> ByteRangeSegment list status_or"
where
  "compose_loop inner remaining dst_cursor canonical_cursor =
     (if remaining = 0 then Inr []
      else case find_inner_index inner canonical_cursor of
             Inl e \<Rightarrow> Inl e
           | Inr idx \<Rightarrow>
             map_sum id
               ((#) (compose_piece (segments inner ! idx)
                       (compose_take (segments inner ! idx) remaining canonical_cursor)
                       dst_cursor canonical_cursor))
               (compose_loop inner
                  (remaining - compose_take (segments inner ! idx) remaining canonical_cursor)
                  (dst_cursor + compose_take (segments inner ! idx) remaining canonical_cursor)
                  (canonical_cursor
                     + compose_take (segments inner ! idx) remaining canonical_cursor)))"
  by pat_completeness auto
termination
proof (relation "measure (\<lambda>(inner, remaining, dst, can). unat remaining)", simp, clarsimp)
  fix inner and remaining canonical_cursor :: u64 and idx
  assume r: "remaining \<noteq> 0" and f: "find_inner_index inner canonical_cursor = Inr idx"
  have pos: "compose_take (segments inner ! idx) remaining canonical_cursor \<noteq> 0"
    using compose_take_pos find_inner_index_bounds [OF f] r by blast
  moreover have le: "compose_take (segments inner ! idx) remaining canonical_cursor \<le> remaining"
    by (simp add: compose_take_def)
  ultimately show "unat (remaining - compose_take (segments inner ! idx) remaining canonical_cursor)
        < unat remaining"
    by (simp add: unat_u64_sub u64_simps) (metis diff_less gr0I le_zero_eq unat_eq_0 unat_0)
qed

declare compose_loop.simps [simp del]

primrec compose_segments ::
  "ByteRangeMap \<Rightarrow> ByteRangeSegment list \<Rightarrow> ByteRangeSegment list status_or"
where
  "compose_segments inner [] = Inr []"
| "compose_segments inner (outer_seg # rest) =
     (if seg_length outer_seg = 0 then compose_segments inner rest
      else if kind outer_seg = kPad then
        map_sum id ((#) (pad_segment (dst_offset outer_seg) (seg_length outer_seg)))
          (compose_segments inner rest)
      else if total_bytes inner < src_offset outer_seg + seg_length outer_seg
      then Inl (Err InvalidArgument
             ''outer map references canonical offsets beyond inner map total_bytes'')
      else case compose_loop inner (seg_length outer_seg) (dst_offset outer_seg)
                  (src_offset outer_seg) of
             Inl e \<Rightarrow> Inl e
           | Inr pieces \<Rightarrow> map_sum id ((@) pieces) (compose_segments inner rest))"

definition compose_byte_range_maps :: "ByteRangeMap \<Rightarrow> ByteRangeMap \<Rightarrow> ByteRangeMap status_or" where
  "compose_byte_range_maps outer inner =
     (if total_bytes outer = 0 then Inr \<lparr>total_bytes = 0, num_sources = 0, segments = []\<rparr>
      else if total_bytes inner = 0
      then Inl (Err InvalidArgument ''inner map total_bytes is zero'')
      else case normalize_byte_range_map outer of
        Inl e \<Rightarrow> Inl e
      | Inr outer_map \<Rightarrow>
        (case normalize_byte_range_map inner of
           Inl e \<Rightarrow> Inl e
         | Inr inner_map \<Rightarrow>
           (case compose_segments inner_map (segments outer_map) of
              Inl e \<Rightarrow> Inl e
            | Inr segs \<Rightarrow>
                normalize_byte_range_map
                  \<lparr>total_bytes = total_bytes outer_map, num_sources = num_sources inner_map,
                   segments = segs\<rparr>)))"

section \<open>Meaning of the range loop\<close>

definition rlo :: "Range \<Rightarrow> nat" where
  "rlo r = unat (range_dst r)"

definition rhi :: "Range \<Rightarrow> nat" where
  "rhi r = unat (range_dst r) + unat (range_length r)"

definition range_covers :: "Range \<Rightarrow> nat \<Rightarrow> bool" where
  "range_covers r d \<longleftrightarrow> rlo r \<le> d \<and> d < rhi r"

definition ranges_in_bounds :: "u64 \<Rightarrow> Range list \<Rightarrow> bool" where
  "ranges_in_bounds tot rs \<longleftrightarrow> (\<forall>r\<in>set rs. range_length r \<noteq> 0 \<longrightarrow> rhi r \<le> unat tot)"

text \<open>Ranges that share a destination byte read it from the same source byte.\<close>

definition ranges_agree :: "Range list \<Rightarrow> bool" where
  "ranges_agree rs \<longleftrightarrow>
     (\<forall>r\<in>set rs. \<forall>s\<in>set rs. \<forall>d. range_covers r d \<and> range_covers s d \<longrightarrow>
        range_delta r = range_delta s)"

text \<open>At byte \<open>d\<close> the segments do what the ranges say: the ranges that cover it are copied,
  a byte that none covers is padding.\<close>

definition describes :: "ByteRangeSegment list \<Rightarrow> Range list \<Rightarrow> nat \<Rightarrow> bool" where
  "describes segs rs d \<longleftrightarrow>
     (\<forall>r\<in>set rs. range_covers r d \<longrightarrow>
        origin segs d = Some (SourceByte 0 (range_src r + of_nat (d - rlo r)))) \<and>
     ((\<forall>r\<in>set rs. \<not> range_covers r d) \<longrightarrow> origin segs d = Some PadByte)"

definition append_inv ::
  "u64 \<Rightarrow> Range list \<Rightarrow> Range list \<Rightarrow> u64 \<Rightarrow> u64 option \<Rightarrow> ByteRangeSegment list \<Rightarrow> bool"
where
  "append_inv tot seen rest cur active_delta new \<longleftrightarrow>
     tiles 0 (unat cur) new \<and> cur \<le> tot \<and>
     (\<forall>s\<in>set seen. range_length s \<noteq> 0 \<longrightarrow> rhi s \<le> unat cur) \<and>
     (\<forall>d<unat cur. describes new seen d) \<and> sorted (map rlo rest) \<and>
     (case active_delta of
        None \<Rightarrow> cur = 0
      | Some delta \<Rightarrow> \<exists>r0\<in>set seen. delta = range_delta r0 \<and> rhi r0 = unat cur \<and>
          range_length r0 \<noteq> 0 \<and> (\<forall>r\<in>set rest. rlo r0 \<le> rlo r))"

lemma range_covers_nonempty: "range_covers r d \<Longrightarrow> range_length r \<noteq> 0"
  by (auto simp: range_covers_def rlo_def rhi_def)

lemma rlo_less_rhi: "range_length r \<noteq> 0 \<Longrightarrow> rlo r < rhi r"
  by (simp add: rlo_def rhi_def unat_gt_0)

lemma range_bounds_check:
  assumes "range_length r \<noteq> 0"
  shows "tot \<le> range_dst r \<or> tot - range_dst r < range_length r \<longleftrightarrow> \<not> rhi r \<le> unat tot"
  using bounded_iff_checks [of "data_segment r" tot] assms
  by (auto simp: data_segment_def bounded_def seg_hi_def rhi_def)

lemma unat_range_end: "rhi r \<le> unat (tot :: u64) \<Longrightarrow> unat (range_end r) = rhi r"
  unfolding rhi_def range_end_def by (erule unat_u64_add_le)

lemma of_nat_minus_rlo: "rlo r \<le> d \<Longrightarrow> (of_nat (d - rlo r) :: u64) = of_nat d - range_dst r"
  by (simp add: rlo_def of_nat_diff)

lemma read_offset:
  "range_covers r d \<Longrightarrow> range_src r + of_nat (d - rlo r) = of_nat d + range_delta r"
  unfolding range_covers_def range_delta_def by (subst of_nat_minus_rlo) (blast, simp)

lemma same_read:
  assumes "range_covers r d" "range_covers s d"
  shows "range_src r + of_nat (d - rlo r) = range_src s + of_nat (d - rlo s) \<longleftrightarrow>
    range_delta r = range_delta s"
  unfolding read_offset [OF assms(1)] read_offset [OF assms(2)] by simp

lemma data_segment_simps [simp]:
  "seg_lo (data_segment r) = rlo r" "seg_hi (data_segment r) = rhi r"
  "covers (data_segment r) d = range_covers r d"
  "seg_length (data_segment r) = range_length r"
  "seg_origin (data_segment r) d = SourceByte 0 (range_src r + of_nat (d - rlo r))"
  by (simp_all add: data_segment_def seg_lo_def seg_hi_def rlo_def rhi_def covers_def
      range_covers_def seg_origin_def)

lemma pad_segment_simps [simp]:
  "seg_lo (pad_segment a l) = unat a" "seg_hi (pad_segment a l) = unat a + unat l"
  "seg_length (pad_segment a l) = l" "seg_origin (pad_segment a l) d = PadByte"
  by (simp_all add: pad_segment_def seg_lo_def seg_hi_def seg_origin_def)

lemma push_range_tiles:
  assumes "cur \<le> range_dst r" "range_length r \<noteq> 0"
  shows "tiles (unat cur) (rhi r) (push_range cur r)"
proof (cases "cur = range_dst r")
  case True
  with assms show ?thesis by (simp add: push_range_def rlo_def)
next
  case False
  with assms have "cur < range_dst r" "range_dst r - cur \<noteq> 0" by auto
  with assms show ?thesis
    by (simp add: push_range_def rlo_def unat_sub word_le_nat_alt)
qed

lemma push_range_origin:
  assumes "cur \<le> range_dst r" "unat cur \<le> d" "d < rhi r"
  shows "origin (push_range cur r) d =
    Some (if range_covers r d then SourceByte 0 (range_src r + of_nat (d - rlo r)) else PadByte)"
  using assms
  by (auto simp: push_range_def covers_def range_covers_def rlo_def rhi_def unat_sub u64_simps)

lemma append_inv_overlap:
  assumes inv: "append_inv tot seen (r # rest) cur active_delta new"
    and skip: "range_length r \<noteq> 0 \<Longrightarrow> active_delta = Some (range_delta r)"
    and d: "d < unat cur"
  shows "describes new (seen @ [r]) d"
proof (cases "range_covers r d")
  case True
  then obtain r0 where r0: "r0 \<in> set seen" "range_delta r = range_delta r0"
    "rhi r0 = unat cur" "rlo r0 \<le> rlo r"
    using skip range_covers_nonempty inv by (auto simp: append_inv_def)
  with True d have c0: "range_covers r0 d" by (auto simp: range_covers_def)
  have old: "describes new seen d" using inv d by (simp add: append_inv_def)
  with r0 c0 have "origin new d = Some (SourceByte 0 (range_src r + of_nat (d - rlo r)))"
    using same_read [OF True c0] by (simp add: describes_def)
  with old r0(1) c0 show ?thesis
    unfolding describes_def set_append list.set by blast
next
  case False
  with inv d show ?thesis by (auto simp: append_inv_def describes_def)
qed

lemma append_inv_skip:
  assumes inv: "append_inv tot seen (r # rest) cur active_delta new"
    and skip: "range_length r \<noteq> 0 \<Longrightarrow> rhi r \<le> unat cur \<and> active_delta = Some (range_delta r)"
  shows "append_inv tot (seen @ [r]) rest cur active_delta new"
proof -
  have "\<forall>d<unat cur. describes new (seen @ [r]) d"
    using append_inv_overlap [OF inv] skip by blast
  with inv skip show ?thesis
    by (auto simp: append_inv_def split: option.splits)
qed

lemma append_inv_push:
  assumes inv: "append_inv tot seen (r # rest) cur active_delta new"
    and r: "range_length r \<noteq> 0" "rhi r \<le> unat tot" "\<not> range_dst r < cur"
  shows "append_inv tot (seen @ [r]) rest (range_end r) (Some (range_delta r))
    (new @ push_range cur r)"
proof -
  have le: "cur \<le> range_dst r" using r by simp
  then have lo: "unat cur \<le> rlo r" by (simp add: rlo_def word_le_nat_alt)
  have e: "unat (range_end r) = rhi r" using r(2) by (rule unat_range_end)
  have t: "tiles 0 (unat cur) new" using inv by (simp add: append_inv_def)
  have ends: "rhi s \<le> unat cur" if "s \<in> set seen" "range_length s \<noteq> 0" for s
    using inv that by (simp add: append_inv_def)
  have "describes (new @ push_range cur r) (seen @ [r]) d" if d: "d < rhi r" for d
  proof (cases "d < unat cur")
    case True
    then have "\<not> range_covers r d" using lo by (simp add: range_covers_def)
    moreover have "describes new seen d" using inv True by (simp add: append_inv_def)
    ultimately show ?thesis
      using True by (auto simp: describes_def origin_append_tiles [OF t])
  next
    case False
    then have "\<not> range_covers s d" if "s \<in> set seen" for s
      using ends [OF that] range_covers_nonempty [of s d] by (auto simp: range_covers_def)
    with False d show ?thesis
      by (auto simp: describes_def origin_append_tiles [OF t] push_range_origin [OF le])
  qed
  moreover have "tiles 0 (rhi r) (new @ push_range cur r)"
    using t push_range_tiles [OF le r(1)] by (auto simp: tiles_append)
  moreover have "rhi s \<le> rhi r" if "s \<in> set seen" "range_length s \<noteq> 0" for s
    using ends [OF that] lo rlo_less_rhi [OF r(1)] by linarith
  moreover have "sorted (map rlo rest)" "\<forall>s\<in>set rest. rlo r \<le> rlo s"
    using inv by (auto simp: append_inv_def)
  moreover have "range_end r \<le> tot" using r(2) e by (simp add: word_le_nat_alt)
  ultimately show ?thesis
    unfolding append_inv_def e using r(1) by (auto simp: e)
qed

lemma trim_range_simps:
  assumes "range_dst r < cur" "\<not> range_end r \<le> cur" "rhi r \<le> unat (tot :: u64)"
  shows "range_end (trim_range cur r) = range_end r" "rlo (trim_range cur r) = unat cur"
    "rhi (trim_range cur r) = rhi r" "range_length (trim_range cur r) \<noteq> 0"
    "range_delta (trim_range cur r) = range_delta r"
    "range_covers (trim_range cur r) d \<longleftrightarrow> unat cur \<le> d \<and> d < rhi r"
proof -
  have e: "unat (range_end r) = rhi r" using assms(3) by (rule unat_range_end)
  show 1: "range_end (trim_range cur r) = range_end r"
    by (simp add: trim_range_def range_end_def)
  show 2: "rlo (trim_range cur r) = unat cur" by (simp add: rlo_def trim_range_def)
  have "unat (range_end r - cur) = rhi r - unat cur"
    using assms e by (simp add: unat_sub)
  moreover have "unat cur \<le> rhi r" using assms(2) e by (simp add: word_le_nat_alt)
  ultimately show 3: "rhi (trim_range cur r) = rhi r"
    unfolding rhi_def [of "trim_range cur r"] by (simp add: trim_range_def)
  show "range_length (trim_range cur r) \<noteq> 0"
    using assms(2) by (auto simp: trim_range_def)
  show "range_delta (trim_range cur r) = range_delta r"
    by (simp add: trim_range_def range_delta_def)
  show "range_covers (trim_range cur r) d \<longleftrightarrow> unat cur \<le> d \<and> d < rhi r"
    by (simp add: range_covers_def 2 3)
qed

lemma append_inv_trim:
  assumes inv: "append_inv tot seen (r # rest) cur active_delta new"
    and r: "range_length r \<noteq> 0" "rhi r \<le> unat tot" "range_dst r < cur" "\<not> range_end r \<le> cur"
    and delta: "active_delta = Some (range_delta r)"
  shows "append_inv tot (seen @ [r]) rest (range_end r) (Some (range_delta r))
    (new @ push_range cur (trim_range cur r))"
proof -
  note trim = trim_range_simps [OF r(3,4,2)]
  have p: "push_range cur (trim_range cur r) = [data_segment (trim_range cur r)]"
    by (simp add: push_range_def trim_range_def)
  have e: "unat (range_end r) = rhi r" using r(2) by (rule unat_range_end)
  then have hi: "unat cur < rhi r" using r(4) by (simp add: word_le_nat_alt)
  have t: "tiles 0 (unat cur) new" using inv by (simp add: append_inv_def)
  have ends: "rhi s \<le> unat cur" if "s \<in> set seen" "range_length s \<noteq> 0" for s
    using inv that by (simp add: append_inv_def)
  have "describes (new @ [data_segment (trim_range cur r)]) (seen @ [r]) d" if d: "d < rhi r" for d
  proof (cases "d < unat cur")
    case True
    with append_inv_overlap [OF inv delta] show ?thesis
      by (simp add: describes_def origin_append_tiles [OF t])
  next
    case False
    then have "\<not> range_covers s d" if "s \<in> set seen" for s
      using ends [OF that] range_covers_nonempty [of s d] by (auto simp: range_covers_def)
    moreover have c: "range_covers r d" "range_covers (trim_range cur r) d"
      using False d r(3) by (auto simp: trim range_covers_def [of r] rlo_def word_less_nat_alt)
    moreover have "range_src (trim_range cur r) + of_nat (d - unat cur) =
        range_src r + of_nat (d - rlo r)"
      using same_read [OF c] by (simp add: trim)
    ultimately show ?thesis
      using False by (simp add: describes_def origin_append_tiles [OF t] trim)
  qed
  moreover have "tiles 0 (rhi r) (new @ [data_segment (trim_range cur r)])"
    using t by (auto simp: tiles_append trim)
  moreover have "rhi s \<le> rhi r" if "s \<in> set seen" "range_length s \<noteq> 0" for s
    using ends [OF that] hi by linarith
  moreover have "sorted (map rlo rest)" "\<forall>s\<in>set rest. rlo r \<le> rlo s"
    using inv by (auto simp: append_inv_def)
  moreover have "range_end r \<le> tot" using r(2) e by (simp add: word_le_nat_alt)
  ultimately show ?thesis
    unfolding append_inv_def e p using r(1) by (auto simp: e)
qed

lemma append_inv_active:
  "append_inv tot seen (r # rest) cur active_delta new \<Longrightarrow> range_dst r < cur \<Longrightarrow>
     active_delta \<noteq> None"
  by (cases active_delta) (auto simp: append_inv_def)

lemma append_ranges_sound:
  assumes "append_ranges tot cur active_delta (pre @ new) rest = (out, Inr cur')"
    and "append_inv tot seen rest cur active_delta new"
  shows "\<exists>new' active_delta'. out = pre @ new' \<and> ranges_in_bounds tot rest \<and>
    append_inv tot (seen @ rest) [] cur' active_delta' new'"
  using assms
proof (induction rest arbitrary: seen cur active_delta new)
  case Nil
  then show ?case by (auto simp: ranges_in_bounds_def)
next
  case (Cons r rest)
  have step: ?case
    if "append_ranges tot c a (pre @ n) rest = (out, Inr cur')"
      "append_inv tot (seen @ [r]) rest c a n" "range_length r \<noteq> 0 \<Longrightarrow> rhi r \<le> unat tot" for c a n
    using Cons.IH [OF that(1,2)] that(3) by (auto simp: ranges_in_bounds_def)
  show ?case
  proof (cases "range_length r = 0")
    case True
    with Cons.prems show ?thesis by (intro step [OF _ append_inv_skip]) auto
  next
    case len: False
    then have hi: "rhi r \<le> unat tot"
      using Cons.prems(1) range_bounds_check [OF len, of tot] by (auto split: if_splits)
    then have ok: "\<not> (tot \<le> range_dst r \<or> tot - range_dst r < range_length r)"
      using range_bounds_check [OF len] by simp
    show ?thesis
    proof (cases "range_dst r < cur")
      case True
      with Cons.prems(1) len ok append_inv_active [OF Cons.prems(2) True]
      have a: "active_delta = Some (range_delta r)" by (auto split: if_splits)
      show ?thesis
      proof (cases "range_end r \<le> cur")
        case True
        then have "rhi r \<le> unat cur" using unat_range_end [OF hi] by (simp add: word_le_nat_alt)
        with Cons.prems len ok \<open>range_dst r < cur\<close> a True show ?thesis
          by (intro step [OF _ append_inv_skip]) (auto simp: hi)
      next
        case False
        note trim = trim_range_simps(1) [OF \<open>range_dst r < cur\<close> False hi]
        with Cons.prems(1) len ok \<open>range_dst r < cur\<close> a False
        have "append_ranges tot (range_end r) (Some (range_delta r))
          (pre @ new @ push_range cur (trim_range cur r)) rest = (out, Inr cur')" by simp
        from step [OF this append_inv_trim [OF Cons.prems(2) len hi \<open>range_dst r < cur\<close> False a]] hi
        show ?thesis by blast
      qed
    next
      case False
      with Cons.prems(1) len ok
      have "append_ranges tot (range_end r) (Some (range_delta r))
        (pre @ new @ push_range cur r) rest = (out, Inr cur')" by simp
      from step [OF this append_inv_push [OF Cons.prems(2) len hi False]] hi
      show ?thesis by blast
    qed
  qed
qed

lemma overlap_agrees:
  assumes "append_inv tot seen (r # rest) cur active_delta new" and "range_length r \<noteq> 0"
    and "range_dst r < cur" and "ranges_agree (seen @ r # rest)"
  shows "active_delta = Some (range_delta r)"
proof -
  obtain r0 where r0: "r0 \<in> set seen" "active_delta = Some (range_delta r0)"
    "rhi r0 = unat cur" "rlo r0 \<le> rlo r"
    using assms(1) append_inv_active [OF assms(1,3)] by (auto simp: append_inv_def)
  have "range_covers r (rlo r)" "range_covers r0 (rlo r)"
    using assms(2,3) r0 rlo_less_rhi [of r]
    by (auto simp: range_covers_def word_less_nat_alt rlo_def)
  then have "range_delta r0 = range_delta r"
    using assms(4) r0(1) unfolding ranges_agree_def by (metis Un_iff list.set_intros(1) set_append)
  with r0 show ?thesis by simp
qed

lemma append_ranges_complete:
  assumes "append_inv tot seen rest cur active_delta new"
    and "ranges_in_bounds tot rest" and "ranges_agree (seen @ rest)"
  shows "\<exists>out cur'. append_ranges tot cur active_delta segs rest = (out, Inr cur')"
  using assms
proof (induction rest arbitrary: seen cur active_delta new segs)
  case (Cons r rest)
  have step: "\<exists>out cur'. append_ranges tot c a ss rest = (out, Inr cur')"
    if "append_inv tot (seen @ [r]) rest c a n" for c a n ss
    using Cons.IH [OF that] Cons.prems(2,3) by (simp add: ranges_in_bounds_def)
  show ?case
  proof (cases "range_length r = 0")
    case True
    with step [OF append_inv_skip [OF Cons.prems(1)]] show ?thesis by simp
  next
    case len: False
    then have hi: "rhi r \<le> unat tot" using Cons.prems(2) by (simp add: ranges_in_bounds_def)
    then have ok: "\<not> (tot \<le> range_dst r \<or> tot - range_dst r < range_length r)"
      using range_bounds_check [OF len] by simp
    show ?thesis
    proof (cases "range_dst r < cur")
      case True
      have a: "active_delta = Some (range_delta r)"
        by (rule overlap_agrees [OF Cons.prems(1) len True Cons.prems(3)])
      show ?thesis
      proof (cases "range_end r \<le> cur")
        case inside: True
        then have "rhi r \<le> unat cur" using unat_range_end [OF hi] by (simp add: word_le_nat_alt)
        with step [OF append_inv_skip [OF Cons.prems(1)]] a True inside len ok show ?thesis by simp
      next
        case False
        from step [OF append_inv_trim [OF Cons.prems(1) len hi True False a]] a True False len ok
        show ?thesis by (simp add: trim_range_simps(1) [OF True False hi])
      qed
    next
      case False
      with step [OF append_inv_push [OF Cons.prems(1) len hi False]] len ok show ?thesis by simp
    qed
  qed
qed simp

lemma append_ranges_source_index:
  assumes "append_ranges tot cur active_delta segs rest = (out, res)"
    and "\<forall>s\<in>set segs. source_index s = 0"
  shows "\<forall>s\<in>set out. source_index s = 0"
  using assms
proof (induction rest arbitrary: cur active_delta segs)
  case (Cons r rest)
  have "\<forall>s\<in>set (segs @ push_range c q). source_index s = 0" for c q
    using Cons.prems(2) by (auto simp: push_range_def pad_segment_def data_segment_def)
  with Cons.IH Cons.prems show ?case by (simp split: if_splits)
qed auto

lemma append_inv_init: "sorted (map rlo rs) \<Longrightarrow> append_inv tot [] rs 0 None []"
  by (simp add: append_inv_def)

lemma describes_agree:
  assumes "\<And>d. d < unat tot \<Longrightarrow> describes segs rs d" and "ranges_in_bounds tot rs"
  shows "ranges_agree rs"
  unfolding ranges_agree_def
proof (intro ballI allI impI)
  fix r s d
  assume rs: "r \<in> set rs" "s \<in> set rs" and d: "range_covers r d \<and> range_covers s d"
  then have "d < unat tot"
    using assms(2) range_covers_nonempty [of r d]
    by (fastforce simp: ranges_in_bounds_def range_covers_def)
  from assms(1) [OF this] rs d
  have "origin segs d = Some (SourceByte 0 (range_src r + of_nat (d - rlo r)))"
    "origin segs d = Some (SourceByte 0 (range_src s + of_nat (d - rlo s)))"
    unfolding describes_def by blast+
  then have "range_src r + of_nat (d - rlo r) = range_src s + of_nat (d - rlo s)" by simp
  with d same_read [of r d s] show "range_delta r = range_delta s" by simp
qed

lemma describes_origin:
  "origin xs d = origin ys d \<Longrightarrow> describes xs rs d \<longleftrightarrow> describes ys rs d"
  by (simp add: describes_def)

section \<open>Index maps\<close>

lemma sorted_range_key: "sorted (map range_key rs) \<Longrightarrow> sorted (map rlo rs)"
proof (induction rs)
  case (Cons r rs)
  then show ?case
    by (auto simp: range_key_def rlo_def less_eq_prod_def word_le_nat_alt word_less_nat_alt
        dest!: bspec)
qed simp

lemma exact_cover_valid:
  assumes "tot \<noteq> 0" "tiles 0 (unat tot) ss" "\<forall>s\<in>set ss. source_index s = 0"
  shows "valid_map \<lparr>total_bytes = tot, num_sources = 1, segments = ss\<rparr>"
  using assms tiles_exact_cover [OF assms(2)] by (auto simp: valid_map_def source_ok_def)

lemma final_pad:
  assumes "append_inv tot rs [] cur active_delta new"
  defines "segs \<equiv> new @ closing_pad tot cur"
  shows "tiles 0 (unat tot) segs" "d < unat tot \<Longrightarrow> describes segs rs d"
proof -
  have t: "tiles 0 (unat cur) new" and le: "cur \<le> tot" using assms(1) by (auto simp: append_inv_def)
  show "tiles 0 (unat tot) segs"
  proof (cases "cur < tot")
    case True
    then have "tot - cur \<noteq> 0" by auto
    with True t le show ?thesis
      by (auto simp: segs_def closing_pad_def tiles_append unat_sub word_le_nat_alt)
  next
    case False
    with le have "cur = tot" by simp
    with t show ?thesis by (simp add: segs_def closing_pad_def)
  qed
  assume d: "d < unat tot"
  show "describes segs rs d"
  proof (cases "d < unat cur")
    case True
    then have "describes new rs d" using assms(1) by (simp add: append_inv_def)
    moreover have "origin segs d = origin new d"
      using True by (simp add: segs_def origin_append_tiles [OF t])
    ultimately show ?thesis using describes_origin by blast
  next
    case False
    have "\<not> range_covers r d" if "r \<in> set rs" for r
      using False assms(1) that range_covers_nonempty [of r d]
      by (auto simp: append_inv_def range_covers_def)
    moreover from False d have "cur < tot" by (simp add: word_less_nat_alt)
    then have "origin segs d = Some PadByte"
      using False d le
      by (simp add: segs_def closing_pad_def origin_append_tiles [OF t] covers_def unat_sub
          word_le_nat_alt)
    ultimately show ?thesis by (simp add: describes_def)
  qed
qed

lemma build_from_ranges_run:
  assumes "append_ranges tot 0 None [] (srt rs) = (segs, Inr cur)"
  shows "build_from_ranges srt tot rs = normalize_byte_range_map
    \<lparr>total_bytes = tot, num_sources = 1, segments = segs @ closing_pad tot cur\<rparr>"
  using assms by (simp add: build_from_ranges_def append_normalized_ranges_def)

locale range_sort = std_sort range_key srt
  for srt :: "Range list \<Rightarrow> Range list"
begin

lemma sorted_rlo: "sorted (map rlo (srt rs))"
  by (rule sorted_range_key) (rule srt_sorted)

lemma same_ranges [simp]:
  "ranges_in_bounds tot (srt rs) \<longleftrightarrow> ranges_in_bounds tot rs"
  "ranges_agree (srt rs) \<longleftrightarrow> ranges_agree rs"
  "describes segs (srt rs) d \<longleftrightarrow> describes segs rs d"
  by (simp_all add: ranges_in_bounds_def ranges_agree_def describes_def srt_set)

lemma build_result:
  assumes "build_from_ranges srt tot rs = Inr m" and "tot \<noteq> 0"
  shows "canonical_map m \<and> total_bytes m = tot \<and> num_sources m = 1 \<and>
    ranges_in_bounds tot rs \<and> ranges_agree rs \<and> (\<forall>d<unat tot. describes (segments m) rs d)"
proof -
  obtain segs cur where run: "append_ranges tot 0 None [] (srt rs) = (segs, Inr cur)"
    using assms(1) by (auto simp: build_from_ranges_def append_normalized_ranges_def
        split: prod.splits sum.splits)
  define out where "out = segs @ closing_pad tot cur"
  obtain a where inv: "append_inv tot (srt rs) [] cur a segs" and b: "ranges_in_bounds tot rs"
    using append_ranges_sound [of tot 0 None "[]" "[]" "srt rs" segs cur "[]"] run
      append_inv_init [OF sorted_rlo] by auto
  have desc: "describes out rs d" if "d < unat tot" for d
    using final_pad(2) [OF inv that] by (simp add: out_def)
  have n: "normalize_byte_range_map \<lparr>total_bytes = tot, num_sources = 1, segments = out\<rparr> = Inr m"
    using assms(1) build_from_ranges_run [where srt = srt, OF run] by (simp add: out_def)
  note norm = normalize_meaning [OF n]
  have "describes (segments m) rs d" if "d < unat tot" for d
    using desc [OF that] describes_origin [of "segments m" d out rs] norm(4) [of d] by simp
  then show ?thesis
    using norm b describes_agree [OF desc b] by simp
qed

lemma build_accepts:
  assumes "tot \<noteq> 0" "ranges_in_bounds tot rs" "ranges_agree rs"
  shows "\<exists>m. build_from_ranges srt tot rs = Inr m"
proof -
  have init: "append_inv tot [] (srt rs) 0 None []" by (rule append_inv_init [OF sorted_rlo])
  obtain segs cur where run: "append_ranges tot 0 None [] (srt rs) = (segs, Inr cur)"
    using append_ranges_complete [OF init, of "[]"] assms by auto
  obtain a where inv: "append_inv tot (srt rs) [] cur a segs"
    using append_ranges_sound [of tot 0 None "[]" "[]" "srt rs" segs cur "[]"] run init by auto
  define out where "out = segs @ closing_pad tot cur"
  have "\<forall>s\<in>set out. source_index s = 0"
    using append_ranges_source_index [OF run]
    by (auto simp: out_def closing_pad_def pad_segment_def)
  then have "valid_map \<lparr>total_bytes = tot, num_sources = 1, segments = out\<rparr>"
    using assms(1) final_pad(1) [OF inv] by (intro exact_cover_valid) (simp_all add: out_def)
  then have "is_ok (normalize_byte_range_map \<lparr>total_bytes = tot, num_sources = 1, segments = out\<rparr>)"
    by (simp add: normalize_valid_iff)
  with build_from_ranges_run [where srt = srt, OF run] show ?thesis by (simp add: out_def is_ok_iff)
qed

end

interpretation key_sort: range_sort "sort_key range_key"
  by unfold_locales simp_all

text \<open>Bytes of an entry, and the entry lists the parser builds.\<close>

definition entry_range :: "IndexEntry \<Rightarrow> IndexEntry \<Rightarrow> Range" where
  "entry_range c s =
     \<lparr>range_dst = entry_offset c, range_length = entry_size c, range_src = entry_offset s\<rparr>"

definition in_entry :: "IndexEntry \<Rightarrow> nat \<Rightarrow> bool" where
  "in_entry c d \<longleftrightarrow>
     unat (entry_offset c) \<le> d \<and> d < unat (entry_offset c) + unat (entry_size c)"

lemma entry_range_covers [simp]: "range_covers (entry_range c s) d = in_entry c d"
  by (simp add: entry_range_def range_covers_def rlo_def rhi_def in_entry_def)

lemma entry_range_rlo [simp]: "rlo (entry_range c s) = unat (entry_offset c)"
  "range_src (entry_range c s) = entry_offset s"
  by (simp_all add: entry_range_def rlo_def)

lemma emplace_distinct: "distinct (map fst es) \<Longrightarrow> distinct (map fst (emplace es k v))"
  by (auto simp: emplace_def map_of_eq_None_iff)

lemma collect_entries_distinct:
  "collect_entries J es items = Inr out \<Longrightarrow> distinct (map fst es) \<Longrightarrow> distinct (map fst out)"
proof (induction items arbitrary: es)
  case (Cons item items)
  then show ?case by (auto split: if_splits sum.splits intro: emplace_distinct)
qed auto

lemma parse_index_entries_distinct:
  "parse_index_entries J text = Inr out \<Longrightarrow> distinct (map fst out)"
  by (auto simp: parse_index_entries_def split: if_splits option.splits
      intro: collect_entries_distinct)

lemma check_same_tensors_ok:
  "check_same_tensors source cs = Inr u \<Longrightarrow> (n, c) \<in> set cs \<Longrightarrow>
     \<exists>s. map_of source n = Some s \<and> entry_size s = entry_size c"
proof (induction cs)
  case (Cons ne cs)
  then show ?case by (auto split: option.splits if_splits)
qed simp

lemma relocated_ranges_set:
  "relocated_ranges tot source cs = Inr rs \<Longrightarrow>
     set rs = {entry_range c s |n c s. (n, c) \<in> set cs \<and> map_of source n = Some s}"
proof (induction cs arbitrary: rs)
  case (Cons ne cs)
  then obtain s rs' where s: "map_of source (fst ne) = Some s"
    and rs: "rs = entry_range (snd ne) s # rs'" "relocated_ranges tot source cs = Inr rs'"
    by (cases "relocated_ranges tot source cs")
      (auto simp: entry_range_def split: option.splits if_splits)
  from Cons.IH [OF rs(2)] s rs(1) show ?case by (cases ne) auto
qed simp

lemma relocated_ranges_identity:
  "canonical_ranges J items = Inr rs \<Longrightarrow> r \<in> set rs \<Longrightarrow> range_src r = range_dst r"
proof (induction items arbitrary: rs)
  case (Cons item items)
  then show ?case by (cases "canonical_ranges J items") (auto split: if_splits sum.splits)
qed simp

lemma identity_ranges_agree:
  "\<forall>r\<in>set rs. range_src r = range_dst r \<Longrightarrow> ranges_agree rs"
  by (simp add: ranges_agree_def range_delta_def)

lemma same_keys_dom:
  assumes "distinct (map fst xs)" "distinct (map fst ys)" "length xs = length ys"
    and "dom (map_of xs) \<subseteq> dom (map_of ys)"
  shows "dom (map_of xs) = dom (map_of ys)"
proof (rule card_subset_eq)
  have "card (dom (map_of zs)) = length zs" if "distinct (map fst zs)" for zs :: "('a \<times> 'b) list"
    using that by (metis dom_map_of_conv_image_fst distinct_card length_map list.set_map)
  moreover have "card (dom (map_of zs)) = length zs" if "distinct (map fst zs)"
    for zs :: "('a \<times> 'c) list"
    using that by (metis dom_map_of_conv_image_fst distinct_card length_map list.set_map)
  ultimately show "card (dom (map_of xs)) = card (dom (map_of ys))" using assms by metis
qed (use assms in \<open>auto simp: finite_dom_map_of\<close>)

context range_sort
begin

lemma relocated_build:
  assumes order: "\<And>xs. mset (order xs) = mset xs"
    and b: "build_byte_range_map_from_canonical_and_source_index_json
        srt order J cj sj total_size = Inr m"
  shows "\<exists>canonical source rs. parse_index_entries J cj = Inr canonical \<and>
    parse_index_entries J sj = Inr source \<and> total_size \<noteq> 0 \<and>
    length canonical = length source \<and>
    (\<forall>n c. (n, c) \<in> set canonical \<longrightarrow> (\<exists>s. map_of source n = Some s \<and> entry_size s = entry_size c)) \<and>
    set rs = {entry_range c s |n c s. (n, c) \<in> set canonical \<and> map_of source n = Some s} \<and>
    build_from_ranges srt total_size rs = Inr m"
proof -
  have set_order: "set (order xs) = set xs" for xs using order by (metis set_mset_mset)
  from b obtain canonical source rs u where
    "parse_index_entries J cj = Inr canonical" "parse_index_entries J sj = Inr source"
    "total_size \<noteq> 0" "length canonical = length source"
    "build_from_ranges srt total_size rs = Inr m"
    and c: "check_same_tensors source (order canonical) = Inr u"
    and r: "relocated_ranges (compute_total_size_from_entries (order source)) source
      (order canonical) = Inr rs"
    unfolding build_byte_range_map_from_canonical_and_source_index_json_def
    by (auto split: if_splits sum.splits)
  moreover note check_same_tensors_ok [OF c, unfolded set_order]
    relocated_ranges_set [OF r, unfolded set_order]
  ultimately show ?thesis by blast
qed

end

section \<open>Meaning of a composition\<close>

lemma upper_bound_covers:
  assumes "tiles a b ss" "a \<le> unat c" "unat c < b"
  shows "upper_bound (map dst_offset ss) c \<noteq> 0 \<and>
    upper_bound (map dst_offset ss) c \<le> length ss \<and>
    covers (ss ! (upper_bound (map dst_offset ss) c - 1)) (unat c)"
  using assms
proof (induction ss arbitrary: a)
  case (Cons s ss)
  have head: "dst_offset s \<le> c"
    using Cons.prems by (simp add: seg_lo_def word_le_nat_alt)
  show ?case
  proof (cases "seg_hi s \<le> unat c")
    case True
    with Cons.IH [of "seg_hi s"] Cons.prems head show ?thesis
      by (auto simp: upper_bound_def)
  next
    case False
    have "takeWhile (\<lambda>x. x \<le> c) (map dst_offset ss) = []"
      using False Cons.prems by (cases ss) (auto simp: seg_lo_def word_le_nat_alt)
    with False Cons.prems head show ?thesis
      by (simp add: upper_bound_def covers_def)
  qed
qed simp

lemma find_inner_index_ok:
  assumes t: "tiles 0 (unat (total_bytes inner)) (segments inner)"
    and c: "c < total_bytes inner"
  shows "\<exists>idx. find_inner_index inner c = Inr idx \<and> idx < length (segments inner) \<and>
    covers (segments inner ! idx) (unat c)"
proof -
  define k where "k = upper_bound (map dst_offset (segments inner)) c"
  have k: "k \<noteq> 0" "k \<le> length (segments inner)" "covers (segments inner ! (k - 1)) (unat c)"
    using upper_bound_covers [OF t, of c] c by (simp_all add: k_def word_less_nat_alt)
  let ?s = "segments inner ! (k - 1)"
  have "bounded (total_bytes inner) ?s"
    using t k by (intro tiles_bounded [OF t]) simp
  then have "\<not> c < dst_offset ?s" "\<not> seg_end ?s \<le> c"
    using k(3) bounded_seg_end [of "total_bytes inner" ?s]
    by (auto simp: covers_def seg_lo_def word_less_nat_alt word_le_nat_alt)
  with k c show ?thesis
    by (auto simp: find_inner_index_def k_def [symmetric] Let_def)
qed

lemma find_inner_index_beyond:
  "total_bytes inner \<le> c \<Longrightarrow> \<exists>e. find_inner_index inner c = Inl e"
  by (simp add: find_inner_index_def)

lemma compose_take_unat:
  assumes "covers s (unat c)"
  shows "unat (compose_take s remaining c) = min (unat remaining) (seg_hi s - unat c)"
proof -
  from assms have le: "dst_offset s \<le> c" "unat c - unat (dst_offset s) < unat (seg_length s)"
    by (auto simp: covers_def seg_lo_def seg_hi_def word_le_nat_alt)
  then have "c - dst_offset s \<le> seg_length s"
    by (simp add: word_le_nat_alt unat_sub)
  then have "unat (seg_length s - (c - dst_offset s)) = seg_hi s - unat c"
    using le by (simp add: unat_sub seg_hi_def word_le_nat_alt)
  then show ?thesis
    by (simp add: compose_take_def min_def word_le_nat_alt)
qed

lemma compose_piece_simps [simp]:
  "seg_lo (compose_piece s l dst c) = unat dst"
  "seg_hi (compose_piece s l dst c) = unat dst + unat l"
  "seg_length (compose_piece s l dst c) = l"
  "covers (compose_piece s l dst c) d \<longleftrightarrow> unat dst \<le> d \<and> d < unat dst + unat l"
  by (simp_all add: compose_piece_def pad_segment_def seg_lo_def seg_hi_def covers_def
      split: seg_kind.split)

lemma compose_piece_origin:
  assumes "covers s (unat c)"
  shows "seg_origin (compose_piece s l dst c) (unat dst + i) = seg_origin s (unat c + i)"
proof (cases "kind s")
  case kData
  have "(of_nat (unat c + i - unat (dst_offset s)) :: u64) = c - dst_offset s + of_nat i"
    using assms by (simp add: covers_def seg_lo_def of_nat_diff)
  with kData show ?thesis
    by (simp add: compose_piece_def seg_origin_def seg_lo_def)
qed (simp add: compose_piece_def seg_origin_def pad_segment_def)

lemma compose_piece_source:
  "clean_seg n s \<Longrightarrow> source_ok n (compose_piece s l dst c)"
  by (simp add: clean_seg_def source_ok_def compose_piece_def pad_segment_def
      split: seg_kind.splits)

lemma compose_step:
  assumes "covers s (unat c)" "seg_hi s \<le> unat (ctot :: u64)" "remaining \<noteq> 0"
    and "unat dst + unat remaining \<le> unat (tot :: u64)"
  defines "l \<equiv> compose_take s remaining c"
  shows "unat l = min (unat remaining) (seg_hi s - unat c)" "unat l \<noteq> 0"
    "unat (remaining - l) = unat remaining - unat l" "unat (dst + l) = unat dst + unat l"
    "unat (c + l) = unat c + unat l"
proof -
  show l: "unat l = min (unat remaining) (seg_hi s - unat c)"
    using compose_take_unat [OF assms(1)] by (simp add: l_def)
  show "unat l \<noteq> 0" using l assms(1,3) by (simp add: covers_def unat_gt_0 [symmetric])
  show "unat (remaining - l) = unat remaining - unat l"
    using l by (intro unat_u64_sub) (simp add: word_le_nat_alt)
  show "unat (dst + l) = unat dst + unat l"
    using assms(4) l by (intro unat_u64_add_le [of _ _ tot]) simp
  show "unat (c + l) = unat c + unat l"
    using assms(1,2) l by (intro unat_u64_add_le [of _ _ ctot]) (auto simp: covers_def)
qed

lemma compose_piece_meaning:
  assumes "tiles 0 n ss" "s \<in> set ss" "covers s (unat c)"
    and "unat l \<le> seg_hi s - unat c" "i < unat l"
  shows "origin (compose_piece s l dst c # rest) (unat dst + i) = origin ss (unat c + i)"
proof -
  have "covers s (unat c + i)" using assms(3-5) by (auto simp: covers_def)
  from tiles_origin_at [OF assms(1,2) this] assms(5) show ?thesis
    by (simp add: compose_piece_origin [OF assms(3)])
qed

lemma compose_loop_sound:
  assumes "compose_loop inner remaining dst c = Inr pieces"
    and "tiles 0 (unat (total_bytes inner)) (segments inner)"
    and "\<forall>s\<in>set (segments inner). clean_seg n s"
    and "unat dst + unat remaining \<le> unat (tot :: u64)"
  shows "tiles (unat dst) (unat dst + unat remaining) pieces \<and>
    (\<forall>s\<in>set pieces. source_ok n s) \<and>
    (remaining \<noteq> 0 \<longrightarrow> unat c + unat remaining \<le> unat (total_bytes inner)) \<and>
    (\<forall>i<unat remaining. origin pieces (unat dst + i) = origin (segments inner) (unat c + i))"
  using assms
proof (induction inner remaining dst c arbitrary: pieces rule: compose_loop.induct)
  case (1 inner remaining dst c)
  show ?case
  proof (cases "remaining = 0")
    case True
    with 1 show ?thesis by (simp add: compose_loop.simps)
  next
    case False
    with 1(2) have in_range: "c < total_bytes inner"
      using find_inner_index_beyond [of inner c] by (force simp: compose_loop.simps [of inner])
    then obtain idx where idx: "find_inner_index inner c = Inr idx" "idx < length (segments inner)"
      and cov: "covers (segments inner ! idx) (unat c)"
      using find_inner_index_ok [OF 1(3)] by blast
    define s where "s = segments inner ! idx"
    define l where "l = compose_take s remaining c"
    from 1(2) False idx obtain rest where
      rest: "compose_loop inner (remaining - l) (dst + l) (c + l) = Inr rest"
      and pieces: "pieces = compose_piece s l dst c # rest"
      by (cases "compose_loop inner (remaining - l) (dst + l) (c + l)")
        (auto simp: compose_loop.simps [of inner remaining] s_def l_def)
    have s: "s \<in> set (segments inner)" "covers s (unat c)" using idx cov by (simp_all add: s_def)
    have hi: "seg_hi s \<le> unat (total_bytes inner)" using tiles_bounds [OF 1(3)] s(1) by blast
    note step = compose_step [OF s(2) hi False 1(5), folded l_def]
    have IH: "tiles (unat dst + unat l) (unat dst + unat remaining) rest \<and>
      (\<forall>s\<in>set rest. source_ok n s) \<and>
      (remaining - l \<noteq> 0 \<longrightarrow> unat c + unat remaining \<le> unat (total_bytes inner)) \<and>
      (\<forall>i<unat remaining - unat l.
         origin rest (unat dst + unat l + i) = origin (segments inner) (unat c + unat l + i))"
      using 1(1) [OF False idx(1), folded s_def, folded l_def, OF rest 1(3,4)] 1(5) step(1)
      by (simp add: step(3-5))
    have "origin pieces (unat dst + i) = origin (segments inner) (unat c + i)"
      if "i < unat remaining" for i
    proof (cases "i < unat l")
      case False
      then have "i - unat l < unat remaining - unat l" using that by linarith
      with IH have "origin rest (unat dst + unat l + (i - unat l)) =
          origin (segments inner) (unat c + unat l + (i - unat l))" by blast
      with False show ?thesis by (simp add: pieces)
    qed (use step(1) compose_piece_meaning [OF 1(3) s] in \<open>simp add: pieces\<close>)
    moreover have "unat c + unat remaining \<le> unat (total_bytes inner)"
    proof (cases "remaining - l = 0")
      case True
      with step(1,3) hi s(2) show ?thesis by (auto simp: covers_def)
    qed (use IH in blast)
    moreover have "source_ok n (compose_piece s l dst c)"
      using 1(4) s(1) by (simp add: compose_piece_source)
    ultimately show ?thesis
      using IH step(2) by (auto simp: pieces)
  qed
qed

lemma compose_loop_complete:
  assumes "tiles 0 (unat (total_bytes inner)) (segments inner)"
    and "unat c + unat remaining \<le> unat (total_bytes inner)"
  shows "\<exists>pieces. compose_loop inner remaining dst c = Inr pieces"
  using assms
proof (induction inner remaining dst c rule: compose_loop.induct)
  case (1 inner remaining dst c)
  show ?case
  proof (cases "remaining = 0")
    case False
    then have "c < total_bytes inner"
      using 1(3) by (simp add: word_less_nat_alt unat_gt_0 [symmetric])
    then obtain idx where idx: "find_inner_index inner c = Inr idx"
      and cov: "covers (segments inner ! idx) (unat c)"
      using find_inner_index_ok [OF 1(2)] by blast
    define l where "l = compose_take (segments inner ! idx) remaining c"
    have l: "unat l \<le> unat remaining"
      using compose_take_unat [OF cov] by (simp add: l_def)
    then have "unat (remaining - l) = unat remaining - unat l"
      by (intro unat_u64_sub) (simp add: word_le_nat_alt)
    moreover have "unat (c + l) = unat c + unat l"
      using 1(3) l by (intro unat_u64_add_le [of _ _ "total_bytes inner"]) simp
    ultimately have "\<exists>pieces. compose_loop inner (remaining - l) (dst + l) (c + l) = Inr pieces"
      using 1(1) [OF False idx, folded l_def, OF 1(2)] 1(3) l by simp
    with idx False show ?thesis
      by (auto simp: compose_loop.simps [of inner remaining] l_def)
  qed (simp add: compose_loop.simps)
qed

text \<open>The origin of a byte of the composed map: through the outer map, then the inner one.\<close>

definition through :: "ByteRangeSegment list \<Rightarrow> byte_origin option \<Rightarrow> byte_origin option" where
  "through inner_segs z =
     (case z of
        Some (SourceByte _ c) \<Rightarrow> origin inner_segs (unat c)
      | other \<Rightarrow> other)"

text \<open>Every canonical byte that the outer map reads lies in the inner map.\<close>

definition reads_within :: "ByteRangeMap \<Rightarrow> u64 \<Rightarrow> bool" where
  "reads_within outer n \<longleftrightarrow>
     (\<forall>d<unat (total_bytes outer). \<forall>i c. origin (segments outer) d = Some (SourceByte i c) \<longrightarrow> c < n)"

lemma compose_segments_sound:
  assumes "compose_segments inner ss = Inr out"
    and t: "tiles 0 (unat (total_bytes inner)) (segments inner)"
    and cl: "\<forall>s\<in>set (segments inner). clean_seg n s"
    and "tiles a (unat (tot :: u64)) ss"
  shows "tiles a (unat tot) out \<and> (\<forall>s\<in>set out. source_ok n s) \<and>
    (\<forall>s\<in>set ss. kind s = kData \<longrightarrow>
       unat (src_offset s) + unat (seg_length s) \<le> unat (total_bytes inner)) \<and>
    (\<forall>d. a \<le> d \<and> d < unat tot \<longrightarrow> origin out d = through (segments inner) (origin ss d))"
  using assms(1,4)
proof (induction ss arbitrary: a out)
  case (Cons s ss)
  have len: "seg_length s \<noteq> 0" and lo: "seg_lo s = a" and ts: "tiles (seg_hi s) (unat tot) ss"
    using Cons.prems(2) by simp_all
  have hi: "seg_hi s \<le> unat tot" using tiles_bounds [OF ts] by blast
  define pc where "pc = (if kind s = kPad then Inr [pad_segment (dst_offset s) (seg_length s)]
    else compose_loop inner (seg_length s) (dst_offset s) (src_offset s))"
  obtain p rest where p: "pc = Inr p" and rest: "compose_segments inner ss = Inr rest"
    and out: "out = p @ rest"
    using Cons.prems(1) len
    by (cases "compose_segments inner ss") (auto simp: pc_def split: if_splits sum.splits)
  have piece: "tiles a (seg_hi s) p \<and> (\<forall>s\<in>set p. source_ok n s) \<and>
    (kind s = kData \<longrightarrow> unat (src_offset s) + unat (seg_length s) \<le> unat (total_bytes inner)) \<and>
    (\<forall>d. a \<le> d \<and> d < seg_hi s \<longrightarrow> origin p d = through (segments inner) (Some (seg_origin s d)))"
  proof (cases "kind s")
    case kPad
    with p lo len show ?thesis
      by (auto simp: pc_def seg_lo_def seg_hi_def source_ok_def covers_def pad_segment_def
          through_def seg_origin_def)
  next
    case kData
    with p have run: "compose_loop inner (seg_length s) (dst_offset s) (src_offset s) = Inr p"
      by (simp add: pc_def)
    note loop = compose_loop_sound [OF run t cl, of tot]
    have hi': "unat (dst_offset s) + unat (seg_length s) \<le> unat tot" using hi by (simp add: seg_hi_def)
    have lim: "unat (src_offset s) + unat (seg_length s) \<le> unat (total_bytes inner)"
      using loop hi' len by blast
    have "origin p d = through (segments inner) (Some (seg_origin s d))"
      if d: "a \<le> d" "d < seg_hi s" for d
    proof -
      define i where "i = d - a"
      have i: "i < unat (seg_length s)" "d = unat (dst_offset s) + i"
        using d lo by (auto simp: i_def seg_hi_def seg_lo_def)
      have "unat (of_nat i :: u64) = i"
        using i(1) unat_u64_bound [of "seg_length s"] by (intro unat_of_nat_u64) simp
      then have "unat (src_offset s + of_nat i) = unat (src_offset s) + i"
        using i(1) lim by (subst unat_u64_add_le [of _ _ "total_bytes inner"]) auto
      then have "through (segments inner) (Some (seg_origin s d)) =
          origin (segments inner) (unat (src_offset s) + i)"
        using kData i(2) by (simp add: through_def seg_origin_def seg_lo_def)
      moreover have "origin p d = origin (segments inner) (unat (src_offset s) + i)"
        using loop hi' i by blast
      ultimately show ?thesis by simp
    qed
    with loop hi' lim lo show ?thesis by (auto simp: seg_lo_def seg_hi_def)
  qed
  note IH = Cons.IH [OF rest ts]
  have "origin out d = through (segments inner) (origin (s # ss) d)"
    if d: "a \<le> d" "d < unat tot" for d
  proof (cases "d < seg_hi s")
    case True
    then have "covers s d" using d lo by (simp add: covers_def)
    with True d piece show ?thesis by (simp add: out origin_append_tiles [of a "seg_hi s"])
  next
    case False
    then have "\<not> covers s d" by (simp add: covers_def)
    with False d piece IH show ?thesis by (simp add: out origin_append_tiles [of a "seg_hi s"])
  qed
  with piece IH show ?case by (auto simp: out tiles_append)
qed (simp add: through_def)

lemma compose_segments_complete:
  assumes t: "tiles 0 (unat (total_bytes inner)) (segments inner)"
    and "\<forall>s\<in>set ss. kind s = kData \<and> seg_length s \<noteq> 0 \<longrightarrow>
      unat (src_offset s) + unat (seg_length s) \<le> unat (total_bytes inner)"
  shows "\<exists>out. compose_segments inner ss = Inr out"
  using assms(2)
proof (induction ss)
  case (Cons s ss)
  then obtain out where out: "compose_segments inner ss = Inr out" by auto
  show ?case
  proof (cases "seg_length s = 0 \<or> kind s = kPad")
    case False
    then have "kind s = kData" by (cases "kind s") auto
    with False Cons.prems
    have lim: "unat (src_offset s) + unat (seg_length s) \<le> unat (total_bytes inner)" by simp
    then have "unat (src_offset s + seg_length s) = unat (src_offset s) + unat (seg_length s)"
      by (rule unat_u64_add_le)
    with lim have "\<not> total_bytes inner < src_offset s + seg_length s"
      by (simp add: word_less_nat_alt)
    moreover obtain pieces where
      "compose_loop inner (seg_length s) (dst_offset s) (src_offset s) = Inr pieces"
      using compose_loop_complete [OF t lim] by blast
    ultimately show ?thesis using out False by simp
  qed (use out in auto)
qed simp

lemma reads_within_segments:
  assumes "tiles 0 (unat (total_bytes outer)) (segments outer)"
    and "reads_within outer n" and s: "s \<in> set (segments outer)" and data: "kind s = kData"
  shows "unat (src_offset s) + unat (seg_length s) \<le> unat n"
proof (rule ccontr)
  assume over: "\<not> ?thesis"
  have read: "src_offset s + of_nat i < n" if "i < unat (seg_length s)" for i
  proof -
    have c: "covers s (seg_lo s + i)" using that by (simp add: covers_def seg_lo_def seg_hi_def)
    then have "seg_lo s + i < unat (total_bytes outer)"
      using tiles_bounds [OF assms(1)] s by (fastforce simp: covers_def)
    moreover have "origin (segments outer) (seg_lo s + i) =
        Some (SourceByte (source_index s) (src_offset s + of_nat i))"
      using tiles_origin_at [OF assms(1) s c] data by (simp add: seg_origin_def)
    ultimately show ?thesis using assms(2) unfolding reads_within_def by blast
  qed
  have "seg_length s \<noteq> 0"
    using tiles_bounded [OF assms(1) s] by (simp add: bounded_def)
  then have "src_offset s < n" using read [of 0] by (simp add: unat_gt_0)
  then have "unat (src_offset s) < unat n" by (simp add: word_less_nat_alt)
  with over have "src_offset s + of_nat (unat n - unat (src_offset s)) < n" by (intro read) linarith
  with \<open>src_offset s < n\<close> show False by (simp add: of_nat_diff word_less_nat_alt)
qed

lemma segments_reads_within:
  assumes "tiles 0 (unat (total_bytes outer)) (segments outer)"
    and lim: "\<forall>s\<in>set (segments outer). kind s = kData \<longrightarrow>
      unat (src_offset s) + unat (seg_length s) \<le> unat n"
  shows "reads_within outer n"
  unfolding reads_within_def
proof (intro allI impI)
  fix d i c
  assume "origin (segments outer) d = Some (SourceByte i c)"
  then obtain s where s: "s \<in> set (segments outer)" "covers s d" "seg_origin s d = SourceByte i c"
    using origin_SomeD by blast
  then have data: "kind s = kData" and c: "c = src_offset s + of_nat (d - seg_lo s)"
    by (auto simp: seg_origin_def split: seg_kind.splits)
  have k: "d - seg_lo s < unat (seg_length s)"
    using s(2) by (auto simp: covers_def seg_lo_def seg_hi_def)
  then have "unat (of_nat (d - seg_lo s) :: u64) = d - seg_lo s"
    using unat_u64_bound [of "seg_length s"] by (intro unat_of_nat_u64) simp
  then have "unat c = unat (src_offset s) + (d - seg_lo s)"
    unfolding c using k lim data s(1) by (subst unat_u64_add_le [of _ _ n]) auto
  moreover have "unat (src_offset s) + unat (seg_length s) \<le> unat n" using lim data s(1) by blast
  ultimately show "c < n" using k by (simp add: word_less_nat_alt)
qed

lemma reads_within_same_meaning:
  assumes "total_bytes m = total_bytes m'" "\<And>d. origin (segments m) d = origin (segments m') d"
  shows "reads_within m n \<longleftrightarrow> reads_within m' n"
  using assms by (simp add: reads_within_def)

lemma canonical_tiles:
  "canonical_map m \<Longrightarrow> total_bytes m \<noteq> 0 \<Longrightarrow>
     tiles 0 (unat (total_bytes m)) (segments m) \<and> num_sources m \<noteq> 0 \<and>
     (\<forall>s\<in>set (segments m). clean_seg (num_sources m) s)"
  by (simp add: canonical_map_def)

lemma compose_run:
  assumes "normalize_byte_range_map outer = Inr om" "normalize_byte_range_map inner = Inr im"
    and nz: "total_bytes outer \<noteq> 0" "total_bytes inner \<noteq> 0"
  shows "if reads_within outer (total_bytes inner)
    then \<exists>m. compose_byte_range_maps outer inner = Inr m \<and> canonical_map m \<and>
      total_bytes m = total_bytes outer \<and> num_sources m = num_sources inner \<and>
      (\<forall>d<unat (total_bytes outer).
         origin (segments m) d = through (segments inner) (origin (segments outer) d))
    else \<exists>e. compose_byte_range_maps outer inner = Inl e"
proof -
  note o = normalize_meaning [OF assms(1)] and i = normalize_meaning [OF assms(2)]
  have ot: "tiles 0 (unat (total_bytes om)) (segments om)"
    using canonical_tiles [OF o(1)] o(2) nz by simp
  have it: "tiles 0 (unat (total_bytes im)) (segments im)" "num_sources im \<noteq> 0"
    "\<forall>s\<in>set (segments im). clean_seg (num_sources im) s"
    using canonical_tiles [OF i(1)] i(2) nz by simp_all
  have rw: "reads_within outer (total_bytes inner) \<longleftrightarrow> reads_within om (total_bytes im)"
    using reads_within_same_meaning [of om outer] o(2,4) i(2) by simp
  have thr: "through (segments im) z = through (segments inner) z" for z
    using i(4) by (simp add: through_def split: option.split byte_origin.split)
  show ?thesis
  proof (cases "compose_segments im (segments om)")
    case (Inl e)
    have "\<not> reads_within om (total_bytes im)"
    proof
      assume "reads_within om (total_bytes im)"
      then have "\<exists>out. compose_segments im (segments om) = Inr out"
        using reads_within_segments [OF ot] by (intro compose_segments_complete [OF it(1)]) blast
      with Inl show False by simp
    qed
    with Inl rw nz assms show ?thesis by (simp add: compose_byte_range_maps_def)
  next
    case (Inr out)
    note snd = compose_segments_sound [OF Inr it(1,3) ot]
    let ?m = "\<lparr>total_bytes = total_bytes om, num_sources = num_sources im, segments = out\<rparr>"
    have "valid_map ?m"
      using snd it(2) o(2) nz tiles_exact_cover [of "unat (total_bytes om)" out]
      by (simp add: valid_map_def)
    then obtain m where m: "normalize_byte_range_map ?m = Inr m"
      using normalize_valid_iff [of ?m] by (auto simp: is_ok_iff)
    moreover have "reads_within om (total_bytes im)"
      using snd by (intro segments_reads_within [OF ot]) blast
    ultimately show ?thesis
      using Inr rw nz assms normalize_meaning [OF m] snd o(2,4) i(3)
      by (simp add: compose_byte_range_maps_def thr)
  qed
qed

lemma described_tensor:
  assumes res: "ranges_in_bounds tot rs" "\<forall>d<unat tot. describes (segments m) rs d"
    and same: "\<And>n c. (n, c) \<in> set canonical \<Longrightarrow>
      \<exists>s. map_of source n = Some s \<and> entry_size s = entry_size c"
    and rs: "set rs = {entry_range c s |n c s. (n, c) \<in> set canonical \<and> map_of source n = Some s}"
    and c: "map_of canonical name = Some c"
  shows "\<exists>s. map_of source name = Some s \<and> entry_size s = entry_size c \<and>
    (\<forall>i<unat (entry_size c). unat (entry_offset c) + i < unat tot \<and>
       origin (segments m) (unat (entry_offset c) + i) =
         Some (SourceByte 0 (entry_offset s + of_nat i)))"
proof -
  have mem: "(name, c) \<in> set canonical" using c by (rule map_of_SomeD)
  obtain s where s: "map_of source name = Some s" "entry_size s = entry_size c"
    using same [OF mem] by blast
  have r: "entry_range c s \<in> set rs" unfolding rs using mem s(1) by blast
  have "unat (entry_offset c) + i < unat tot \<and>
      origin (segments m) (unat (entry_offset c) + i) =
        Some (SourceByte 0 (entry_offset s + of_nat i))"
    if i: "i < unat (entry_size c)" for i
  proof -
    have cov: "range_covers (entry_range c s) (unat (entry_offset c) + i)"
      using i by (simp add: in_entry_def)
    moreover from this have "unat (entry_offset c) + i < unat tot"
      using res(1) r range_covers_nonempty [OF cov]
      by (fastforce simp: ranges_in_bounds_def range_covers_def)
    moreover from this have "describes (segments m) rs (unat (entry_offset c) + i)"
      using res(2) by blast
    ultimately show ?thesis using r by (fastforce simp: describes_def)
  qed
  with s show ?thesis by blast
qed

lemma described_padding:
  assumes "distinct (map fst canonical)"
    and rs: "set rs = {entry_range c s |n c s. (n, c) \<in> set canonical \<and> map_of source n = Some s}"
    and "describes (segments m) rs d" "\<forall>name c. map_of canonical name = Some c \<longrightarrow> \<not> in_entry c d"
  shows "origin (segments m) d = Some PadByte"
proof -
  have "\<not> range_covers r d" if "r \<in> set rs" for r
    using that assms(1,4) unfolding rs by (auto simp: map_of_eq_Some_iff)
  with assms(3) show ?thesis by (simp add: describes_def)
qed

section \<open>Properties\<close>

text \<open>
  C6. Composing two maps yields a canonical map of the outer size over the sources of the
  inner map in which every destination byte comes from where the inner map takes the byte
  that the outer map asks for; padding of either map stays padding.
\<close>

theorem compose_meaning:
  assumes "compose_byte_range_maps outer inner = Inr m" and "total_bytes outer \<noteq> 0"
  shows "canonical_map m \<and> total_bytes m = total_bytes outer \<and> num_sources m = num_sources inner \<and>
    (\<forall>d<unat (total_bytes outer).
       origin (segments m) d = through (segments inner) (origin (segments outer) d))"
proof -
  from assms obtain om im where "normalize_byte_range_map outer = Inr om"
    "normalize_byte_range_map inner = Inr im" "total_bytes inner \<noteq> 0"
    by (auto simp: compose_byte_range_maps_def split: if_splits sum.splits)
  from compose_run [OF this(1,2) assms(2) this(3)] assms(1) show ?thesis
    by (auto split: if_splits)
qed

text \<open>
  C7. A composition with a non-empty outer map succeeds exactly when both maps are valid,
  the inner one is not empty and every byte the outer map reads lies inside the inner map:
  the 64-bit sums of the code never let an out-of-range read through.
\<close>

theorem compose_accepts:
  "(\<exists>m. compose_byte_range_maps outer inner = Inr m) \<longleftrightarrow>
     total_bytes outer = 0 \<or>
     total_bytes inner \<noteq> 0 \<and> valid_map outer \<and> valid_map inner \<and>
     reads_within outer (total_bytes inner)"
proof (cases "total_bytes outer = 0 \<or> total_bytes inner = 0")
  case False
  show ?thesis
  proof (cases "normalize_byte_range_map outer"; cases "normalize_byte_range_map inner")
    fix om im
    assume n: "normalize_byte_range_map outer = Inr om" "normalize_byte_range_map inner = Inr im"
    then have "valid_map outer" "valid_map inner" using normalize_meaning(5) by blast+
    with compose_run [OF n] False show ?thesis by (auto split: if_splits)
  qed (use False normalize_valid_iff [of outer] normalize_valid_iff [of inner]
        in \<open>auto simp: compose_byte_range_maps_def\<close>)
qed (auto simp: compose_byte_range_maps_def)

text \<open>
  C8. Relocation. A map built from a canonical and a source index describes both: they name
  the same tensors with the same sizes, every tensor lies inside the destination, byte \<open>i\<close>
  of a tensor at its canonical offset is read from byte \<open>i\<close> at its source offset, and the
  bytes that belong to no tensor are padding. This holds for any order the sort gives equal
  keys and any iteration order of the hash maps.
\<close>

theorem relocated_map_meaning:
  assumes srt: "\<And>xs. mset (srt xs) = mset xs" "\<And>xs. sorted (map range_key (srt xs))"
    and order: "\<And>xs. mset (order xs) = mset xs"
    and b: "build_byte_range_map_from_canonical_and_source_index_json
        srt order J cj sj total_size = Inr m"
  shows "\<exists>canonical source. parse_index_entries J cj = Inr canonical \<and>
    parse_index_entries J sj = Inr source \<and> dom (map_of canonical) = dom (map_of source) \<and>
    canonical_map m \<and> total_bytes m = total_size \<and> num_sources m = 1 \<and>
    (\<forall>name c. map_of canonical name = Some c \<longrightarrow>
       (\<exists>s. map_of source name = Some s \<and> entry_size s = entry_size c \<and>
          (\<forall>i<unat (entry_size c). unat (entry_offset c) + i < unat total_size \<and>
             origin (segments m) (unat (entry_offset c) + i) =
               Some (SourceByte 0 (entry_offset s + of_nat i))))) \<and>
    (\<forall>d<unat total_size. (\<forall>name c. map_of canonical name = Some c \<longrightarrow> \<not> in_entry c d) \<longrightarrow>
       origin (segments m) d = Some PadByte)"
proof -
  have sort: "range_sort srt" using srt by unfold_locales
  obtain canonical source rs where
    p: "parse_index_entries J cj = Inr canonical" "parse_index_entries J sj = Inr source"
    and tot: "total_size \<noteq> 0" and len: "length canonical = length source"
    and same: "\<And>n c. (n, c) \<in> set canonical \<Longrightarrow>
      \<exists>s. map_of source n = Some s \<and> entry_size s = entry_size c"
    and rs: "set rs = {entry_range c s |n c s. (n, c) \<in> set canonical \<and> map_of source n = Some s}"
    and bm: "build_from_ranges srt total_size rs = Inr m"
    using range_sort.relocated_build [OF sort order b] by blast
  have dist: "distinct (map fst canonical)" "distinct (map fst source)"
    using p parse_index_entries_distinct by blast+
  have "dom (map_of canonical) \<subseteq> dom (map_of source)"
    using same by (fastforce dest: map_of_SomeD)
  then have dom: "dom (map_of canonical) = dom (map_of source)"
    by (rule same_keys_dom [OF dist len])
  note res = range_sort.build_result [OF sort bm tot]
  note tensor = described_tensor [OF _ _ same rs]
    and pad = described_padding [OF dist(1) rs]
  show ?thesis
    by (rule exI [of _ canonical], rule exI [of _ source])
      (use p dom res tensor [of total_size m] pad [of m] in auto)
qed

text \<open>
  C9. The map of a canonical index. For an index that parses, building the map succeeds
  exactly when every tensor lies inside the destination; overlapping tensors never conflict,
  the bytes of tensors are read from the same offset of the source and the rest is padding.
\<close>

theorem canonical_index_map:
  assumes srt: "\<And>xs. mset (srt xs) = mset xs" "\<And>xs. sorted (map range_key (srt xs))"
    and "total_size \<noteq> 0" "index_json \<noteq> []" "json_parse J index_json = Some j" "json_is_object J j"
    and ranges: "canonical_ranges J (json_items J j) = Inr rs"
  shows "case build_byte_range_map_from_canonical_index_json srt J index_json total_size of
      Inl e \<Rightarrow> \<not> ranges_in_bounds total_size rs
    | Inr m \<Rightarrow> ranges_in_bounds total_size rs \<and> canonical_map m \<and> total_bytes m = total_size \<and>
        (\<forall>d<unat total_size. origin (segments m) d =
           Some (if \<exists>r\<in>set rs. range_covers r d then SourceByte 0 (of_nat d) else PadByte))"
proof -
  have sort: "range_sort srt" using srt by unfold_locales
  have b: "build_byte_range_map_from_canonical_index_json srt J index_json total_size =
      build_from_ranges srt total_size rs"
    using assms by (simp add: build_byte_range_map_from_canonical_index_json_def)
  have idr: "range_src r = range_dst r" if "r \<in> set rs" for r
    using relocated_ranges_identity [OF ranges that] .
  then have agree: "ranges_agree rs" by (simp add: identity_ranges_agree)
  have read: "range_src r + of_nat (d - rlo r) = of_nat d" if "r \<in> set rs" "range_covers r d" for r d
    using read_offset [OF that(2)] idr [OF that(1)] by (simp add: range_delta_def)
  show ?thesis
  proof (cases "build_from_ranges srt total_size rs")
    case (Inl e)
    then show ?thesis
      using range_sort.build_accepts [OF sort assms(3) _ agree] b by auto
  next
    case (Inr m)
    note res = range_sort.build_result [OF sort Inr assms(3)]
    have "origin (segments m) d =
        Some (if \<exists>r\<in>set rs. range_covers r d then SourceByte 0 (of_nat d) else PadByte)"
      if "d < unat total_size" for d
      using res that read by (auto simp: describes_def)
    with res Inr b show ?thesis by simp
  qed
qed

section \<open>Examples\<close>

text \<open>Two tensors, swapped between the canonical and the source layout, with a gap.\<close>

datatype ex_json = JObj "(string \<times> ex_json) list" | JArr "ex_json list" | JNum u64

definition ex_canonical :: ex_json where
  "ex_canonical = JObj [(''a'', JArr [JNum 0, JNum 4]), (''b'', JArr [JNum 6, JNum 2])]"

definition ex_source :: ex_json where
  "ex_source = JObj [(''a'', JArr [JNum 2, JNum 4]), (''b'', JArr [JNum 0, JNum 2])]"

definition ex_api :: "ex_json json_api" where
  "ex_api = \<lparr>
     json_parse = (\<lambda>s. if s = ''c'' then Some ex_canonical else if s = ''s'' then Some ex_source
       else None),
     json_is_object = (\<lambda>j. case j of JObj _ \<Rightarrow> True | _ \<Rightarrow> False),
     json_items = (\<lambda>j. case j of JObj xs \<Rightarrow> xs | _ \<Rightarrow> []),
     json_is_array = (\<lambda>j. case j of JArr _ \<Rightarrow> True | _ \<Rightarrow> False),
     json_size = (\<lambda>j. case j of JArr xs \<Rightarrow> length xs | JObj xs \<Rightarrow> length xs | JNum _ \<Rightarrow> 1),
     json_at = (\<lambda>j i. case j of JArr xs \<Rightarrow> xs ! i | _ \<Rightarrow> j),
     json_get_u64 = (\<lambda>j. case j of JNum n \<Rightarrow> Some n | _ \<Rightarrow> None)\<rparr>"

definition ex_relocated :: ByteRangeMap where
  "ex_relocated = \<lparr>total_bytes = 8, num_sources = 1, segments =
     [\<lparr>kind = kData, dst_offset = 0, seg_length = 4, src_offset = 2, source_index = 0\<rparr>,
      \<lparr>kind = kPad, dst_offset = 4, seg_length = 2, src_offset = 0, source_index = 0\<rparr>,
      \<lparr>kind = kData, dst_offset = 6, seg_length = 2, src_offset = 0, source_index = 0\<rparr>]\<rparr>"

lemmas ex_eval =
  parse_index_entries_def ex_api_def ex_canonical_def ex_source_def entry_shaped_def get_entry_def
  emplace_def build_from_ranges_def append_normalized_ranges_def range_key_def range_delta_def
  range_end_def push_range_def data_segment_def pad_segment_def closing_pad_def
  normalize_byte_range_map_def normalize_sorted_by_def validate_total_bytes_def seg_end_def
  can_merge_def u64_simps less_eq_prod_def

lemma ex_relocated_built:
  "build_byte_range_map_from_canonical_and_source_index_json (sort_key range_key) id ex_api
     ''c'' ''s'' 8 = Inr ex_relocated"
  by (simp add: build_byte_range_map_from_canonical_and_source_index_json_def
      compute_total_size_from_entries_def ex_relocated_def ex_eval max_def)

theorem relocated_map_meaning_witness:
  "\<exists>canonical source. parse_index_entries ex_api ''c'' = Inr canonical \<and>
    parse_index_entries ex_api ''s'' = Inr source \<and>
    dom (map_of canonical) = dom (map_of source) \<and> canonical_map ex_relocated"
  using relocated_map_meaning [OF _ _ _ ex_relocated_built] by auto

lemma ex_ranges:
  "canonical_ranges ex_api (json_items ex_api ex_canonical) =
     Inr [\<lparr>range_dst = 0, range_length = 4, range_src = 0\<rparr>,
          \<lparr>range_dst = 6, range_length = 2, range_src = 6\<rparr>]"
  by (simp add: ex_eval)

lemma ex_parse: "json_parse ex_api ''c'' = Some ex_canonical" "json_is_object ex_api ex_canonical"
  by (simp_all add: ex_api_def ex_canonical_def)

theorem canonical_index_map_witness:
  "case build_byte_range_map_from_canonical_index_json (sort_key range_key) ex_api ''c'' 8 of
     Inl e \<Rightarrow> False
   | Inr m \<Rightarrow> canonical_map m \<and> origin (segments m) 7 = Some (SourceByte 0 7) \<and>
       origin (segments m) 5 = Some PadByte"
proof (cases "build_byte_range_map_from_canonical_index_json (sort_key range_key) ex_api ''c'' 8")
  case (Inl e)
  with canonical_index_map [of "sort_key range_key" 8, OF _ _ _ _ ex_parse ex_ranges]
  show ?thesis by (simp add: ranges_in_bounds_def rhi_def)
next
  case (Inr m)
  with canonical_index_map [of "sort_key range_key" 8, OF _ _ _ _ ex_parse ex_ranges]
  show ?thesis by (simp add: range_covers_def rlo_def rhi_def)
qed

definition ex_outer :: ByteRangeMap where
  "ex_outer = \<lparr>total_bytes = 4, num_sources = 1, segments =
     [\<lparr>kind = kData, dst_offset = 0, seg_length = 4, src_offset = 3, source_index = 0\<rparr>]\<rparr>"

definition ex_composed :: ByteRangeMap where
  "ex_composed = \<lparr>total_bytes = 4, num_sources = 1, segments =
     [\<lparr>kind = kData, dst_offset = 0, seg_length = 1, src_offset = 5, source_index = 0\<rparr>,
      \<lparr>kind = kPad, dst_offset = 1, seg_length = 2, src_offset = 0, source_index = 0\<rparr>,
      \<lparr>kind = kData, dst_offset = 3, seg_length = 1, src_offset = 0, source_index = 0\<rparr>]\<rparr>"

lemma ex_composed_built: "compose_byte_range_maps ex_outer ex_relocated = Inr ex_composed"
  by (simp add: compose_byte_range_maps_def ex_outer_def ex_relocated_def ex_composed_def ex_eval
      compose_loop.simps find_inner_index_def upper_bound_def compose_take_def compose_piece_def
      min_def Let_def)

theorem compose_meaning_witness:
  "canonical_map ex_composed \<and>
   map (origin (segments ex_composed)) [0..<4] =
     map (\<lambda>d. through (segments ex_relocated) (origin (segments ex_outer) d)) [0..<4]"
  using compose_meaning [OF ex_composed_built] by (simp add: ex_outer_def)

end
