(* ===== verification/Byte_Range_Program.thy ===== *)
theory Byte_Range_Program
  imports Byte_Range_Map
begin

text \<open>
  Compilation of a byte-range map into runs and the cache of compiled programs
  (\<open>core/store/materialization/dataplane/sources/byte_range_program.{h,cc}\<close>). The lemmas show
  that a program denotes the same byte origins as its map, that its runs tile the
  destination, that a strided block stays within its byte limit, that the cache keeps its
  list and its table in step and within capacity, and that a cached answer equals a fresh
  compilation as long as the truncated digests of the payloads in use do not collide.
  Metric counters are not modelled.
\<close>

section \<open>Runs and programs\<close>

datatype run_kind = RunPad | kContiguous | kStrided

record ByteRangeRun =
  run_kind :: run_kind
  dst_begin :: u64
  dst_end :: u64
  run_source :: u32
  src_begin :: u64
  src_base :: u64
  row_len :: u64
  stride :: u64
  rows :: u64
  rows_per_block :: u64

definition default_run :: ByteRangeRun where
  "default_run = \<lparr>run_kind = RunPad, dst_begin = 0, dst_end = 0, run_source = 0, src_begin = 0,
     src_base = 0, row_len = 0, stride = 0, rows = 0, rows_per_block = 0\<rparr>"

type_synonym fingerprint = "u8 list"

record ByteRangeProgram =
  runs :: "ByteRangeRun list"
  run_starts :: "u64 list"
  prog_total_bytes :: u64
  map_fingerprint :: fingerprint
  config_fingerprint :: fingerprint
  strided_candidate_runs :: u64
  strided_compile_fallback_runs :: u64
  prog_block_max_bytes :: u64
  has_strided_runs :: bool

record ByteMappingConfig =
  enable_strided_execution :: bool
  enable_direct_write_at :: bool
  program_cache_entries :: u32
  strided_run_min_ranges :: u32
  strided_min_row_len_bytes :: u64
  strided_max_amplification :: u32
  strided_block_target_bytes :: u64
  strided_block_max_bytes :: u64
  disk_source_ordered_read :: bool
  disk_source_merge_max_gap_bytes :: u64
  disk_source_merge_max_amplification :: u32
  disk_source_prefetch_depth :: u32

section \<open>Compilation\<close>

definition amplification_within_limit :: "u64 \<Rightarrow> u64 \<Rightarrow> u32 \<Rightarrow> bool" where
  "amplification_within_limit str len max_amplification =
     (if len = 0 \<or> max_amplification = 0 then False
      else if (- 1) div ucast max_amplification < len then False
      else str \<le> ucast max_amplification * len)"

definition should_enable_strided :: "ByteRangeRun \<Rightarrow> ByteMappingConfig \<Rightarrow> bool" where
  "should_enable_strided run cfg =
     (if rows run < ucast (strided_run_min_ranges cfg) then False
      else if row_len run < strided_min_row_len_bytes cfg then False
      else if strided_block_max_bytes cfg < row_len run then False
      else amplification_within_limit (stride run) (row_len run) (strided_max_amplification cfg))"

definition compute_rows_per_block :: "ByteRangeRun \<Rightarrow> ByteMappingConfig \<Rightarrow> u64" where
  "compute_rows_per_block run cfg =
     (if stride run = 0 then 1
      else
        (let rpb0 = strided_block_target_bytes cfg div stride run;
             rpb1 = (if rpb0 = 0 then 1 else rpb0);
             max_rows = (if row_len run < strided_block_max_bytes cfg
                         then 1 + (strided_block_max_bytes cfg - row_len run) div stride run
                         else 1);
             rpb2 = (if max_rows < rpb1 then max_rows else rpb1)
         in max rpb2 1))"

text \<open>The three inner loops: what they consume and the cursor values they leave.\<close>

primrec pad_span :: "u64 \<Rightarrow> ByteRangeSegment list \<Rightarrow> u64 \<times> ByteRangeSegment list" where
  "pad_span e [] = (e, [])"
| "pad_span e (next # rest) =
     (if kind next \<noteq> kPad \<or> seg_length next = 0 \<or> dst_offset next \<noteq> e then (e, next # rest)
      else pad_span (e + seg_length next) rest)"

primrec row_span ::
  "ByteRangeSegment \<Rightarrow> u64 \<Rightarrow> u64 \<Rightarrow> u64 \<Rightarrow> ByteRangeSegment list
     \<Rightarrow> ByteRangeSegment list \<times> ByteRangeSegment list"
where
  "row_span seg str expected_dst expected_src [] = ([], [])"
| "row_span seg str expected_dst expected_src (current # rest) =
     (if kind current \<noteq> kData \<or> source_index current \<noteq> source_index seg \<or>
         seg_length current \<noteq> seg_length seg \<or> dst_offset current \<noteq> expected_dst \<or>
         src_offset current \<noteq> expected_src
      then ([], current # rest)
      else apfst ((#) current)
             (row_span seg str (expected_dst + seg_length seg) (expected_src + str) rest))"

primrec contiguous_span ::
  "u32 \<Rightarrow> u64 \<Rightarrow> u64 \<Rightarrow> ByteRangeSegment list \<Rightarrow> u64 \<times> ByteRangeSegment list"
where
  "contiguous_span src_idx e src_end [] = (e, [])"
| "contiguous_span src_idx e src_end (next # rest) =
     (if kind next \<noteq> kData \<or> source_index next \<noteq> src_idx \<or> dst_offset next \<noteq> e \<or>
         src_offset next \<noteq> src_end
      then (e, next # rest)
      else contiguous_span src_idx (e + seg_length next) (src_end + seg_length next) rest)"

text \<open>The stride of a candidate, if the next segment is another row of the same source.\<close>

definition strided_candidate :: "ByteRangeSegment \<Rightarrow> ByteRangeSegment list \<Rightarrow> u64 option" where
  "strided_candidate seg rest =
     (case rest of
        [] \<Rightarrow> None
      | next # _ \<Rightarrow>
          if kind next = kData \<and> source_index next = source_index seg \<and>
             seg_length next = seg_length seg \<and> dst_offset next = seg_end seg \<and>
             src_offset seg < src_offset next \<and>
             seg_length seg < src_offset next - src_offset seg
          then Some (src_offset next - src_offset seg) else None)"

definition pad_run :: "ByteRangeSegment \<Rightarrow> u64 \<Rightarrow> ByteRangeRun" where
  "pad_run seg e = default_run\<lparr>run_kind := RunPad, dst_begin := dst_offset seg, dst_end := e\<rparr>"

definition contiguous_run :: "ByteRangeSegment \<Rightarrow> u64 \<Rightarrow> ByteRangeRun" where
  "contiguous_run seg e =
     default_run\<lparr>run_kind := kContiguous, dst_begin := dst_offset seg, dst_end := e,
       run_source := source_index seg, src_begin := src_offset seg\<rparr>"

definition strided_run :: "ByteRangeSegment \<Rightarrow> u64 \<Rightarrow> u64 \<Rightarrow> ByteRangeRun" where
  "strided_run seg str n =
     default_run\<lparr>run_kind := kStrided, dst_begin := dst_offset seg,
       dst_end := dst_offset seg + seg_length seg * n, run_source := source_index seg,
       src_base := src_offset seg, row_len := seg_length seg, stride := str, rows := n\<rparr>"

definition emit_rows ::
  "ByteMappingConfig \<Rightarrow> ByteRangeRun \<Rightarrow> ByteRangeSegment list \<Rightarrow> ByteRangeProgram \<Rightarrow> ByteRangeProgram"
where
  "emit_rows cfg run taken prog =
     (if enable_strided_execution cfg \<and> should_enable_strided run cfg
      then prog\<lparr>runs := runs prog @ [run\<lparr>rows_per_block := compute_rows_per_block run cfg\<rparr>],
             has_strided_runs := True\<rparr>
      else prog\<lparr>strided_compile_fallback_runs := strided_compile_fallback_runs prog + 1,
             runs := runs prog @ map (\<lambda>piece. contiguous_run piece (seg_end piece)) taken\<rparr>)"

lemma pad_span_length: "length (snd (pad_span e ss)) \<le> length ss"
  by (induction ss arbitrary: e) (auto simp: le_SucI)

lemma row_span_split: "row_span seg str d s ss = (taken, rest) \<Longrightarrow> ss = taken @ rest"
  by (induction ss arbitrary: d s taken rest)
    (auto split: if_splits simp: apfst_def map_prod_def split: prod.splits)

lemma contiguous_span_length: "length (snd (contiguous_span i e s ss)) \<le> length ss"
  by (induction ss arbitrary: e s) (auto simp: le_SucI)

lemma row_span_first:
  "kind seg = kData \<Longrightarrow>
     row_span seg str (dst_offset seg) (src_offset seg) (seg # rest) =
     apfst ((#) seg)
       (row_span seg str (dst_offset seg + seg_length seg) (src_offset seg + str) rest)"
  by simp

lemma row_span_length:
  "kind seg = kData \<Longrightarrow>
     length (snd (row_span seg str (dst_offset seg) (src_offset seg) (seg # rest))) \<le> length rest"
  using row_span_split [of seg str "dst_offset seg + seg_length seg" "src_offset seg + str" rest]
  by (cases "row_span seg str (dst_offset seg + seg_length seg) (src_offset seg + str) rest") auto

text \<open>The main loop over the segments.\<close>

function compile_runs ::
  "ByteMappingConfig \<Rightarrow> ByteRangeProgram \<Rightarrow> ByteRangeSegment list \<Rightarrow> ByteRangeProgram"
where
  "compile_runs cfg prog [] = prog"
| "compile_runs cfg prog (seg # rest) =
     (if seg_length seg = 0 then compile_runs cfg prog rest
      else if kind seg = kPad then
        compile_runs cfg
          (prog\<lparr>runs := runs prog @ [pad_run seg (fst (pad_span (seg_end seg) rest))]\<rparr>)
          (snd (pad_span (seg_end seg) rest))
      else case strided_candidate seg rest of
        Some str \<Rightarrow>
          compile_runs cfg
            (emit_rows cfg
               (strided_run seg str (of_nat (length
                  (fst (row_span seg str (dst_offset seg) (src_offset seg) (seg # rest))))))
               (fst (row_span seg str (dst_offset seg) (src_offset seg) (seg # rest)))
               (prog\<lparr>strided_candidate_runs := strided_candidate_runs prog + 1\<rparr>))
            (snd (row_span seg str (dst_offset seg) (src_offset seg) (seg # rest)))
      | None \<Rightarrow>
          compile_runs cfg
            (prog\<lparr>runs := runs prog @ [contiguous_run seg
               (fst (contiguous_span (source_index seg) (seg_end seg)
                       (src_offset seg + seg_length seg) rest))]\<rparr>)
            (snd (contiguous_span (source_index seg) (seg_end seg)
                    (src_offset seg + seg_length seg) rest)))"
  by pat_completeness auto
termination
proof (relation "measure (\<lambda>(cfg, prog, ss). length ss)", goal_cases)
  case (5 cfg prog seg rest str)
  then have "kind seg = kData" by (cases "kind seg") auto
  then show ?case
    using row_span_length [of seg str rest] by (simp add: less_Suc_eq_le del: row_span.simps)
qed (use pad_span_length contiguous_span_length in \<open>auto simp: less_Suc_eq_le\<close>)

definition config_payload :: "ByteMappingConfig \<Rightarrow> u8 list" where
  "config_payload config =
     append_u64 (append_u64 (append_u32 (append_u64 (append_u32
       (ascii_bytes ''byte_range_config_v1'' @ [0] @
        [if enable_strided_execution config then 1 else 0])
       (strided_run_min_ranges config)) (strided_min_row_len_bytes config))
       (strided_max_amplification config)) (strided_block_target_bytes config))
       (strided_block_max_bytes config)"

definition fingerprint_byte_range_config ::
  "(u8 list \<Rightarrow> u8 list) \<Rightarrow> ByteMappingConfig \<Rightarrow> fingerprint"
where
  "fingerprint_byte_range_config sha256_digest_bytes config =
     take 16 (sha256_digest_bytes (config_payload config))"

text \<open>The part of \<open>Compile\<close> after a cache miss.\<close>

definition empty_program :: ByteRangeProgram where
  "empty_program = \<lparr>runs = [], run_starts = [], prog_total_bytes = 0, map_fingerprint = [],
     config_fingerprint = [], strided_candidate_runs = 0, strided_compile_fallback_runs = 0,
     prog_block_max_bytes = 0, has_strided_runs = False\<rparr>"

definition fill_run_starts :: "ByteRangeProgram \<Rightarrow> ByteRangeProgram" where
  "fill_run_starts prog = prog\<lparr>run_starts := map dst_begin (runs prog)\<rparr>"

definition compile_program ::
  "ByteMappingConfig \<Rightarrow> fingerprint \<Rightarrow> fingerprint \<Rightarrow> ByteRangeMap \<Rightarrow> ByteRangeProgram"
where
  "compile_program cfg config_fp map_fp normalized =
     fill_run_starts
       (compile_runs cfg
          (empty_program\<lparr>prog_total_bytes := total_bytes normalized, map_fingerprint := map_fp,
             config_fingerprint := config_fp,
             prog_block_max_bytes := strided_block_max_bytes cfg\<rparr>)
          (segments normalized))"

section \<open>The program cache\<close>

record CacheKey =
  key_map_fingerprint :: fingerprint
  key_config_fingerprint :: fingerprint

record CacheEntry =
  entry_program :: ByteRangeProgram
  entry_total_bytes :: u64
  entry_num_sources :: u32
  entry_segment_count :: nat

text \<open>
  \<open>lru\<close> is the list of keys, most recently used first. An entry's iterator into that list is
  the position of its key, which occurs once.
\<close>

record ByteRangeProgramCache =
  capacity :: nat
  lru :: "CacheKey list"
  entries :: "(CacheKey \<times> CacheEntry) list"

function evict_if_needed :: "ByteRangeProgramCache \<Rightarrow> ByteRangeProgramCache" where
  "evict_if_needed c =
     (if capacity c < length (entries c) \<and> lru c \<noteq> []
      then evict_if_needed
             (c\<lparr>entries := AList.delete (last (lru c)) (entries c), lru := butlast (lru c)\<rparr>)
      else c)"
  by pat_completeness auto
termination by (relation "measure (\<lambda>c. length (lru c))") auto

declare evict_if_needed.simps [simp del]

definition new_cache :: "nat \<Rightarrow> ByteRangeProgramCache" where
  "new_cache cap = \<lparr>capacity = max cap 1, lru = [], entries = []\<rparr>"

definition SetCapacity :: "nat \<Rightarrow> ByteRangeProgramCache \<Rightarrow> ByteRangeProgramCache" where
  "SetCapacity cap c = evict_if_needed (c\<lparr>capacity := max cap 1\<rparr>)"

definition move_to_front :: "CacheKey \<Rightarrow> ByteRangeProgramCache \<Rightarrow> ByteRangeProgramCache" where
  "move_to_front key c = c\<lparr>lru := key # remove1 key (lru c)\<rparr>"

definition Lookup ::
  "CacheKey \<Rightarrow> ByteRangeMap \<Rightarrow> ByteRangeProgramCache
     \<Rightarrow> ByteRangeProgramCache \<times> ByteRangeProgram option"
where
  "Lookup key m c =
     (case map_of (entries c) key of
        None \<Rightarrow> (c, None)
      | Some entry \<Rightarrow>
          if entry_total_bytes entry \<noteq> total_bytes m \<or> entry_num_sources entry \<noteq> num_sources m \<or>
             entry_segment_count entry \<noteq> length (segments m)
          then (c\<lparr>lru := remove1 key (lru c), entries := AList.delete key (entries c)\<rparr>, None)
          else (move_to_front key c, Some (entry_program entry)))"

definition cache_entry :: "ByteRangeMap \<Rightarrow> ByteRangeProgram \<Rightarrow> CacheEntry" where
  "cache_entry m program = \<lparr>entry_program = program, entry_total_bytes = total_bytes m,
     entry_num_sources = num_sources m, entry_segment_count = length (segments m)\<rparr>"

definition Insert ::
  "CacheKey \<Rightarrow> ByteRangeMap \<Rightarrow> ByteRangeProgram \<Rightarrow> ByteRangeProgramCache \<Rightarrow> ByteRangeProgramCache"
where
  "Insert key m program c =
     (if map_of (entries c) key \<noteq> None
      then move_to_front key
             (c\<lparr>entries := AList.update key (cache_entry m program) (entries c)\<rparr>)
      else evict_if_needed
             (c\<lparr>lru := key # lru c,
                entries := AList.update key (cache_entry m program) (entries c)\<rparr>))"

record ByteRangeCompiler =
  compiler_config :: ByteMappingConfig
  compiler_fingerprint :: fingerprint

definition new_compiler :: "(u8 list \<Rightarrow> u8 list) \<Rightarrow> ByteMappingConfig \<Rightarrow> ByteRangeCompiler" where
  "new_compiler sha config =
     \<lparr>compiler_config = config, compiler_fingerprint = fingerprint_byte_range_config sha config\<rparr>"

definition Compile ::
  "(u8 list \<Rightarrow> u8 list) \<Rightarrow> ByteRangeCompiler \<Rightarrow> ByteRangeMap \<Rightarrow> ByteRangeProgramCache
     \<Rightarrow> ByteRangeProgramCache \<times> ByteRangeProgram status_or"
where
  "Compile sha self m cache =
     (case normalize_byte_range_map m of
        Inl e \<Rightarrow> (cache, Inl e)
      | Inr normalized \<Rightarrow>
        (case fingerprint_byte_range_map sha normalized of
           Inl e \<Rightarrow> (cache, Inl e)
         | Inr map_fp \<Rightarrow>
           (let key = \<lparr>key_map_fingerprint = map_fp,
                       key_config_fingerprint = compiler_fingerprint self\<rparr>;
                cache1 = SetCapacity (unat (program_cache_entries (compiler_config self))) cache
            in case Lookup key normalized cache1 of
                 (cache2, Some cached) \<Rightarrow> (cache2, Inr cached)
               | (cache2, None) \<Rightarrow>
                 (let program = compile_program (compiler_config self) (compiler_fingerprint self)
                                  map_fp normalized
                  in (Insert key normalized program cache2, Inr program)))))"

section \<open>Meaning of a program\<close>

definition run_lo :: "ByteRangeRun \<Rightarrow> nat" where
  "run_lo r = unat (dst_begin r)"

definition run_hi :: "ByteRangeRun \<Rightarrow> nat" where
  "run_hi r = unat (dst_end r)"

definition run_origin :: "ByteRangeRun \<Rightarrow> nat \<Rightarrow> byte_origin" where
  "run_origin r d =
     (let off = d - run_lo r in
      case run_kind r of
        RunPad \<Rightarrow> PadByte
      | kContiguous \<Rightarrow> SourceByte (run_source r) (src_begin r + of_nat off)
      | kStrided \<Rightarrow> SourceByte (run_source r)
          (src_base r + of_nat (off div unat (row_len r)) * stride r
             + of_nat (off mod unat (row_len r))))"

primrec runs_origin :: "ByteRangeRun list \<Rightarrow> nat \<Rightarrow> byte_origin option" where
  "runs_origin [] d = None"
| "runs_origin (r # rs) d =
     (if run_lo r \<le> d \<and> d < run_hi r then Some (run_origin r d) else runs_origin rs d)"

primrec run_tiles :: "nat \<Rightarrow> nat \<Rightarrow> ByteRangeRun list \<Rightarrow> bool" where
  "run_tiles a b [] \<longleftrightarrow> a = b"
| "run_tiles a b (r # rs) \<longleftrightarrow> run_lo r = a \<and> run_lo r < run_hi r \<and> run_tiles (run_hi r) b rs"

text \<open>The runs cover the bytes from \<open>a\<close> to \<open>b\<close> and give them the origins of the segments.\<close>

definition runs_denote :: "nat \<Rightarrow> nat \<Rightarrow> ByteRangeRun list \<Rightarrow> ByteRangeSegment list \<Rightarrow> bool" where
  "runs_denote a b rs ss \<longleftrightarrow>
     run_tiles a b rs \<and> (\<forall>d. a \<le> d \<and> d < b \<longrightarrow> runs_origin rs d = origin ss d)"

lemma runs_origin_append:
  "runs_origin (xs @ ys) d = (case runs_origin xs d of None \<Rightarrow> runs_origin ys d | Some z \<Rightarrow> Some z)"
  by (induction xs) auto

lemma run_tiles_append: "run_tiles a b (xs @ ys) \<longleftrightarrow> (\<exists>c. run_tiles a c xs \<and> run_tiles c b ys)"
  by (induction xs arbitrary: a) auto

lemma run_tiles_le: "run_tiles a b rs \<Longrightarrow> a \<le> b"
  by (induction rs arbitrary: a) fastforce+

lemma run_tiles_outside: "run_tiles a b rs \<Longrightarrow> d < a \<or> b \<le> d \<Longrightarrow> runs_origin rs d = None"
proof (induction rs arbitrary: a)
  case (Cons r rs)
  then have "run_hi r \<le> b" using run_tiles_le by fastforce
  with Cons show ?case by fastforce
qed simp

lemma runs_denote_append:
  assumes "runs_denote a c rs1 ss1" "tiles a c ss1" "runs_denote c b rs2 ss2"
  shows "runs_denote a b (rs1 @ rs2) (ss1 @ ss2)"
  unfolding runs_denote_def
proof (intro conjI allI impI)
  show "run_tiles a b (rs1 @ rs2)" using assms by (auto simp: runs_denote_def run_tiles_append)
  fix d
  assume d: "a \<le> d \<and> d < b"
  show "runs_origin (rs1 @ rs2) d = origin (ss1 @ ss2) d"
  proof (cases "d < c")
    case True
    then obtain z where "origin ss1 d = Some z"
      using tiles_origin_inside [OF assms(2)] d by blast
    with True d assms(1) show ?thesis
      by (simp add: runs_denote_def runs_origin_append origin_append)
  next
    case False
    with assms(1) have "runs_origin rs1 d = None"
      by (intro run_tiles_outside) (auto simp: runs_denote_def)
    moreover have "origin ss1 d = None" using False assms(2) by (simp add: tiles_origin_outside)
    ultimately show ?thesis
      using False d assms(3) by (simp add: runs_denote_def runs_origin_append origin_append)
  qed
qed

lemma runs_denote_single:
  assumes "run_lo r = a" "run_hi r = b" "a < b"
    and "\<And>d. a \<le> d \<Longrightarrow> d < b \<Longrightarrow> origin ss d = Some (run_origin r d)"
  shows "runs_denote a b [r] ss"
  using assms by (simp add: runs_denote_def)

lemma tiles_head:
  assumes "tiles a (unat (t :: u64)) (s # ss)"
  shows "seg_lo s = a" "seg_length s \<noteq> 0" "seg_lo s < seg_hi s" "unat (seg_end s) = seg_hi s"
    "tiles (seg_hi s) (unat t) ss" "seg_hi s \<le> unat t"
proof -
  show 1: "seg_lo s = a" "seg_length s \<noteq> 0" "tiles (seg_hi s) (unat t) ss" using assms by simp_all
  from 1(2) show "seg_lo s < seg_hi s" unfolding seg_lo_less_hi .
  have b: "bounded t s" using assms by (rule tiles_bounded) simp
  then show "unat (seg_end s) = seg_hi s" by (rule bounded_seg_end)
  from b show "seg_hi s \<le> unat t" by (simp add: bounded_def)
qed

lemma tiles_end_unique: "tiles a b ss \<Longrightarrow> tiles a c ss \<Longrightarrow> b = c"
  by (induction ss arbitrary: a) auto

lemma pad_span_split:
  assumes "pad_span e ss = (e', rest)" "tiles (unat e) (unat (t :: u64)) ss"
  shows "\<exists>pre. ss = pre @ rest \<and> tiles (unat e) (unat e') pre \<and> (\<forall>s\<in>set pre. kind s = kPad)"
  using assms
proof (induction ss arbitrary: e)
  case (Cons s ss)
  note h = tiles_head [OF Cons.prems(2)]
  show ?case
  proof (cases "kind s \<noteq> kPad \<or> seg_length s = 0 \<or> dst_offset s \<noteq> e")
    case True
    with Cons.prems(1) show ?thesis by (intro exI [of _ "[]"]) auto
  next
    case False
    then have e: "e + seg_length s = seg_end s" by (simp add: seg_end_def)
    obtain pre where "ss = pre @ rest" "tiles (seg_hi s) (unat e') pre" "\<forall>s\<in>set pre. kind s = kPad"
      using Cons.IH [of "seg_end s"] Cons.prems(1) False h by (auto simp: e)
    with False h show ?thesis by (intro exI [of _ "s # pre"]) auto
  qed
qed auto

lemma origin_all_pad:
  assumes "tiles a b ss" "\<forall>s\<in>set ss. kind s = kPad" "a \<le> d" "d < b"
  shows "origin ss d = Some PadByte"
proof -
  obtain z where z: "origin ss d = Some z" using tiles_origin_inside assms by blast
  then obtain s where "s \<in> set ss" "seg_origin s d = z" using origin_SomeD by blast
  with assms(2) z show ?thesis by (auto simp: seg_origin_def)
qed

lemma contiguous_span_split:
  assumes "contiguous_span i e s0 ss = (e', rest)" "tiles (unat e) (unat (t :: u64)) ss"
  shows "\<exists>pre. ss = pre @ rest \<and> tiles (unat e) (unat e') pre \<and>
    (\<forall>d. unat e \<le> d \<and> d < unat e' \<longrightarrow> origin pre d = Some (SourceByte i (s0 + of_nat (d - unat e))))"
  using assms
proof (induction ss arbitrary: e s0)
  case (Cons s ss)
  note h = tiles_head [OF Cons.prems(2)]
  show ?case
  proof (cases "kind s \<noteq> kData \<or> source_index s \<noteq> i \<or> dst_offset s \<noteq> e \<or> src_offset s \<noteq> s0")
    case True
    with Cons.prems(1) show ?thesis by (intro exI [of _ "[]"]) auto
  next
    case False
    then have e: "e + seg_length s = seg_end s" by (simp add: seg_end_def)
    from Cons.IH [of "seg_end s" "s0 + seg_length s"] Cons.prems(1) False h
    obtain pre where pre: "ss = pre @ rest" "tiles (seg_hi s) (unat e') pre"
      "\<And>d. seg_hi s \<le> d \<Longrightarrow> d < unat e' \<Longrightarrow>
         origin pre d = Some (SourceByte i (s0 + seg_length s + of_nat (d - seg_hi s)))"
      by (auto simp: e)
    have "origin (s # pre) d = Some (SourceByte i (s0 + of_nat (d - unat e)))"
      if "unat e \<le> d" "d < unat e'" for d
    proof (cases "d < seg_hi s")
      case True
      with that False h show ?thesis by (simp add: covers_def seg_origin_def)
    next
      case d: False
      then have "d - unat e = unat (seg_length s) + (d - seg_hi s)"
        using h(1) by (simp add: seg_hi_def seg_lo_def)
      with d that pre(3) show ?thesis by (simp add: covers_def add.assoc)
    qed
    with False h pre show ?thesis by (intro exI [of _ "s # pre"]) auto
  qed
qed auto

lemma row_span_meaning:
  assumes "row_span seg str e s0 ss = (pre, rest)" "tiles (unat e) (unat (t :: u64)) ss"
    and "L = unat (seg_length seg)" "L \<noteq> 0"
  shows "tiles (unat e) (unat e + L * length pre) pre \<and> (\<forall>s\<in>set pre. kind s = kData) \<and>
    (\<forall>d. unat e \<le> d \<and> d < unat e + L * length pre \<longrightarrow>
       origin pre d = Some (SourceByte (source_index seg)
         (s0 + of_nat ((d - unat e) div L) * str + of_nat ((d - unat e) mod L))))"
  using assms(1,2)
proof (induction ss arbitrary: e s0 pre)
  case (Cons s ss)
  note h = tiles_head [OF Cons.prems(2)]
  show ?case
  proof (cases "kind s \<noteq> kData \<or> source_index s \<noteq> source_index seg \<or>
      seg_length s \<noteq> seg_length seg \<or> dst_offset s \<noteq> e \<or> src_offset s \<noteq> s0")
    case True
    with Cons.prems(1) show ?thesis by simp
  next
    case False
    then have e: "e + seg_length seg = seg_end s" and hi: "seg_hi s = unat e + L"
      by (simp_all add: seg_end_def seg_hi_def assms(3))
    from Cons.prems(1) False obtain pre' where pre: "pre = s # pre'"
      and run: "row_span seg str (seg_end s) (s0 + str) ss = (pre', rest)"
      by (cases "row_span seg str (seg_end s) (s0 + str) ss") (auto simp: e)
    have IH: "tiles (unat e + L) (unat e + L + L * length pre') pre' \<and> (\<forall>s\<in>set pre'. kind s = kData) \<and>
      (\<forall>d. unat e + L \<le> d \<and> d < unat e + L + L * length pre' \<longrightarrow>
         origin pre' d = Some (SourceByte (source_index seg)
           (s0 + str + of_nat ((d - (unat e + L)) div L) * str + of_nat ((d - (unat e + L)) mod L))))"
      using Cons.IH [OF run] h by (simp add: hi)
    have "origin pre d = Some (SourceByte (source_index seg)
        (s0 + of_nat ((d - unat e) div L) * str + of_nat ((d - unat e) mod L)))"
      if d: "unat e \<le> d" "d < unat e + L * length pre" for d
    proof (cases "d < unat e + L")
      case True
      then have "(d - unat e) div L = 0" "(d - unat e) mod L = d - unat e" using d by auto
      with True d False h hi show ?thesis
        by (simp add: pre covers_def seg_origin_def)
    next
      case beyond: False
      define x where "x = d - (unat e + L)"
      have x: "d - unat e = x + L" using beyond by (simp add: x_def)
      have dm: "(x + L) div L = Suc (x div L)" "(x + L) mod L = x mod L"
        using assms(4) by (simp_all add: div_add_self2)
      have "origin pre' d = Some (SourceByte (source_index seg)
          (s0 + str + of_nat (x div L) * str + of_nat (x mod L)))"
        unfolding x_def using IH beyond d by (simp add: pre)
      with beyond hi show ?thesis
        unfolding x dm by (simp add: pre covers_def algebra_simps)
    qed
    with IH False h hi show ?thesis by (auto simp: pre add.assoc)
  qed
qed simp

lemma contiguous_run_denotes:
  assumes "kind seg = kData" "unat e = b" "seg_lo seg < b"
    and "\<And>d. seg_lo seg \<le> d \<Longrightarrow> d < b \<Longrightarrow>
      origin ss d = Some (SourceByte (source_index seg) (src_offset seg + of_nat (d - seg_lo seg)))"
  shows "runs_denote (seg_lo seg) b [contiguous_run seg e] ss"
  using assms
  by (intro runs_denote_single)
    (auto simp: contiguous_run_def default_run_def run_lo_def run_hi_def seg_lo_def run_origin_def)

lemma fallback_denotes:
  assumes "tiles a b ss" "\<forall>s\<in>set ss. kind s = kData" "b \<le> unat (t :: u64)"
  shows "runs_denote a b (map (\<lambda>piece. contiguous_run piece (seg_end piece)) ss) ss"
  using assms
proof (induction ss arbitrary: a)
  case Nil
  then show ?case by (simp add: runs_denote_def)
next
  case (Cons s ss)
  then have b: "bounded t s"
    using tiles_bounds [OF Cons.prems(1)] by (auto simp: bounded_def)
  have "runs_denote (seg_lo s) (seg_hi s) [contiguous_run s (seg_end s)] [s]"
    using Cons.prems b seg_lo_less_hi [of s]
    by (intro contiguous_run_denotes) (auto simp: bounded_seg_end covers_def seg_origin_def)
  moreover have "tiles (seg_lo s) (seg_hi s) [s]" using Cons.prems by simp
  ultimately have "runs_denote (seg_lo s) b ([contiguous_run s (seg_end s)] @
      map (\<lambda>piece. contiguous_run piece (seg_end piece)) ss) ([s] @ ss)"
    using Cons by (intro runs_denote_append) auto
  with Cons.prems(1) show ?case by simp
qed

lemma unat_dst_end:
  fixes a l t :: u64
  assumes "unat a + unat l * n \<le> unat t"
  shows "unat (a + l * of_nat n) = unat a + unat l * n"
proof -
  have "a + l * of_nat n = of_nat (unat a + unat l * n)" by simp
  moreover have "unat a + unat l * n < 2 ^ 64" using assms unat_u64_bound [of t] by linarith
  ultimately show ?thesis by (simp only: unat_of_nat_u64)
qed

text \<open>The block limit of a strided run: the bytes from the first to the last row of a block.\<close>

definition block_ok :: "u64 \<Rightarrow> ByteRangeRun \<Rightarrow> bool" where
  "block_ok max_bytes r \<longleftrightarrow> run_kind r = kStrided \<longrightarrow>
     rows_per_block r \<noteq> 0 \<and> row_len r \<noteq> 0 \<and>
     (unat (rows_per_block r) - 1) * unat (stride r) + unat (row_len r) \<le> unat max_bytes"

lemma rows_per_block_bound:
  assumes "row_len run \<noteq> 0" "row_len run \<le> strided_block_max_bytes cfg"
  defines "n \<equiv> compute_rows_per_block run cfg"
  shows "n \<noteq> 0 \<and> (unat n - 1) * unat (stride run) + unat (row_len run)
    \<le> unat (strided_block_max_bytes cfg)"
proof (cases "stride run = 0 \<or> \<not> row_len run < strided_block_max_bytes cfg")
  case True
  then have "n = 1"
    by (auto simp: n_def compute_rows_per_block_def Let_def max_def word_le_nat_alt
        word_less_nat_alt unat_gt_0 split: if_splits)
  with assms(2) show ?thesis by (simp add: word_le_nat_alt)
next
  case False
  define q where "q = (strided_block_max_bytes cfg - row_len run) div stride run"
  have sub: "unat (strided_block_max_bytes cfg - row_len run) =
      unat (strided_block_max_bytes cfg) - unat (row_len run)"
    using assms(2) by (rule unat_u64_sub)
  have q: "unat q = (unat (strided_block_max_bytes cfg) - unat (row_len run)) div unat (stride run)"
    by (simp add: q_def unat_div sub)
  have "unat q \<le> unat (strided_block_max_bytes cfg) - unat (row_len run)" by (simp add: q)
  moreover have "unat (row_len run) \<noteq> 0" using assms(1) by (simp add: unat_eq_0)
  ultimately have "unat (1 + q) = 1 + unat q"
    using assms(2) unat_u64_bound [of "strided_block_max_bytes cfg"]
    by (subst unat_u64_add) (auto simp: word_le_nat_alt)
  moreover have "n \<noteq> 0 \<and> unat n \<le> unat (1 + q)"
    using False calculation
    by (auto simp: n_def compute_rows_per_block_def Let_def max_def q_def word_le_nat_alt
        word_less_nat_alt)
  ultimately have n: "n \<noteq> 0" "unat n - 1 \<le> unat q" by auto
  have "(unat n - 1) * unat (stride run) \<le> unat q * unat (stride run)" using n(2) by simp
  also have "\<dots> \<le> unat (strided_block_max_bytes cfg) - unat (row_len run)" by (simp add: q)
  finally show ?thesis using n(1) assms(2) by (simp add: word_le_nat_alt)
qed

lemma strided_run_denotes:
  assumes run: "row_span seg str (dst_offset seg) (src_offset seg) (seg # rest) = (taken, rest')"
    and t: "tiles (seg_lo seg) (unat (t :: u64)) (seg # rest)" and data: "kind seg = kData"
  shows "tiles (seg_lo seg) (unat (dst_offset seg) + unat (seg_length seg) * length taken) taken"
    and "\<forall>s\<in>set taken. kind s = kData"
    and "tiles (unat (dst_offset seg) + unat (seg_length seg) * length taken) (unat t) rest'"
    and "runs_denote (seg_lo seg) (unat (dst_offset seg) + unat (seg_length seg) * length taken)
      [(strided_run seg str (of_nat (length taken)))\<lparr>rows_per_block := k\<rparr>] taken"
proof -
  define b where "b = unat (dst_offset seg) + unat (seg_length seg) * length taken"
  note h = tiles_head [OF t]
  have L: "unat (seg_length seg) \<noteq> 0" using h(2) by (simp add: unat_eq_0)
  note m = row_span_meaning [OF run t [unfolded seg_lo_def] refl L]
  from m show taken: "tiles (seg_lo seg) (unat (dst_offset seg) + unat (seg_length seg) * length taken) taken"
    and "\<forall>s\<in>set taken. kind s = kData" by (simp_all add: seg_lo_def)
  obtain c where c: "tiles (seg_lo seg) c taken" "tiles c (unat t) rest'"
    using t row_span_split [OF run] by (auto simp only: tiles_append)
  have "taken \<noteq> []"
    using run data
    by (cases "row_span seg str (dst_offset seg + seg_length seg) (src_offset seg + str) rest") auto
  then have "b = c \<and> seg_lo seg < b"
    using c(1) taken h L by (cases taken) (auto simp: b_def seg_lo_def tiles_end_unique)
  then have rest: "tiles b (unat t) rest'" "seg_lo seg < b" "b \<le> unat t"
    using c(2) tiles_bounds [OF c(2)] by auto
  from rest(1) show "tiles (unat (dst_offset seg) + unat (seg_length seg) * length taken) (unat t) rest'"
    by (simp add: b_def)
  have "unat (dst_offset seg + seg_length seg * of_nat (length taken)) = b"
    using unat_dst_end rest(3) unfolding b_def by blast
  then show "runs_denote (seg_lo seg) (unat (dst_offset seg) + unat (seg_length seg) * length taken)
      [(strided_run seg str (of_nat (length taken)))\<lparr>rows_per_block := k\<rparr>] taken"
    unfolding b_def [symmetric] using m rest(2)
    by (intro runs_denote_single)
      (auto simp: strided_run_def default_run_def run_lo_def run_hi_def seg_lo_def run_origin_def b_def
        Let_def)
qed

lemma emit_rows_runs:
  "runs (emit_rows cfg run taken prog) = runs prog @
     (if enable_strided_execution cfg \<and> should_enable_strided run cfg
      then [run\<lparr>rows_per_block := compute_rows_per_block run cfg\<rparr>]
      else map (\<lambda>piece. contiguous_run piece (seg_end piece)) taken)"
  by (simp add: emit_rows_def)

lemma strided_run_block_ok:
  assumes "seg_length seg \<noteq> 0" "should_enable_strided (strided_run seg str n) cfg"
  shows "block_ok (strided_block_max_bytes cfg)
    ((strided_run seg str n)\<lparr>rows_per_block := compute_rows_per_block (strided_run seg str n) cfg\<rparr>)"
proof -
  have "row_len (strided_run seg str n) = seg_length seg"
    by (simp add: strided_run_def)
  then show ?thesis
    using rows_per_block_bound [of "strided_run seg str n" cfg] assms
    by (simp add: block_ok_def should_enable_strided_def split: if_splits)
qed

lemma contiguous_run_block_ok [simp]: "block_ok n (contiguous_run seg e)" "block_ok n (pad_run seg e)"
  by (simp_all add: block_ok_def contiguous_run_def pad_run_def default_run_def)

text \<open>
  What compiling a list of segments adds to a program: runs that denote the segments, each
  within the block limit.
\<close>

definition compiled ::
  "ByteMappingConfig \<Rightarrow> ByteRangeProgram \<Rightarrow> ByteRangeProgram \<Rightarrow> nat \<Rightarrow> u64 \<Rightarrow> ByteRangeSegment list \<Rightarrow> bool"
where
  "compiled cfg prog prog' a t ss \<longleftrightarrow>
     (\<exists>new. runs prog' = runs prog @ new \<and> runs_denote a (unat t) new ss \<and>
        (\<forall>r\<in>set new. block_ok (strided_block_max_bytes cfg) r))"

lemma compiled_extend:
  assumes "tiles a (unat t) (pre @ rest)" "tiles a c pre" "runs_denote a c new pre"
    and "runs prog' = runs prog @ new" "\<forall>r\<in>set new. block_ok (strided_block_max_bytes cfg) r"
    and "tiles c (unat t) rest \<Longrightarrow> compiled cfg prog' prog'' c t rest"
  shows "compiled cfg prog prog'' a t (pre @ rest)"
proof -
  have "tiles c (unat t) rest"
    using assms(1,2) tiles_end_unique by (auto simp only: tiles_append)
  from assms(6) [OF this] obtain new' where new': "runs prog'' = runs prog' @ new'"
    "runs_denote c (unat t) new' rest" "\<forall>r\<in>set new'. block_ok (strided_block_max_bytes cfg) r"
    unfolding compiled_def by blast
  with runs_denote_append [OF assms(3,2) new'(2)] assms(4,5) show ?thesis
    unfolding compiled_def by (intro exI [of _ "new @ new'"]) auto
qed

lemma pad_step:
  assumes "tiles a (unat (t :: u64)) (seg # rest)" "kind seg = kPad"
    and "pad_span (seg_end seg) rest = (e, rest')"
  shows "\<exists>pre. seg # rest = pre @ rest' \<and> tiles a (unat e) pre \<and>
    runs_denote a (unat e) [pad_run seg e] pre"
proof -
  note h = tiles_head [OF assms(1)]
  obtain pre where pre: "rest = pre @ rest'" "tiles (seg_hi seg) (unat e) pre"
    "\<forall>s\<in>set pre. kind s = kPad"
    using pad_span_split [OF assms(3)] h by auto
  have t: "tiles a (unat e) (seg # pre)" using h pre by simp
  have "a < unat e" using tiles_bounds [OF pre(2)] h by simp
  then have "runs_denote a (unat e) [pad_run seg e] (seg # pre)"
    using t origin_all_pad [OF t] assms(2) pre(3) h(1)
    by (intro runs_denote_single)
      (simp_all add: pad_run_def default_run_def run_lo_def run_hi_def run_origin_def seg_lo_def)
  with pre(1) t show ?thesis by (intro exI [of _ "seg # pre"]) simp
qed

lemma contiguous_step:
  assumes "tiles a (unat (t :: u64)) (seg # rest)" "kind seg = kData"
    and sp: "contiguous_span (source_index seg) (seg_end seg) (src_offset seg + seg_length seg) rest =
      (e, rest')"
  shows "\<exists>pre. seg # rest = pre @ rest' \<and> tiles a (unat e) pre \<and>
    runs_denote a (unat e) [contiguous_run seg e] pre"
proof -
  note h = tiles_head [OF assms(1)]
  have single: "contiguous_span (source_index seg) (dst_offset seg) (src_offset seg) (seg # rest) =
      (e, rest')" using assms(2) sp by (simp add: seg_end_def)
  obtain pre where pre: "seg # rest = pre @ rest'" "tiles a (unat e) pre"
    "\<And>d. a \<le> d \<Longrightarrow> d < unat e \<Longrightarrow>
       origin pre d = Some (SourceByte (source_index seg) (src_offset seg + of_nat (d - a)))"
    using contiguous_span_split [OF single, of t] assms(1) h(1) unfolding seg_lo_def by blast
  have "pre \<noteq> []"
    using pre(1) sp contiguous_span_length [of "source_index seg" "seg_end seg"
        "src_offset seg + seg_length seg" rest] by (cases pre) auto
  then have "a < unat e" using pre(1,2) h tiles_bounds [OF pre(2)] by (cases pre) auto
  then have "runs_denote a (unat e) [contiguous_run seg e] pre"
    using contiguous_run_denotes [OF assms(2), of e "unat e" pre] pre(3) h(1) by simp
  with pre show ?thesis by blast
qed

lemma strided_step:
  assumes "tiles a (unat (t :: u64)) (seg # rest)" and data: "kind seg = kData"
    and sp: "row_span seg str (dst_offset seg) (src_offset seg) (seg # rest) = (taken, rest')"
  defines "b \<equiv> unat (dst_offset seg) + unat (seg_length seg) * length taken"
  shows "\<exists>new. tiles a b taken \<and> runs_denote a b new taken \<and>
    runs (emit_rows cfg (strided_run seg str (of_nat (length taken))) taken prog) = runs prog @ new \<and>
    (\<forall>r\<in>set new. block_ok (strided_block_max_bytes cfg) r)"
proof -
  note h = tiles_head [OF assms(1)]
  have t: "tiles (seg_lo seg) (unat t) (seg # rest)" using assms(1) h(1) by simp
  note sd = strided_run_denotes [OF sp t data, folded b_def]
  have "b \<le> unat t" using tiles_bounds [OF sd(3)] by simp
  note fb = fallback_denotes [OF sd(1,2) this]
  show ?thesis
    using sd(1,4) fb h(1) strided_run_block_ok [OF h(2)] by (auto simp: emit_rows_runs)
qed

lemma compile_runs_meaning:
  assumes "tiles a (unat t) ss"
  shows "compiled cfg prog (compile_runs cfg prog ss) a t ss"
  using assms
proof (induction cfg prog ss arbitrary: a rule: compile_runs.induct)
  case (1 cfg prog)
  then show ?case by (simp add: compiled_def runs_denote_def)
next
  case (2 cfg prog seg rest)
  note h = tiles_head [OF 2(5)]
  show ?case
  proof (cases "kind seg")
    case kPad
    obtain e rest' where sp: "pad_span (seg_end seg) rest = (e, rest')" by fastforce
    obtain pre where pre: "seg # rest = pre @ rest'" "tiles a (unat e) pre"
      "runs_denote a (unat e) [pad_run seg e] pre"
      using pad_step [OF 2(5) kPad sp] by blast
    let ?prog = "prog\<lparr>runs := runs prog @ [pad_run seg e]\<rparr>"
    have "compiled cfg ?prog (compile_runs cfg ?prog rest') (unat e) t rest'"
      if "tiles (unat e) (unat t) rest'"
      using 2(2) [of "unat e"] h(2) kPad sp that by simp
    then have "compiled cfg prog (compile_runs cfg ?prog rest') a t (pre @ rest')"
      using pre 2(5) by (intro compiled_extend [of a t pre rest' "unat e" "[pad_run seg e]" ?prog]) auto
    moreover have "compile_runs cfg prog (seg # rest) = compile_runs cfg ?prog rest'"
      using kPad h(2) sp by simp
    ultimately show ?thesis unfolding pre(1) by simp
  next
    case kData
    show ?thesis
    proof (cases "strided_candidate seg rest")
      case None
      obtain e rest' where sp: "contiguous_span (source_index seg) (seg_end seg)
          (src_offset seg + seg_length seg) rest = (e, rest')" by fastforce
      obtain pre where pre: "seg # rest = pre @ rest'" "tiles a (unat e) pre"
        "runs_denote a (unat e) [contiguous_run seg e] pre"
        using contiguous_step [OF 2(5) kData sp] by blast
      let ?prog = "prog\<lparr>runs := runs prog @ [contiguous_run seg e]\<rparr>"
      have "compiled cfg ?prog (compile_runs cfg ?prog rest') (unat e) t rest'"
        if "tiles (unat e) (unat t) rest'"
        using 2(3) [of "unat e"] h(2) kData None sp that by simp
      then have "compiled cfg prog (compile_runs cfg ?prog rest') a t (pre @ rest')"
        using pre 2(5)
        by (intro compiled_extend [of a t pre rest' "unat e" "[contiguous_run seg e]" ?prog]) auto
      moreover have "compile_runs cfg prog (seg # rest) = compile_runs cfg ?prog rest'"
        using kData None h(2) sp by simp
      ultimately show ?thesis unfolding pre(1) by simp
    next
      case (Some str)
      obtain taken rest' where sp:
        "row_span seg str (dst_offset seg) (src_offset seg) (seg # rest) = (taken, rest')" by fastforce
      let ?b = "unat (dst_offset seg) + unat (seg_length seg) * length taken"
      let ?prog = "emit_rows cfg (strided_run seg str (of_nat (length taken))) taken
        (prog\<lparr>strided_candidate_runs := strided_candidate_runs prog + 1\<rparr>)"
      obtain new where taken: "tiles a ?b taken" and new: "runs_denote a ?b new taken"
        and rs: "runs ?prog = runs prog @ new"
        and blk: "\<forall>r\<in>set new. block_ok (strided_block_max_bytes cfg) r"
        using strided_step [OF 2(5) kData sp, of cfg
            "prog\<lparr>strided_candidate_runs := strided_candidate_runs prog + 1\<rparr>"] by auto
      have split: "seg # rest = taken @ rest'" using row_span_split [OF sp] .
      have ih: "compiled cfg ?prog (compile_runs cfg ?prog rest') ?b t rest'"
        if "tiles ?b (unat t) rest'"
        using 2(4) [of str ?b] h(2) kData Some that by (simp del: row_span.simps add: sp)
      have "compiled cfg prog (compile_runs cfg ?prog rest') a t (taken @ rest')"
        using compiled_extend [OF _ taken new rs blk ih] 2(5) split by simp
      moreover have "compile_runs cfg prog (seg # rest) = compile_runs cfg ?prog rest'"
        using kData Some h(2) sp by (simp del: row_span.simps)
      ultimately show ?thesis unfolding split by simp
    qed
  qed
qed

section \<open>The cache as a list of the most recently used entries\<close>

definition cache_ok :: "ByteRangeProgramCache \<Rightarrow> bool" where
  "cache_ok c \<longleftrightarrow> 1 \<le> capacity c \<and> distinct (lru c) \<and> distinct (map fst (entries c)) \<and>
     set (lru c) = fst ` set (entries c) \<and> length (lru c) \<le> capacity c"

definition recent :: "ByteRangeProgramCache \<Rightarrow> (CacheKey \<times> CacheEntry) list" where
  "recent c = map (\<lambda>k. (k, the (map_of (entries c) k))) (lru c)"

definition without :: "'k \<Rightarrow> ('k \<times> 'v) list \<Rightarrow> ('k \<times> 'v) list" where
  "without k xs = filter (\<lambda>kv. fst kv \<noteq> k) xs"

definition put_recent :: "nat \<Rightarrow> 'k \<Rightarrow> 'v \<Rightarrow> ('k \<times> 'v) list \<Rightarrow> ('k \<times> 'v) list" where
  "put_recent cap k v xs = take cap ((k, v) # without k xs)"

text \<open>The invariant without the size limit, which eviction restores.\<close>

definition cache_linked :: "ByteRangeProgramCache \<Rightarrow> bool" where
  "cache_linked c \<longleftrightarrow> 1 \<le> capacity c \<and> distinct (lru c) \<and> distinct (map fst (entries c)) \<and>
     set (lru c) = fst ` set (entries c)"

lemma cache_ok_linked: "cache_ok c \<longleftrightarrow> cache_linked c \<and> length (lru c) \<le> capacity c"
  by (auto simp: cache_ok_def cache_linked_def)

lemma linked_length:
  assumes "cache_linked c"
  shows "length (entries c) = length (lru c)"
proof -
  have "distinct (lru c)" "distinct (map fst (entries c))" "set (map fst (entries c)) = set (lru c)"
    using assms by (simp_all add: cache_linked_def)
  then show ?thesis by (metis distinct_card length_map)
qed

lemma evict_one:
  assumes "cache_linked c" "lru c \<noteq> []"
  defines "c' \<equiv> c\<lparr>entries := AList.delete (last (lru c)) (entries c), lru := butlast (lru c)\<rparr>"
  shows "cache_linked c'" "recent c' = butlast (recent c)"
proof -
  have split: "lru c = butlast (lru c) @ [last (lru c)]" using assms(2) by simp
  then have out: "last (lru c) \<notin> set (butlast (lru c))"
    using assms(1) unfolding cache_linked_def by (metis distinct_append disjoint_iff list.set_intros(1))
  have keys: "set (lru c) = set (butlast (lru c)) \<union> {last (lru c)}"
    by (subst split) simp
  show "cache_linked c'"
    using assms(1) out keys
    by (auto simp: cache_linked_def c'_def distinct_butlast distinct_delete alist_delete_keys)
  have "map (\<lambda>k. (k, the (map_of (AList.delete (last (lru c)) (entries c)) k))) (butlast (lru c)) =
      map (\<lambda>k. (k, the (map_of (entries c) k))) (butlast (lru c))"
    using out by (intro map_cong) (auto simp: delete_conv')
  then show "recent c' = butlast (recent c)"
    by (simp add: recent_def c'_def map_butlast)
qed

lemma evict_if_needed_spec:
  assumes "cache_linked c"
  shows "cache_ok (evict_if_needed c) \<and> recent (evict_if_needed c) = take (capacity c) (recent c) \<and>
    capacity (evict_if_needed c) = capacity c \<and> set (entries (evict_if_needed c)) \<subseteq> set (entries c)"
  using assms
proof (induction c rule: evict_if_needed.induct)
  case (1 c)
  have len: "length (entries c) = length (lru c)" using linked_length [OF 1(2)] .
  show ?case
  proof (cases "capacity c < length (entries c) \<and> lru c \<noteq> []")
    case False
    with len have "length (lru c) \<le> capacity c" by auto
    with 1(2) False show ?thesis
      by (subst (1 2 3 4) evict_if_needed.simps)
        (auto simp: cache_ok_linked recent_def evict_if_needed.simps [of c])
  next
    case True
    let ?c = "c\<lparr>entries := AList.delete (last (lru c)) (entries c), lru := butlast (lru c)\<rparr>"
    note one = evict_one [OF 1(2) conjunct2 [OF True]]
    have "take (capacity c) (butlast (recent c)) = take (capacity c) (recent c)"
      using True len by (auto simp: butlast_conv_take recent_def min_def)
    moreover have "set (entries ?c) \<subseteq> set (entries c)"
      using alist_delete_subset by fastforce
    ultimately show ?thesis
      using 1(1) [OF True one(1)] one(2) True by (auto simp: evict_if_needed.simps [of c])
  qed
qed

lemma recent_front:
  assumes "cache_linked c" "key \<in> set (lru c)" "map_of es key = Some v"
    and "\<And>k. k \<noteq> key \<Longrightarrow> map_of es k = map_of (entries c) k"
  shows "recent (c\<lparr>lru := key # remove1 key (lru c), entries := es\<rparr>) = (key, v) # without key (recent c)"
proof -
  have "remove1 key (lru c) = filter (\<lambda>k. k \<noteq> key) (lru c)"
    using assms(1) by (simp add: cache_linked_def distinct_remove1_removeAll removeAll_filter_not_eq
        neq_commute)
  then show ?thesis
    using assms(3,4) by (simp add: recent_def without_def filter_map comp_def)
qed

lemma linked_dom: "cache_linked c \<Longrightarrow> key \<in> set (lru c) \<longleftrightarrow> map_of (entries c) key \<noteq> None"
  by (simp add: cache_linked_def map_of_eq_None_iff)

lemma recent_lookup: "cache_linked c \<Longrightarrow> map_of (recent c) key = map_of (entries c) key"
proof -
  assume c: "cache_linked c"
  have "map_of (map (\<lambda>k. (k, f k)) ks) key = (if key \<in> set ks then Some (f key) else None)"
    for f :: "CacheKey \<Rightarrow> CacheEntry" and ks by (induction ks) auto
  with c show ?thesis
    by (auto simp: recent_def linked_dom)
qed

lemma move_to_front_ok:
  assumes "cache_ok c" "map_of (entries c) key = Some e"
  shows "cache_ok (move_to_front key c)" "recent (move_to_front key c) = (key, e) # without key (recent c)"
proof -
  have l: "cache_linked c" and mem: "key \<in> set (lru c)"
    using assms by (auto simp: cache_ok_linked linked_dom)
  then show "recent (move_to_front key c) = (key, e) # without key (recent c)"
    using recent_front [OF l mem assms(2)] by (simp add: move_to_front_def)
  show "cache_ok (move_to_front key c)"
    using assms(1) mem
    by (auto simp: cache_ok_def move_to_front_def length_remove1 dest: length_pos_if_in_set)
qed

lemma SetCapacity_spec:
  assumes "cache_ok c"
  shows "cache_ok (SetCapacity n c) \<and> recent (SetCapacity n c) = take (max n 1) (recent c) \<and>
    set (entries (SetCapacity n c)) \<subseteq> set (entries c)"
  using evict_if_needed_spec [of "c\<lparr>capacity := max n 1\<rparr>"] assms
  by (auto simp: SetCapacity_def cache_ok_def cache_linked_def recent_def)

lemma Insert_spec:
  assumes "cache_ok c"
  shows "cache_ok (Insert key m p c) \<and>
    recent (Insert key m p c) = put_recent (capacity c) key (cache_entry m p) (recent c) \<and>
    set (entries (Insert key m p c)) \<subseteq> insert (key, cache_entry m p) (set (entries c))"
proof (cases "map_of (entries c) key")
  case None
  let ?c = "c\<lparr>lru := key # lru c, entries := AList.update key (cache_entry m p) (entries c)\<rparr>"
  have l: "cache_linked c" using assms by (simp add: cache_ok_linked)
  have nk: "key \<notin> set (lru c)" using None linked_dom [OF l] by simp
  have upd: "AList.update key v (entries c) = entries c @ [(key, v)]" for v
    using None by (intro alist_update_fresh) (simp add: map_of_eq_None_iff)
  have "cache_linked ?c"
    using l nk None by (auto simp: cache_linked_def upd map_of_eq_None_iff)
  moreover have "recent ?c = (key, cache_entry m p) # recent c"
    using nk by (auto simp: recent_def update_conv')
  moreover have "without key (recent c) = recent c"
    using nk by (auto simp: without_def recent_def filter_id_conv)
  ultimately show ?thesis
    using evict_if_needed_spec [of ?c] None by (auto simp: Insert_def put_recent_def upd)
next
  case (Some e)
  let ?es = "AList.update key (cache_entry m p) (entries c)"
  let ?c = "c\<lparr>entries := ?es\<rparr>"
  have l: "cache_linked c" using assms by (simp add: cache_ok_linked)
  have mem: "key \<in> set (lru c)" using Some linked_dom [OF l] by simp
  have ok: "cache_ok ?c"
    using assms mem by (auto simp: cache_ok_def dom_update distinct_update)
  have rec: "recent (move_to_front key ?c) = (key, cache_entry m p) # without key (recent c)"
    using recent_front [OF l mem, of ?es "cache_entry m p"]
    by (simp add: recent_def move_to_front_def update_conv')
  have front: "cache_ok (move_to_front key ?c)"
    using move_to_front_ok(1) [OF ok] by (simp add: update_conv')
  then have "length (recent (move_to_front key ?c)) \<le> capacity c"
    by (simp add: cache_ok_def recent_def move_to_front_def)
  then have "put_recent (capacity c) key (cache_entry m p) (recent c) =
      (key, cache_entry m p) # without key (recent c)"
    unfolding rec put_recent_def by (rule take_all)
  with Some rec front alist_update_subset [of key "cache_entry m p" "entries c"] show ?thesis
    by (auto simp: Insert_def move_to_front_def)
qed

definition entry_matches :: "ByteRangeMap \<Rightarrow> CacheEntry \<Rightarrow> bool" where
  "entry_matches m e \<longleftrightarrow> entry_total_bytes e = total_bytes m \<and>
     entry_num_sources e = num_sources m \<and> entry_segment_count e = length (segments m)"

lemma Lookup_spec:
  assumes "cache_ok c"
  shows "cache_ok (fst (Lookup key m c)) \<and>
    set (entries (fst (Lookup key m c))) \<subseteq> set (entries c) \<and>
    (case map_of (recent c) key of
       None \<Rightarrow> snd (Lookup key m c) = None \<and> recent (fst (Lookup key m c)) = recent c
     | Some e \<Rightarrow>
         if entry_matches m e
         then snd (Lookup key m c) = Some (entry_program e) \<and>
              recent (fst (Lookup key m c)) = (key, e) # without key (recent c)
         else snd (Lookup key m c) = None \<and>
              recent (fst (Lookup key m c)) = without key (recent c))"
proof (cases "map_of (entries c) key")
  case None
  with assms show ?thesis
    by (simp add: Lookup_def recent_lookup cache_ok_linked)
next
  case (Some e)
  have l: "cache_linked c" using assms by (simp add: cache_ok_linked)
  have lu: "map_of (recent c) key = Some e" using Some l by (simp add: recent_lookup)
  show ?thesis
  proof (cases "entry_matches m e")
    case True
    then have "Lookup key m c = (move_to_front key c, Some (entry_program e))"
      using Some by (simp add: Lookup_def entry_matches_def)
    with True lu move_to_front_ok [OF assms Some] show ?thesis by (simp add: move_to_front_def)
  next
    case False
    let ?c = "c\<lparr>lru := remove1 key (lru c), entries := AList.delete key (entries c)\<rparr>"
    have run: "Lookup key m c = (?c, None)"
      using Some False by (auto simp: Lookup_def entry_matches_def)
    have rm: "remove1 key (lru c) = filter (\<lambda>k. k \<noteq> key) (lru c)"
      using l by (simp add: cache_linked_def distinct_remove1_removeAll removeAll_filter_not_eq
          neq_commute)
    have "cache_ok ?c"
      using assms by (auto simp: cache_ok_def rm alist_delete_keys distinct_delete
          intro: le_trans [OF length_filter_le])
    moreover have "recent ?c = without key (recent c)"
      by (simp add: recent_def without_def rm filter_map comp_def)
    ultimately show ?thesis
      using run False lu alist_delete_subset by fastforce
  qed
qed

section \<open>Cached and fresh programs\<close>

definition compile_uncached ::
  "(u8 list \<Rightarrow> u8 list) \<Rightarrow> ByteMappingConfig \<Rightarrow> ByteRangeMap \<Rightarrow> ByteRangeProgram status_or"
where
  "compile_uncached sha cfg m =
     (case normalize_byte_range_map m of
        Inl e \<Rightarrow> Inl e
      | Inr normalized \<Rightarrow>
        (case fingerprint_byte_range_map sha normalized of
           Inl e \<Rightarrow> Inl e
         | Inr map_fp \<Rightarrow>
             Inr (compile_program cfg (fingerprint_byte_range_config sha cfg) map_fp normalized)))"

text \<open>A sequence of requests, each with its configuration, against one shared cache.\<close>

primrec serve ::
  "(u8 list \<Rightarrow> u8 list) \<Rightarrow> ByteRangeProgramCache \<Rightarrow> (ByteMappingConfig \<times> ByteRangeMap) list
     \<Rightarrow> ByteRangeProgram status_or list"
where
  "serve sha cache [] = []"
| "serve sha cache (req # reqs) =
     (case Compile sha (new_compiler sha (fst req)) (snd req) cache of
        (cache', res) \<Rightarrow> res # serve sha cache' reqs)"

definition request_payloads :: "ByteMappingConfig \<times> ByteRangeMap \<Rightarrow> u8 list set" where
  "request_payloads req =
     insert (config_payload (fst req))
       (case normalize_byte_range_map (snd req) of
          Inl _ \<Rightarrow> {}
        | Inr normalized \<Rightarrow> {fingerprint_payload normalized})"

definition execution_fields :: "ByteMappingConfig \<Rightarrow> bool \<times> u32 \<times> u64 \<times> u32 \<times> u64 \<times> u64" where
  "execution_fields c = (enable_strided_execution c, strided_run_min_ranges c,
     strided_min_row_len_bytes c, strided_max_amplification c, strided_block_target_bytes c,
     strided_block_max_bytes c)"

lemma config_payload_fields:
  "config_payload c1 = config_payload c2 \<longleftrightarrow> execution_fields c1 = execution_fields c2"
  by (auto simp: config_payload_def execution_fields_def append_u32_def append_u64_def
      split: if_splits)

lemma emit_rows_fields:
  assumes "execution_fields c1 = execution_fields c2"
  shows "emit_rows c1 run taken prog = emit_rows c2 run taken prog"
  using assms
  by (simp add: emit_rows_def should_enable_strided_def compute_rows_per_block_def
      execution_fields_def)

lemma compile_runs_fields:
  assumes "execution_fields c1 = execution_fields c2"
  shows "compile_runs c1 prog ss = compile_runs c2 prog ss"
  using assms
proof (induction c1 prog ss rule: compile_runs.induct)
  case (2 c1 prog seg rest)
  then show ?case
    by (simp add: emit_rows_fields [OF 2(5)] del: row_span.simps split: option.split)
qed simp

lemma compile_program_fields:
  "execution_fields c1 = execution_fields c2 \<Longrightarrow>
     compile_program c1 config_fp map_fp m = compile_program c2 config_fp map_fp m"
  by (simp add: compile_program_def compile_runs_fields [of c1 c2])
    (simp add: execution_fields_def)

text \<open>Every entry holds the program of a configuration and a map with payloads in \<open>P\<close>.\<close>

definition entry_key :: "(u8 list \<Rightarrow> u8 list) \<Rightarrow> ByteMappingConfig \<Rightarrow> ByteRangeMap \<Rightarrow> CacheKey" where
  "entry_key sha cfg m =
     \<lparr>key_map_fingerprint = take 16 (sha (fingerprint_payload m)),
      key_config_fingerprint = take 16 (sha (config_payload cfg))\<rparr>"

definition entry_for ::
  "(u8 list \<Rightarrow> u8 list) \<Rightarrow> ByteMappingConfig \<Rightarrow> ByteRangeMap \<Rightarrow> CacheEntry"
where
  "entry_for sha cfg m = cache_entry m
     (compile_program cfg (take 16 (sha (config_payload cfg)))
        (take 16 (sha (fingerprint_payload m))) m)"

definition sound_entry :: "(u8 list \<Rightarrow> u8 list) \<Rightarrow> u8 list set \<Rightarrow> CacheKey \<times> CacheEntry \<Rightarrow> bool" where
  "sound_entry sha P ke \<longleftrightarrow>
     (\<exists>cfg m. ke = (entry_key sha cfg m, entry_for sha cfg m) \<and>
        config_payload cfg \<in> P \<and> fingerprint_payload m \<in> P)"

definition cache_sound :: "(u8 list \<Rightarrow> u8 list) \<Rightarrow> u8 list set \<Rightarrow> ByteRangeProgramCache \<Rightarrow> bool" where
  "cache_sound sha P c \<longleftrightarrow> cache_ok c \<and> (\<forall>ke\<in>set (entries c). sound_entry sha P ke)"

lemma cache_sound_mono:
  "cache_sound sha P c \<Longrightarrow> cache_ok c' \<Longrightarrow> set (entries c') \<subseteq> set (entries c) \<Longrightarrow> cache_sound sha P c'"
  unfolding cache_sound_def by blast

lemma sound_entryI:
  "config_payload cfg \<in> P \<Longrightarrow> fingerprint_payload m \<in> P \<Longrightarrow>
     sound_entry sha P (entry_key sha cfg m, entry_for sha cfg m)"
  unfolding sound_entry_def by blast

lemma cache_sound_Insert:
  assumes "cache_sound sha P c" "config_payload cfg \<in> P" "fingerprint_payload m \<in> P"
  shows "cache_sound sha P (Insert (entry_key sha cfg m) m (entry_program (entry_for sha cfg m)) c)"
proof -
  have "cache_entry m (entry_program (entry_for sha cfg m)) = entry_for sha cfg m"
    by (simp add: entry_for_def cache_entry_def)
  then show ?thesis
    using Insert_spec [of c "entry_key sha cfg m" m "entry_program (entry_for sha cfg m)"]
      assms sound_entryI [OF assms(2,3)] unfolding cache_sound_def by auto
qed

lemma entry_for_unique:
  assumes "inj_on (\<lambda>p. take 16 (sha p)) P" "entry_key sha c1 m1 = entry_key sha c2 m2"
    and "config_payload c1 \<in> P" "config_payload c2 \<in> P"
    and "fingerprint_payload m1 \<in> P" "fingerprint_payload m2 \<in> P"
  shows "entry_for sha c1 m1 = entry_for sha c2 m2"
proof -
  from assms have eq: "config_payload c1 = config_payload c2" "fingerprint_payload m1 = fingerprint_payload m2"
    by (auto simp: entry_key_def dest: inj_onD)
  then have "m1 = m2" "execution_fields c1 = execution_fields c2"
    by (simp_all only: payload_determines config_payload_fields)
  then show ?thesis
    by (simp add: entry_for_def eq(1) compile_program_fields [of c1 c2])
qed

lemma cached_program:
  assumes "cache_sound sha P c" "inj_on (\<lambda>p. take 16 (sha p)) P"
    and "config_payload cfg \<in> P" "fingerprint_payload m \<in> P"
    and "Lookup (entry_key sha cfg m) m c = (c', Some p)"
  shows "p = entry_program (entry_for sha cfg m)"
proof -
  have ok: "cache_ok c" using assms(1) by (simp add: cache_sound_def)
  obtain e where e: "map_of (recent c) (entry_key sha cfg m) = Some e" "p = entry_program e"
    using Lookup_spec [OF ok, of "entry_key sha cfg m" m] assms(5)
    by (auto split: option.splits if_splits)
  then have "(entry_key sha cfg m, e) \<in> set (entries c)"
    using ok recent_lookup [of c] by (auto simp: cache_ok_linked dest: map_of_SomeD)
  then obtain cfg' m' where "entry_key sha cfg m = entry_key sha cfg' m'" "e = entry_for sha cfg' m'"
    "config_payload cfg' \<in> P" "fingerprint_payload m' \<in> P"
    using assms(1) by (auto simp: cache_sound_def sound_entry_def)
  then have "e = entry_for sha cfg m" using entry_for_unique [OF assms(2)] assms(3,4) by metis
  with e(2) show ?thesis by simp
qed

lemma Compile_ok:
  assumes "normalize_byte_range_map m = Inr n" "fingerprint_byte_range_map sha n = Inr fp"
    and "Lookup (entry_key sha cfg n) n (SetCapacity (unat (program_cache_entries cfg)) c) = (c2, hit)"
  shows "compile_uncached sha cfg m = Inr (entry_program (entry_for sha cfg n))"
    and "Compile sha (new_compiler sha cfg) m c =
      (case hit of
         Some p \<Rightarrow> (c2, Inr p)
       | None \<Rightarrow> (Insert (entry_key sha cfg n) n (entry_program (entry_for sha cfg n)) c2,
                  Inr (entry_program (entry_for sha cfg n))))"
proof -
  have "fp = take 16 (sha (fingerprint_payload n))"
    using assms(2) by (auto simp: fingerprint_byte_range_map_def Let_def split: sum.splits if_splits)
  then show "compile_uncached sha cfg m = Inr (entry_program (entry_for sha cfg n))"
    and "Compile sha (new_compiler sha cfg) m c =
      (case hit of
         Some p \<Rightarrow> (c2, Inr p)
       | None \<Rightarrow> (Insert (entry_key sha cfg n) n (entry_program (entry_for sha cfg n)) c2,
                  Inr (entry_program (entry_for sha cfg n))))"
    using assms
    by (simp_all add: Compile_def compile_uncached_def new_compiler_def entry_key_def entry_for_def
        cache_entry_def fingerprint_byte_range_config_def Let_def split: option.split)
qed

lemma Compile_spec:
  assumes "cache_sound sha P c" "inj_on (\<lambda>p. take 16 (sha p)) P" "request_payloads (cfg, m) \<subseteq> P"
  shows "snd (Compile sha (new_compiler sha cfg) m c) = compile_uncached sha cfg m \<and>
    cache_sound sha P (fst (Compile sha (new_compiler sha cfg) m c))"
proof (cases "normalize_byte_range_map m")
  case (Inl e)
  with assms(1) show ?thesis by (simp add: Compile_def compile_uncached_def)
next
  case norm: (Inr n)
  show ?thesis
  proof (cases "fingerprint_byte_range_map sha n")
    case (Inl e)
    with norm assms(1) show ?thesis by (simp add: Compile_def compile_uncached_def)
  next
    case (Inr fp)
    let ?c1 = "SetCapacity (unat (program_cache_entries cfg)) c"
    obtain c2 hit where lu: "Lookup (entry_key sha cfg n) n ?c1 = (c2, hit)" by fastforce
    note run = Compile_ok [OF norm Inr lu]
    have P: "config_payload cfg \<in> P" "fingerprint_payload n \<in> P"
      using assms(3) norm by (auto simp: request_payloads_def)
    have "cache_ok c" using assms(1) by (simp add: cache_sound_def)
    then have s1: "cache_sound sha P ?c1"
      using SetCapacity_spec [of c] cache_sound_mono [OF assms(1)] by blast
    then have s2: "cache_sound sha P c2"
      using Lookup_spec [of ?c1 "entry_key sha cfg n" n] lu by (auto simp: cache_sound_def)
    show ?thesis
    proof (cases hit)
      case None
      with run cache_sound_Insert [OF s2 P] show ?thesis by simp
    next
      case (Some p)
      with run s2 cached_program [OF s1 assms(2) P] lu show ?thesis by simp
    qed
  qed
qed

lemma new_cache_sound: "cache_sound sha P (new_cache n)"
  by (simp add: cache_sound_def cache_ok_def new_cache_def)

lemma serve_fresh:
  assumes "inj_on (\<lambda>p. take 16 (sha p)) P" "\<forall>req\<in>set reqs. request_payloads req \<subseteq> P"
    and "cache_sound sha P c"
  shows "serve sha c reqs = map (\<lambda>(cfg, m). compile_uncached sha cfg m) reqs"
  using assms(2,3)
proof (induction reqs arbitrary: c)
  case (Cons req reqs)
  obtain cfg m where req: "req = (cfg, m)" by fastforce
  obtain c' res where run: "Compile sha (new_compiler sha cfg) m c = (c', res)" by fastforce
  with Compile_spec [OF Cons.prems(2) assms(1), of cfg m] Cons.prems(1) req
  have "res = compile_uncached sha cfg m" "cache_sound sha P c'" by simp_all
  with Cons req run show ?case by simp
qed simp

section \<open>Properties\<close>

text \<open>
  C10. A compiled program does what its map says: its runs follow each other from 0 to the
  total, every destination byte has the origin the map gives it, be it through a contiguous
  or a strided run, and the blocks of a strided run never span more bytes than configured.
\<close>

theorem compiled_program_meaning:
  assumes "compile_uncached sha cfg m = Inr p"
  shows "run_tiles 0 (unat (total_bytes m)) (runs p) \<and> run_starts p = map dst_begin (runs p) \<and>
    (\<forall>d<unat (total_bytes m). runs_origin (runs p) d = origin (segments m) d) \<and>
    (\<forall>r\<in>set (runs p). block_ok (strided_block_max_bytes cfg) r)"
proof -
  from assms obtain n fp where n: "normalize_byte_range_map m = Inr n"
    and p: "p = compile_program cfg (fingerprint_byte_range_config sha cfg) fp n"
    by (auto simp: compile_uncached_def split: sum.splits)
  note norm = normalize_meaning [OF n]
  have "tiles 0 (unat (total_bytes n)) (segments n)"
    using norm(1) by (simp add: canonical_map_def split: if_splits)
  moreover define p0 where "p0 = empty_program\<lparr>prog_total_bytes := total_bytes n,
    map_fingerprint := fp, config_fingerprint := fingerprint_byte_range_config sha cfg,
    prog_block_max_bytes := strided_block_max_bytes cfg\<rparr>"
  ultimately have "compiled cfg p0 (compile_runs cfg p0 (segments n)) 0 (total_bytes n) (segments n)"
    by (intro compile_runs_meaning)
  moreover have "runs p0 = []" by (simp add: p0_def empty_program_def)
  moreover have "p = fill_run_starts (compile_runs cfg p0 (segments n))"
    by (simp add: p compile_program_def p0_def)
  ultimately show ?thesis
    using norm by (auto simp: fill_run_starts_def compiled_def runs_denote_def)
qed

text \<open>
  C11. The program cache is a bounded list of the most recently used entries: setting the
  capacity keeps the most recent ones, an insertion puts its entry in front and drops the
  least recent ones beyond the capacity, a hit moves its entry to the front, a mismatch of
  the stored sizes drops the entry, and every operation keeps list and table in step.
\<close>

theorem cache_refines_recent_list:
  assumes "cache_ok c"
  shows "cache_ok (SetCapacity n c) \<and> recent (SetCapacity n c) = take (max n 1) (recent c) \<and>
    cache_ok (Insert key m p c) \<and>
    recent (Insert key m p c) = put_recent (capacity c) key (cache_entry m p) (recent c) \<and>
    cache_ok (fst (Lookup key m c)) \<and>
    (case map_of (recent c) key of
       None \<Rightarrow> snd (Lookup key m c) = None \<and> recent (fst (Lookup key m c)) = recent c
     | Some e \<Rightarrow>
         if entry_matches m e
         then snd (Lookup key m c) = Some (entry_program e) \<and>
              recent (fst (Lookup key m c)) = (key, e) # without key (recent c)
         else snd (Lookup key m c) = None \<and>
              recent (fst (Lookup key m c)) = without key (recent c))"
  using SetCapacity_spec [OF assms] Insert_spec [OF assms] Lookup_spec [OF assms] by blast

text \<open>
  C12. Caching is transparent. Whatever sequence of compilation requests the shared cache
  serves, under whatever configurations and capacities, each answer equals a fresh
  compilation of that request, provided the truncated digests of the payloads occurring in
  the sequence are pairwise different.
\<close>

theorem cache_transparent:
  assumes "inj_on (\<lambda>p. take 16 (sha p)) (\<Union>req\<in>set reqs. request_payloads req)"
  shows "serve sha (new_cache cap) reqs = map (\<lambda>(cfg, m). compile_uncached sha cfg m) reqs"
  by (rule serve_fresh [OF assms _ new_cache_sound]) blast

section \<open>Examples\<close>

definition ex_config :: ByteMappingConfig where
  "ex_config = \<lparr>enable_strided_execution = True, enable_direct_write_at = True,
     program_cache_entries = 1, strided_run_min_ranges = 2, strided_min_row_len_bytes = 1,
     strided_max_amplification = 8, strided_block_target_bytes = 16, strided_block_max_bytes = 64,
     disk_source_ordered_read = True, disk_source_merge_max_gap_bytes = 0,
     disk_source_merge_max_amplification = 4, disk_source_prefetch_depth = 2\<rparr>"

definition ex_rows :: ByteRangeMap where
  "ex_rows = \<lparr>total_bytes = 8, num_sources = 1, segments =
     [\<lparr>kind = kData, dst_offset = 0, seg_length = 4, src_offset = 0, source_index = 0\<rparr>,
      \<lparr>kind = kData, dst_offset = 4, seg_length = 4, src_offset = 10, source_index = 0\<rparr>]\<rparr>"

lemma ex_rows_normal: "normalize_byte_range_map ex_rows = Inr ex_rows"
  by (simp add: normalize_byte_range_map_def normalize_sorted_by_def ex_rows_def
      validate_total_bytes_def seg_end_def can_merge_def u64_simps)

lemma ex_payload: "length (fingerprint_payload ex_rows) = 98"
  by (simp add: fingerprint_payload_eq ex_rows_def ascii_bytes_def)

definition ex_program :: ByteRangeProgram where
  "ex_program = compile_program ex_config (take 16 (config_payload ex_config))
     (take 16 (fingerprint_payload ex_rows)) ex_rows"

lemma ex_valid: "validate_total_bytes ex_rows = ok_status"
  by (simp add: validate_total_bytes_def ex_rows_def)

lemma ex_compiled: "compile_uncached id ex_config ex_rows = Inr ex_program"
  by (simp add: compile_uncached_def ex_rows_normal fingerprint_byte_range_map_def ex_payload
      ex_program_def fingerprint_byte_range_config_def ex_valid Let_def)

lemma ex_runs: "map run_kind (runs ex_program) = [kStrided]"
  by (simp add: ex_program_def compile_program_def ex_rows_def empty_program_def fill_run_starts_def
      strided_candidate_def seg_end_def emit_rows_def ex_config_def should_enable_strided_def
      strided_run_def default_run_def amplification_within_limit_def u64_simps)

theorem compiled_program_meaning_witness:
  "run_tiles 0 8 (runs ex_program) \<and> map run_kind (runs ex_program) = [kStrided] \<and>
   map (runs_origin (runs ex_program)) [0..<8] = map (origin (segments ex_rows)) [0..<8]"
  using compiled_program_meaning [OF ex_compiled] ex_runs by (simp add: ex_rows_def)

definition ex_key :: CacheKey where
  "ex_key = \<lparr>key_map_fingerprint = [], key_config_fingerprint = []\<rparr>"

theorem cache_refines_recent_list_witness:
  "cache_ok (Insert ex_key ex_rows ex_program (new_cache 0)) \<and>
   recent (Insert ex_key ex_rows ex_program (new_cache 0)) =
     [(ex_key, cache_entry ex_rows ex_program)]"
  using cache_refines_recent_list [of "new_cache 0" 0 ex_key ex_rows ex_program]
  by (simp add: cache_ok_def new_cache_def put_recent_def recent_def without_def)

theorem cache_transparent_witness:
  "serve id (new_cache 256) [(ex_config, ex_rows), (ex_config, ex_rows)] =
     [Inr ex_program, Inr ex_program]"
  using cache_transparent [of id "[(ex_config, ex_rows), (ex_config, ex_rows)]" 256]
  by (simp add: request_payloads_def ex_rows_normal ex_compiled inj_on_def fingerprint_payload_eq
      config_payload_def append_u32_def append_u64_def ascii_bytes_def)

end
