(* ===== verification/Device_Keys.thy ===== *)
theory Device_Keys
  imports TC_Prelude
begin

text \<open>
  Device identities: \<open>DeviceKey\<close> and \<open>MemoryLocation\<close> (\<open>core/store/device_types.h\<close>,
  \<open>core/common/device_types.h\<close>, \<open>core/common/memory/memory_location.h\<close>), the replica key of
  \<open>loading_spec.h\<close> and the registry that completes GPU keys
  (\<open>core/store/device_registry.{h,cc}\<close>).
\<close>

datatype DeviceType = DeviceCPU | DeviceGPU | DeviceREMOTE | DeviceDISK | DeviceNONE

datatype MemoryLocation = LocNONE | LocDISK | LocGPU | LocCPU | LocREMOTE

record DeviceKey =
  dev_type :: DeviceType
  ordinal :: int
  uuid :: string

record Location =
  loc_type :: MemoryLocation
  loc_device_id :: int
  loc_device_uuid :: string

definition to_device_key :: "Location \<Rightarrow> DeviceKey" where
  "to_device_key l =
     (if loc_type l = LocGPU
      then \<lparr>dev_type = DeviceGPU, ordinal = loc_device_id l, uuid = loc_device_uuid l\<rparr>
      else if loc_type l = LocCPU \<or> loc_type l = LocDISK
      then \<lparr>dev_type = DeviceCPU, ordinal = - 1, uuid = []\<rparr>
      else \<lparr>dev_type = DeviceCPU, ordinal = - 1, uuid = []\<rparr>)"

record ReplicaKey =
  artifact_id :: string
  view_id :: "string option"
  device :: DeviceKey
  replica :: u32

section \<open>The device registry\<close>

record DeviceRegistry =
  ordinal_to_uuid :: "int \<rightharpoonup> string"
  uuid_to_ordinal :: "string \<rightharpoonup> int"

definition new_registry :: DeviceRegistry where
  "new_registry = \<lparr>ordinal_to_uuid = Map.empty, uuid_to_ordinal = Map.empty\<rparr>"

definition register_gpu :: "int \<Rightarrow> string \<Rightarrow> DeviceRegistry \<Rightarrow> DeviceRegistry" where
  "register_gpu ord u reg =
     (let reg1 = reg\<lparr>ordinal_to_uuid := (ordinal_to_uuid reg)(ord \<mapsto> u)\<rparr>
      in if u \<noteq> [] then reg1\<lparr>uuid_to_ordinal := (uuid_to_ordinal reg1)(u \<mapsto> ord)\<rparr> else reg1)"

definition gpu_key :: "DeviceRegistry \<Rightarrow> int \<Rightarrow> DeviceKey" where
  "gpu_key reg ord =
     \<lparr>dev_type = DeviceGPU, ordinal = ord,
      uuid = (case ordinal_to_uuid reg ord of None \<Rightarrow> [] | Some u \<Rightarrow> u)\<rparr>"

definition normalize_device :: "DeviceRegistry \<Rightarrow> DeviceKey \<Rightarrow> DeviceKey" where
  "normalize_device reg k =
     (if dev_type k \<noteq> DeviceGPU then k
      else if uuid k \<noteq> [] then
        (case uuid_to_ordinal reg (uuid k) of
           Some ord \<Rightarrow> \<lparr>dev_type = DeviceGPU, ordinal = ord, uuid = uuid k\<rparr>
         | None \<Rightarrow> k)
      else
        (case ordinal_to_uuid reg (ordinal k) of
           Some u \<Rightarrow> \<lparr>dev_type = DeviceGPU, ordinal = ordinal k, uuid = u\<rparr>
         | None \<Rightarrow> k))"

text \<open>Two different ordinals never get the same key.\<close>

lemma gpu_key_inj [simp]: "gpu_key reg a = gpu_key reg b \<longleftrightarrow> a = b"
  by (auto simp: gpu_key_def)

text \<open>
  A registry is consistent when the two tables are inverse to each other. It stays so as long
  as a registration reuses neither an ordinal under another identifier nor an identifier
  under another ordinal.
\<close>

definition registry_ok :: "DeviceRegistry \<Rightarrow> bool" where
  "registry_ok reg \<longleftrightarrow>
     (\<forall>ord u. u \<noteq> [] \<longrightarrow> (ordinal_to_uuid reg ord = Some u \<longleftrightarrow> uuid_to_ordinal reg u = Some ord))"

lemma register_gpu_ok:
  assumes "registry_ok reg" "ordinal_to_uuid reg ord \<in> {None, Some [], Some u}"
    and "uuid_to_ordinal reg u \<in> {None, Some ord}"
  shows "registry_ok (register_gpu ord u reg)"
  unfolding registry_ok_def
proof (intro allI impI)
  fix o' :: int and u' :: string
  assume ne: "u' \<noteq> []"
  from assms(1) ne have eq: "ordinal_to_uuid reg x = Some u' \<longleftrightarrow> uuid_to_ordinal reg u' = Some x" for x
    by (simp add: registry_ok_def)
  show "ordinal_to_uuid (register_gpu ord u reg) o' = Some u' \<longleftrightarrow>
      uuid_to_ordinal (register_gpu ord u reg) u' = Some o'"
    using eq [of o'] eq [of ord] ne assms(2,3) by (auto simp: register_gpu_def Let_def)
qed

lemma normalize_gpu_key:
  assumes "registry_ok reg"
  shows "normalize_device reg (gpu_key reg ord) = gpu_key reg ord"
  using assms
  by (auto simp: normalize_device_def gpu_key_def registry_ok_def split: option.splits)

text \<open>
  C15. Normalising a device key is idempotent in a consistent registry, and the canonical key
  of every GPU ordinal is its own normal form, whether it is looked up by ordinal alone or by
  identifier alone.
\<close>

theorem device_normal_form:
  assumes "registry_ok reg"
  shows "normalize_device reg (normalize_device reg k) = normalize_device reg k \<and>
    normalize_device reg \<lparr>dev_type = DeviceGPU, ordinal = ord, uuid = []\<rparr> = gpu_key reg ord \<and>
    (ordinal_to_uuid reg ord = Some u \<and> u \<noteq> [] \<longrightarrow>
       normalize_device reg \<lparr>dev_type = DeviceGPU, ordinal = other, uuid = u\<rparr> = gpu_key reg ord)"
proof -
  have "normalize_device reg (normalize_device reg k) = normalize_device reg k"
    using assms by (auto simp: normalize_device_def registry_ok_def split: option.splits)
  moreover have "normalize_device reg \<lparr>dev_type = DeviceGPU, ordinal = ord, uuid = []\<rparr> = gpu_key reg ord"
    by (auto simp: normalize_device_def gpu_key_def split: option.splits)
  moreover have "ordinal_to_uuid reg ord = Some u \<and> u \<noteq> [] \<longrightarrow>
      normalize_device reg \<lparr>dev_type = DeviceGPU, ordinal = other, uuid = u\<rparr> = gpu_key reg ord"
    using assms by (auto simp: normalize_device_def gpu_key_def registry_ok_def split: option.splits)
  ultimately show ?thesis by blast
qed

definition ex_registry :: DeviceRegistry where
  "ex_registry = register_gpu 1 ''B'' (register_gpu 0 ''A'' new_registry)"

lemma ex_registry_ok: "registry_ok ex_registry"
  unfolding ex_registry_def
  by (intro register_gpu_ok)
    (auto simp: registry_ok_def new_registry_def register_gpu_def)

theorem device_normal_form_witness:
  "normalize_device ex_registry \<lparr>dev_type = DeviceGPU, ordinal = 7, uuid = ''B''\<rparr> =
     gpu_key ex_registry 1"
proof -
  have "ordinal_to_uuid ex_registry 1 = Some ''B''"
    by (simp add: ex_registry_def register_gpu_def new_registry_def)
  with device_normal_form [OF ex_registry_ok, of _ 1 "''B''" 7] show ?thesis by blast
qed

text \<open>
  Registering an ordinal again under another identifier leaves the old identifier in the
  reverse table: its key then names an ordinal that belongs to the new device.
\<close>

lemma reregister_keeps_stale_uuid:
  "normalize_device (register_gpu 0 ''B'' (register_gpu 0 ''A'' new_registry))
     \<lparr>dev_type = DeviceGPU, ordinal = 0, uuid = ''A''\<rparr> =
   \<lparr>dev_type = DeviceGPU, ordinal = 0, uuid = ''A''\<rparr> \<and>
   gpu_key (register_gpu 0 ''B'' (register_gpu 0 ''A'' new_registry)) 0 =
   \<lparr>dev_type = DeviceGPU, ordinal = 0, uuid = ''B''\<rparr>"
  by (simp add: normalize_device_def gpu_key_def register_gpu_def new_registry_def)

end
