(* ===== verification/Memory_Tier.thy ===== *)
theory Memory_Tier
  imports TC_Prelude
begin

text \<open>
  The stable/preemptible memory budget (\<open>core/store/memory_tier_budget.{h,cc}\<close>,
  \<open>memory_tier_config.h\<close>). The locale \<open>stable_budget\<close> is what the memory authority relies on
  when it reserves and returns bytes; its interpretation discharges it for the code's budget.
  The fault rate of a snapshot is a floating-point telemetry value and is left out.
\<close>

section \<open>Configuration and state\<close>

record MemoryTierConfig =
  enable_preemptible_memory :: bool
  stable_bytes :: u64
  preemptible_limit_bytes :: u64

record MemoryTierBudget =
  stable_total_bytes :: u64
  preemptible_total_bytes :: u64
  stable_used_bytes :: u64
  preemptible_marked_bytes :: u64
  fault_count :: u64
  rehydrate_samples_ns :: "u64 list"

record Snapshot =
  snap_stable_total :: u64
  snap_stable_used :: u64
  snap_preemptible_total :: u64
  snap_preemptible_marked :: u64
  snap_rehydrate_p99 :: u64

definition new_budget :: "u64 \<Rightarrow> u64 \<Rightarrow> MemoryTierBudget" where
  "new_budget stable_total preemptible_total =
     \<lparr>stable_total_bytes = stable_total, preemptible_total_bytes = preemptible_total,
      stable_used_bytes = 0, preemptible_marked_bytes = 0, fault_count = 0,
      rehydrate_samples_ns = []\<rparr>"

text \<open>The move constructor: the new budget and the budget it was moved from.\<close>

definition move_budget :: "MemoryTierBudget \<Rightarrow> MemoryTierBudget \<times> MemoryTierBudget" where
  "move_budget other =
     ((new_budget (stable_total_bytes other) (preemptible_total_bytes other))\<lparr>
        stable_used_bytes := stable_used_bytes other,
        preemptible_marked_bytes := preemptible_marked_bytes other,
        fault_count := fault_count other,
        rehydrate_samples_ns := rehydrate_samples_ns other\<rparr>,
      other\<lparr>stable_used_bytes := 0, preemptible_marked_bytes := 0, fault_count := 0,
        rehydrate_samples_ns := []\<rparr>)"

section \<open>Operations\<close>

definition try_acquire_stable :: "u64 \<Rightarrow> MemoryTierBudget \<Rightarrow> MemoryTierBudget \<times> status" where
  "try_acquire_stable bytes b =
     (if bytes = 0 then (b, ok_status)
      else if stable_total_bytes b < bytes \<or>
              stable_total_bytes b - stable_used_bytes b < bytes
      then (b, Inl (Err ResourceExhausted ''Insufficient stable bytes''))
      else (b\<lparr>stable_used_bytes := stable_used_bytes b + bytes\<rparr>, ok_status))"

definition release_stable :: "u64 \<Rightarrow> MemoryTierBudget \<Rightarrow> MemoryTierBudget" where
  "release_stable bytes b =
     (if bytes = 0 then b
      else if stable_used_bytes b \<le> bytes then b\<lparr>stable_used_bytes := 0\<rparr>
      else b\<lparr>stable_used_bytes := stable_used_bytes b - bytes\<rparr>)"

definition set_preemptible_marked_bytes :: "u64 \<Rightarrow> MemoryTierBudget \<Rightarrow> MemoryTierBudget" where
  "set_preemptible_marked_bytes bytes b = b\<lparr>preemptible_marked_bytes := bytes\<rparr>"

definition record_fault :: "MemoryTierBudget \<Rightarrow> MemoryTierBudget" where
  "record_fault b = b\<lparr>fault_count := fault_count b + 1\<rparr>"

definition kMaxRehydrateSamples :: nat where
  "kMaxRehydrateSamples = 256"

definition record_rehydrate_latency :: "u64 \<Rightarrow> MemoryTierBudget \<Rightarrow> MemoryTierBudget" where
  "record_rehydrate_latency latency_ns b =
     (if latency_ns = 0 then b
      else b\<lparr>rehydrate_samples_ns :=
             (if kMaxRehydrateSamples \<le> length (rehydrate_samples_ns b)
              then tl (rehydrate_samples_ns b) else rehydrate_samples_ns b) @ [latency_ns]\<rparr>)"

text \<open>
  \<open>ceil(n * 0.99) - 1\<close>, clamped; for the at most 256 samples of the window the floating-point
  product rounds to the same integer as the exact one. \<open>std::nth_element\<close> puts at the index
  the element that sorting would put there.
\<close>

definition p99_index :: "nat \<Rightarrow> nat" where
  "p99_index n = min ((99 * n + 99) div 100 - 1) (n - 1)"

definition rehydrate_p99 :: "u64 list \<Rightarrow> u64" where
  "rehydrate_p99 samples = (if samples = [] then 0 else sort samples ! p99_index (length samples))"

definition snapshot :: "MemoryTierBudget \<Rightarrow> Snapshot" where
  "snapshot b =
     \<lparr>snap_stable_total = stable_total_bytes b, snap_stable_used = stable_used_bytes b,
      snap_preemptible_total = preemptible_total_bytes b,
      snap_preemptible_marked = preemptible_marked_bytes b,
      snap_rehydrate_p99 = rehydrate_p99 (rehydrate_samples_ns b)\<rparr>"

definition compute_uma_capacity :: "u64 \<Rightarrow> u64 \<Rightarrow> u64 status_or" where
  "compute_uma_capacity host_dram_bytes pinned_pool_bytes =
     (if host_dram_bytes < pinned_pool_bytes
      then Inl (Err InvalidArgument ''Pinned pool bytes exceed detected host DRAM'')
      else Inr (host_dram_bytes - pinned_pool_bytes))"

definition from_config :: "MemoryTierConfig \<Rightarrow> u64 \<Rightarrow> u64 \<Rightarrow> MemoryTierBudget status_or" where
  "from_config config host_dram_bytes pinned_pool_bytes =
     (case compute_uma_capacity host_dram_bytes pinned_pool_bytes of
        Inl e \<Rightarrow> Inl e
      | Inr uma_cap \<Rightarrow>
          if stable_bytes config = 0
          then Inl (Err InvalidArgument ''engine.memory_tiers.stable_bytes must be greater than 0'')
          else if uma_cap < stable_bytes config
          then Inl (Err InvalidArgument ''engine.memory_tiers.stable_bytes exceeds UMA capacity'')
          else Inr (new_budget (stable_bytes config)
                 (if enable_preemptible_memory config then preemptible_limit_bytes config else 0)))"

section \<open>The budget interface\<close>

text \<open>
  A client of a budget and its outstanding reservations: a successful acquisition adds one, a
  release returns one that the client holds.
\<close>

datatype budget_op = Acquire u64 | Release u64

fun ledger_step ::
  "(u64 \<Rightarrow> 'b \<Rightarrow> 'b \<times> status) \<Rightarrow> (u64 \<Rightarrow> 'b \<Rightarrow> 'b) \<Rightarrow> budget_op \<Rightarrow> 'b \<times> u64 list \<Rightarrow> 'b \<times> u64 list"
where
  "ledger_step acquire release (Acquire n) (b, held) =
     (if is_ok (snd (acquire n b)) then (fst (acquire n b), n # held) else (fst (acquire n b), held))"
| "ledger_step acquire release (Release n) (b, held) =
     (if n \<in> set held then (release n b, remove1 n held) else (b, held))"

locale stable_budget =
  fixes acquire :: "u64 \<Rightarrow> 'b \<Rightarrow> 'b \<times> status"
    and release :: "u64 \<Rightarrow> 'b \<Rightarrow> 'b"
    and used :: "'b \<Rightarrow> u64"
    and limit :: "'b \<Rightarrow> u64"
  assumes acquire_ok: "used b \<le> limit b \<Longrightarrow>
      is_ok (snd (acquire n b)) \<longleftrightarrow> unat (used b) + unat n \<le> unat (limit b)"
    and acquire_used: "used b \<le> limit b \<Longrightarrow> is_ok (snd (acquire n b)) \<Longrightarrow>
      unat (used (fst (acquire n b))) = unat (used b) + unat n"
    and acquire_fail: "\<not> is_ok (snd (acquire n b)) \<Longrightarrow> fst (acquire n b) = b"
    and acquire_limit: "limit (fst (acquire n b)) = limit b"
    and release_used: "unat (used (release n b)) = unat (used b) - unat n"
    and release_limit: "limit (release n b) = limit b"
begin

lemma acquire_within:
  assumes "used b \<le> limit b"
  shows "used (fst (acquire n b)) \<le> limit (fst (acquire n b))"
proof (cases "is_ok (snd (acquire n b))")
  case True
  then show ?thesis
    using acquire_ok [OF assms] acquire_used [OF assms True]
    by (simp add: acquire_limit word_le_nat_alt)
qed (use assms acquire_fail in simp)

lemma release_within: "used b \<le> limit b \<Longrightarrow> used (release n b) \<le> limit (release n b)"
  using release_used [of n b] by (simp add: release_limit word_le_nat_alt)

lemma acquire_release:
  assumes "used b \<le> limit b" "is_ok (snd (acquire n b))"
  shows "used (release n (fst (acquire n b))) = used b"
proof -
  have "unat (used (release n (fst (acquire n b)))) = unat (used b)"
    using acquire_used [OF assms] by (simp add: release_used)
  then show ?thesis by (simp only: unat_word_eq)
qed

lemma ledger_step_inv:
  assumes "used b \<le> limit b" "unat (used b) = k + sum_list (map unat held)"
    and "ledger_step acquire release op (b, held) = (b', held')"
  shows "used b' \<le> limit b' \<and> limit b' = limit b \<and> unat (used b') = k + sum_list (map unat held')"
proof (cases op)
  case (Acquire n)
  with assms show ?thesis
    using acquire_within [OF assms(1), of n] acquire_used [OF assms(1), of n] acquire_limit [of n b]
      acquire_fail [of n b]
    by (auto split: if_splits)
next
  case (Release n)
  show ?thesis
  proof (cases "n \<in> set held")
    case True
    then have "sum_list (map unat held) = unat n + sum_list (map unat (remove1 n held))"
      by (simp add: sum_list_map_remove1)
    with True Release assms release_within [OF assms(1), of n] show ?thesis
      by (auto simp: release_used release_limit)
  qed (use Release assms in auto)
qed

lemma ledger_run:
  assumes "used b \<le> limit b" "unat (used b) = k + sum_list (map unat held)"
    and "fold (ledger_step acquire release) ops (b, held) = (b', held')"
  shows "used b' \<le> limit b' \<and> limit b' = limit b \<and> unat (used b') = k + sum_list (map unat held')"
  using assms
proof (induction ops arbitrary: b held)
  case (Cons op ops)
  obtain b1 held1 where step: "ledger_step acquire release op (b, held) = (b1, held1)" by fastforce
  from ledger_step_inv [OF Cons.prems(1,2) step] Cons.IH [of b1 held1] Cons.prems(3) step
  show ?case by auto
qed simp

end

lemma try_acquire_ok_iff:
  assumes "stable_used_bytes b \<le> stable_total_bytes b"
  shows "is_ok (snd (try_acquire_stable n b)) \<longleftrightarrow>
    unat (stable_used_bytes b) + unat n \<le> unat (stable_total_bytes b)"
proof -
  have "unat (stable_total_bytes b - stable_used_bytes b) =
      unat (stable_total_bytes b) - unat (stable_used_bytes b)"
    using assms by (rule unat_u64_sub)
  with assms show ?thesis
    by (auto simp: try_acquire_stable_def word_less_nat_alt word_le_nat_alt)
qed

lemma try_acquire_used:
  assumes "stable_used_bytes b \<le> stable_total_bytes b" "is_ok (snd (try_acquire_stable n b))"
  shows "unat (stable_used_bytes (fst (try_acquire_stable n b))) =
    unat (stable_used_bytes b) + unat n"
proof -
  have "unat (stable_used_bytes b + n) = unat (stable_used_bytes b) + unat n"
    using try_acquire_ok_iff [OF assms(1), of n] assms(2) by (intro unat_u64_add_le) blast
  with assms(2) show ?thesis by (auto simp: try_acquire_stable_def split: if_splits)
qed

interpretation budget: stable_budget try_acquire_stable release_stable
    stable_used_bytes stable_total_bytes
proof
  show "unat (stable_used_bytes (release_stable n b)) = unat (stable_used_bytes b) - unat n" for n b
    by (auto simp: release_stable_def word_le_nat_alt unat_sub)
qed (use try_acquire_ok_iff try_acquire_used in
      \<open>auto simp: try_acquire_stable_def release_stable_def\<close>)

section \<open>Properties\<close>

text \<open>
  C13. Accounting of stable bytes. From a fresh budget, whatever a client acquires and gives
  back, the used bytes are exactly the sum of the reservations it holds, never exceed the
  configured total, and the total never changes; no 64-bit sum wraps.
\<close>

theorem budget_accounts_reservations:
  assumes "fold (ledger_step try_acquire_stable release_stable) ops (new_budget cap pre, []) =
    (b, held)"
  shows "unat (stable_used_bytes b) = sum_list (map unat held) \<and>
    stable_used_bytes b \<le> stable_total_bytes b \<and> stable_total_bytes b = cap"
  using budget.ledger_run [OF _ _ assms, of 0] by (auto simp: new_budget_def)

lemma sort_prefix_le:
  assumes "i < length xs"
  shows "Suc i \<le> length (filter (\<lambda>x. x \<le> sort xs ! i) (xs :: u64 list))"
proof -
  let ?P = "\<lambda>x. x \<le> sort xs ! i"
  have "\<forall>x\<in>set (take (Suc i) (sort xs)). ?P x"
    using assms by (auto simp: in_set_conv_nth sorted_nth_mono less_Suc_eq_le)
  then have "length (filter ?P (take (Suc i) (sort xs))) = Suc i"
    using assms by (simp add: filter_id_conv [THEN iffD2])
  moreover have "length (filter ?P (take (Suc i) (sort xs))) \<le> length (filter ?P (sort xs))"
    by (subst (2) append_take_drop_id [of "Suc i" "sort xs", symmetric])
      (simp only: filter_append length_append le_add1)
  moreover have "mset (filter ?P (sort xs)) = mset (filter ?P xs)" by simp
  then have "length (filter ?P (sort xs)) = length (filter ?P xs)" by (rule mset_eq_length)
  ultimately show ?thesis by simp
qed

lemma sort_prefix_less:
  assumes "i < length xs"
  shows "length (filter (\<lambda>x. x < sort xs ! i) (xs :: u64 list)) \<le> i"
proof -
  let ?P = "\<lambda>x. x < sort xs ! i"
  have "\<forall>x\<in>set (drop i (sort xs)). \<not> ?P x"
    using assms by (auto simp: in_set_conv_nth not_less sorted_nth_mono [OF sorted_sort])
  then have "filter ?P (drop i (sort xs)) = []" by (simp add: filter_empty_conv)
  then have "filter ?P (sort xs) = filter ?P (take i (sort xs))"
    by (subst append_take_drop_id [of i "sort xs", symmetric]) (simp only: filter_append append_Nil2)
  then have "length (filter ?P (sort xs)) \<le> i"
    using length_filter_le [of ?P "take i (sort xs)"] by simp
  moreover have "mset (filter ?P (sort xs)) = mset (filter ?P xs)" by simp
  then have "length (filter ?P (sort xs)) = length (filter ?P xs)" by (rule mset_eq_length)
  ultimately show ?thesis by simp
qed

text \<open>The nearest-rank percentile: what lies at or below it, and what lies below it.\<close>

lemma rehydrate_p99_rank:
  assumes "samples \<noteq> []"
  shows "rehydrate_p99 samples \<in> set samples"
    "99 * length samples \<le> 100 * length (filter (\<lambda>x. x \<le> rehydrate_p99 samples) samples)"
    "100 * length (filter (\<lambda>x. x < rehydrate_p99 samples) samples) < 99 * length samples"
proof -
  let ?n = "length samples" and ?i = "p99_index (length samples)"
  have pos: "0 < ?n" using assms by simp
  have "?i \<le> ?n - 1" unfolding p99_index_def by (rule min.cobounded2)
  with pos have i: "?i < ?n" by linarith
  have v: "rehydrate_p99 samples = sort samples ! ?i" using assms by (simp add: rehydrate_p99_def)
  show "rehydrate_p99 samples \<in> set samples" unfolding v using i by (metis length_sort nth_mem set_sort)
  have "99 * ?n \<le> 100 * Suc ?i" using pos by (simp add: p99_index_def min_def) linarith
  moreover have "Suc ?i \<le> length (filter (\<lambda>x. x \<le> sort samples ! ?i) samples)" by (rule sort_prefix_le [OF i])
  ultimately show "99 * ?n \<le> 100 * length (filter (\<lambda>x. x \<le> rehydrate_p99 samples) samples)"
    unfolding v by (meson le_trans mult_le_mono2)
  have "?i \<le> (99 * ?n + 99) div 100 - 1" unfolding p99_index_def by (rule min.cobounded1)
  then have "100 * ?i < 99 * ?n" using pos by linarith
  moreover have "length (filter (\<lambda>x. x < sort samples ! ?i) samples) \<le> ?i" by (rule sort_prefix_less [OF i])
  ultimately show "100 * length (filter (\<lambda>x. x < rehydrate_p99 samples) samples) < 99 * ?n"
    unfolding v by (meson le_less_trans mult_le_mono2)
qed

lemma window_step:
  assumes "rehydrate_samples_ns b = drop (length ls - 256) ls" "l \<noteq> 0"
  shows "rehydrate_samples_ns (record_rehydrate_latency l b) =
    drop (length (ls @ [l]) - 256) (ls @ [l])"
proof (cases "256 \<le> length ls")
  case True
  then have "length (ls @ [l]) - 256 = Suc (length ls - 256)" by simp
  with True assms show ?thesis
    by (simp add: record_rehydrate_latency_def kMaxRehydrateSamples_def tl_drop drop_Suc)
qed (use assms in \<open>simp add: record_rehydrate_latency_def kMaxRehydrateSamples_def\<close>)

lemma window_recent:
  assumes "rehydrate_samples_ns b = drop (length ms - 256) ms"
  shows "rehydrate_samples_ns (fold record_rehydrate_latency ls b) =
    drop (length (ms @ filter (\<lambda>l. l \<noteq> 0) ls) - 256) (ms @ filter (\<lambda>l. l \<noteq> 0) ls)"
  using assms
proof (induction ls arbitrary: b ms)
  case (Cons l ls)
  show ?case
  proof (cases "l = 0")
    case True
    with Cons show ?thesis by (simp add: record_rehydrate_latency_def)
  next
    case False
    from Cons.IH [OF window_step [OF Cons.prems False]] False show ?thesis by simp
  qed
qed simp

text \<open>
  C14. Rehydration latencies. After recording any latencies the window holds the last 256
  non-zero ones in order, and a snapshot reports their 99th percentile by nearest rank: one of
  the samples, such that at least 99 percent of the window is at or below it and less than 99
  percent is strictly below it (0 for an empty window).
\<close>

theorem snapshot_p99:
  "let b = fold record_rehydrate_latency ls (new_budget cap pre);
       recorded = filter (\<lambda>l. l \<noteq> 0) ls;
       samples = rehydrate_samples_ns b;
       p99 = snap_rehydrate_p99 (snapshot b)
   in samples = drop (length recorded - 256) recorded \<and>
    (if recorded = [] then p99 = 0
     else p99 \<in> set samples \<and>
       99 * length samples \<le> 100 * length (filter (\<lambda>x. x \<le> p99) samples) \<and>
       100 * length (filter (\<lambda>x. x < p99) samples) < 99 * length samples)"
proof -
  define b where "b = fold record_rehydrate_latency ls (new_budget cap pre)"
  define recorded where "recorded = filter (\<lambda>l. l \<noteq> 0) ls"
  define samples where "samples = rehydrate_samples_ns b"
  have win: "samples = drop (length recorded - 256) recorded"
    using window_recent [of "new_budget cap pre" "[]" ls]
    by (simp add: samples_def b_def recorded_def new_budget_def)
  have v: "snap_rehydrate_p99 (snapshot b) = rehydrate_p99 samples" by (simp add: snapshot_def samples_def)
  have ne: "samples = [] \<longleftrightarrow> recorded = []" unfolding win by (cases recorded) auto
  show ?thesis
  proof (cases "recorded = []")
    case True
    with ne have "rehydrate_p99 samples = 0" by (simp add: rehydrate_p99_def)
    with True win v show ?thesis
      unfolding Let_def b_def [symmetric] recorded_def [symmetric] samples_def [symmetric] by simp
  next
    case False
    with ne rehydrate_p99_rank [of samples] win v show ?thesis
      unfolding Let_def b_def [symmetric] recorded_def [symmetric] samples_def [symmetric] by simp
  qed
qed

theorem budget_accounts_reservations_witness:
  "stable_used_bytes (fst (fold (ledger_step try_acquire_stable release_stable)
     [Acquire 6, Acquire 5, Acquire 3, Release 6] (new_budget 10 0, []))) = 3"
proof -
  have run: "fold (ledger_step try_acquire_stable release_stable)
      [Acquire 6, Acquire 5, Acquire 3, Release 6] (new_budget 10 0, []) =
      ((new_budget 10 0)\<lparr>stable_used_bytes := 3\<rparr>, [3])"
    by (simp add: try_acquire_stable_def release_stable_def new_budget_def u64_simps)
  from budget_accounts_reservations [OF run] show ?thesis unfolding run by simp
qed

end
