(* ===== verification/UMA_State.thy ===== *)
theory UMA_State
  imports Device_Keys Memory_Tier
begin

text \<open>
  State and helpers of the unified memory authority
  (\<open>core/store/replica/unified_memory_authority.{h,cc}\<close>, \<open>chunk_state.h\<close>): chunk records,
  replica allocations, sessions, the coalescing of chunk indices into runs, chunk sizes and
  the residency check. Operating-system calls are parameters: what \<open>mincore\<close>
  reports.
\<close>

section \<open>Chunk records and allocations\<close>

datatype ChunkState = HOT | STABLE | LOCKED_TX | COPIED_GPU | COLD | EVICTED | PREEMPTIBLE

record ChunkRecord =
  chunk_idx :: u32
  cpu :: ChunkState
  gpu :: "DeviceKey \<rightharpoonup> ChunkState"
  exported_cpu :: bool
  exported_gpu :: "DeviceKey \<rightharpoonup> bool"
  pin_refcnt :: u32
  stable_lease_count :: u32
  last_access_ns :: u64
  rec_version :: u64

record CpuRegion =
  region_base :: u64
  region_bytes :: u64
  region_memfd :: int
  region_offset_bytes :: u64

record ReplicaAllocation =
  cpu_region :: CpuRegion
  mlock_refcnt :: "u32 list"
  gpu_allocations :: "(DeviceKey \<times> u64) list"
  chunk_records :: "ChunkRecord list"
  alloc_bytes :: u64
  num_chunks :: u64
  loaded_chunk_counts :: "DeviceKey \<rightharpoonup> u64"
  ledger_version :: u64

record SessionRecord =
  ses_key :: ReplicaKey
  ses_target :: MemoryLocation
  ses_device_id :: "int option"
  ses_chunks :: "u32 list"

record TransferPlan =
  plan_session_id :: u64
  plan_ranges :: "(u64 \<times> u64) list"
  plan_chunk_indices :: "u32 list"

record StableLease =
  lease_key :: ReplicaKey
  lease_chunks :: "u32 list"
  lease_bytes :: u64
  lease_ledger_version :: u64

record UMA =
  chunk_size_bytes :: u64
  cpu_shared_memory_enabled :: bool
  allocations :: "(ReplicaKey \<times> ReplicaAllocation) list"
  memory_tier_budget :: "MemoryTierBudget option"
  sessions :: "u64 \<rightharpoonup> SessionRecord"
  next_session_id :: u64
  pending_rehydrate :: "ReplicaKey \<times> u32 \<rightharpoonup> int"

definition kArtifactChunkDefault :: u64 where
  "kArtifactChunkDefault = 268435456"

definition new_uma :: "u64 \<Rightarrow> bool \<Rightarrow> UMA" where
  "new_uma artifact_chunk_bytes shared =
     \<lparr>chunk_size_bytes = (if artifact_chunk_bytes = 0 then kArtifactChunkDefault
                         else artifact_chunk_bytes),
      cpu_shared_memory_enabled = shared, allocations = [], memory_tier_budget = None,
      sessions = Map.empty, next_session_id = 1, pending_rehydrate = Map.empty\<rparr>"

abbreviation find_alloc :: "UMA \<Rightarrow> ReplicaKey \<Rightarrow> ReplicaAllocation option" where
  "find_alloc uma key \<equiv> map_of (allocations uma) key"

definition put_alloc :: "ReplicaKey \<Rightarrow> ReplicaAllocation \<Rightarrow> UMA \<Rightarrow> UMA" where
  "put_alloc key a uma = uma\<lparr>allocations := AList.update key a (allocations uma)\<rparr>"

text \<open>Writing one record of an allocation.\<close>

definition upd_record :: "u32 \<Rightarrow> (ChunkRecord \<Rightarrow> ChunkRecord) \<Rightarrow> ReplicaAllocation \<Rightarrow> ReplicaAllocation" where
  "upd_record idx f a =
     a\<lparr>chunk_records := (chunk_records a)[unat idx := f (chunk_records a ! unat idx)]\<rparr>"

abbreviation in_records :: "u32 \<Rightarrow> ReplicaAllocation \<Rightarrow> bool" where
  "in_records idx a \<equiv> unat idx < length (chunk_records a)"

abbreviation rec_at :: "ReplicaAllocation \<Rightarrow> u32 \<Rightarrow> ChunkRecord" where
  "rec_at a idx \<equiv> chunk_records a ! unat idx"

definition not_found :: error where
  "not_found = Err NotFound ''Replica not found in unified memory''"

section \<open>Index helpers\<close>

text \<open>\<open>std::sort\<close> followed by \<open>std::unique\<close> on indices.\<close>

definition sort_unique :: "u32 list \<Rightarrow> u32 list" where
  "sort_unique xs = remdups_adj (sort xs)"

definition iota :: "nat \<Rightarrow> u32 list" where
  "iota n = map of_nat [0..<n]"

definition normalize_chunk_indices :: "u32 list \<Rightarrow> u64 \<Rightarrow> u32 list" where
  "normalize_chunk_indices indices n =
     (if indices = [] then iota (unat n) else sort_unique indices)"

primrec coalesce_from :: "u32 \<Rightarrow> u32 \<Rightarrow> u32 list \<Rightarrow> (u32 \<times> u32) list" where
  "coalesce_from run_start prev [] = [(run_start, prev)]"
| "coalesce_from run_start prev (idx # rest) =
     (if idx = prev + 1 then coalesce_from run_start idx rest
      else (run_start, prev) # coalesce_from idx idx rest)"

definition coalesce_runs :: "u32 list \<Rightarrow> (u32 \<times> u32) list" where
  "coalesce_runs idxs =
     (case idxs of [] \<Rightarrow> [] | first # rest \<Rightarrow> coalesce_from first first rest)"

definition is_cpu_resident_state :: "ChunkState \<Rightarrow> bool" where
  "is_cpu_resident_state s =
     (case s of HOT \<Rightarrow> True | STABLE \<Rightarrow> True | LOCKED_TX \<Rightarrow> True | COLD \<Rightarrow> True | PREEMPTIBLE \<Rightarrow> True
      | _ \<Rightarrow> False)"

definition is_loaded :: "ChunkState \<Rightarrow> bool" where
  "is_loaded s \<longleftrightarrow> s = HOT \<or> s = COPIED_GPU"

definition chunk_bytes_for_index :: "ReplicaAllocation \<Rightarrow> u64 \<Rightarrow> u32 \<Rightarrow> u64" where
  "chunk_bytes_for_index a chunk_size idx =
     (if chunk_size = 0 then 0
      else if alloc_bytes a \<le> ucast idx * chunk_size then 0
      else min chunk_size (alloc_bytes a - ucast idx * chunk_size))"

section \<open>Residency and telemetry\<close>

text \<open>
  What the code asks of the operating system about resident pages: for an address and a
  length the low bit of each page's \<open>mincore\<close> byte, or \<open>None\<close> on failure.
\<close>

record os_pages =
  mincore :: "u64 \<Rightarrow> u64 \<Rightarrow> bool list option"

definition is_preemptible_resident :: "os_pages \<Rightarrow> UMA \<Rightarrow> ReplicaAllocation \<Rightarrow> u32 \<Rightarrow> bool" where
  "is_preemptible_resident os uma a idx =
     (if region_base (cpu_region a) = 0 \<or> num_chunks a \<le> ucast idx then False
      else
        (let offset = ucast idx * chunk_size_bytes uma in
         if region_bytes (cpu_region a) \<le> offset then False
         else
           (let len = min (chunk_size_bytes uma) (region_bytes (cpu_region a) - offset) in
            case mincore os (region_base (cpu_region a) + offset) len of
              None \<Rightarrow> True
            | Some pages \<Rightarrow> list_all id pages)))"

definition preemptible_bytes_of :: "os_pages \<Rightarrow> UMA \<Rightarrow> ReplicaAllocation \<Rightarrow> u64" where
  "preemptible_bytes_of os uma a =
     sum_list (map (\<lambda>i. if cpu (chunk_records a ! i) = PREEMPTIBLE \<and>
                           is_preemptible_resident os uma a (of_nat i)
                        then chunk_bytes_for_index a (chunk_size_bytes uma) (of_nat i) else 0)
       [0..<length (chunk_records a)])"

definition compute_preemptible_bytes :: "os_pages \<Rightarrow> UMA \<Rightarrow> u64" where
  "compute_preemptible_bytes os uma =
     sum_list (map (\<lambda>(_, a). preemptible_bytes_of os uma a) (allocations uma))"

definition update_preemptible_budget :: "os_pages \<Rightarrow> UMA \<Rightarrow> UMA" where
  "update_preemptible_budget os uma =
     (case memory_tier_budget uma of
        None \<Rightarrow> uma
      | Some b \<Rightarrow> uma\<lparr>memory_tier_budget :=
          Some (set_preemptible_marked_bytes (compute_preemptible_bytes os uma) b)\<rparr>)"

definition record_preemptible_fault :: "int \<Rightarrow> ReplicaKey \<Rightarrow> u32 \<Rightarrow> UMA \<Rightarrow> UMA" where
  "record_preemptible_fault now key idx uma =
     uma\<lparr>pending_rehydrate := (pending_rehydrate uma)((key, idx) \<mapsto> now),
         memory_tier_budget := map_option record_fault (memory_tier_budget uma)\<rparr>"

definition maybe_record_rehydrate_latency :: "int \<Rightarrow> ReplicaKey \<Rightarrow> u32 \<Rightarrow> UMA \<Rightarrow> UMA" where
  "maybe_record_rehydrate_latency now key idx uma =
     (case pending_rehydrate uma (key, idx) of
        None \<Rightarrow> uma
      | Some start \<Rightarrow>
        uma\<lparr>pending_rehydrate := (pending_rehydrate uma)((key, idx) := None),
            memory_tier_budget :=
              (if 0 < now - start
               then map_option (record_rehydrate_latency (of_int (now - start)))
                      (memory_tier_budget uma)
               else memory_tier_budget uma)\<rparr>)"

definition clear_rehydrate_records_for_key :: "ReplicaKey \<Rightarrow> UMA \<Rightarrow> UMA" where
  "clear_rehydrate_records_for_key key uma =
     uma\<lparr>pending_rehydrate := (\<lambda>p. if fst p = key then None else pending_rehydrate uma p)\<rparr>"

end
