(* ===== verification/UMA_Ops.thy ===== *)
theory UMA_Ops
  imports UMA_State
begin

text \<open>
  Operations of the unified memory authority: allocation and release, queries, transfer
  sessions, stable leases, export flags, direct-write grants and the CPU arena behind them
  (\<open>core/store/replica/unified_memory_authority.cc\<close>). Loops that return in the middle keep
  what they changed before, as the code does. Results of system calls and of CUDA
  allocations are arguments; every reading of the clock is one as well. Metrics, logging and
  the bytes of the arena are not modelled.
\<close>

section \<open>CPU arena\<close>

definition empty_region :: CpuRegion where
  "empty_region = \<lparr>region_base = 0, region_bytes = 0, region_memfd = - 1, region_offset_bytes = 0\<rparr>"

text \<open>
  \<open>os_map shared bytes\<close> stands for creating, sizing, sealing and mapping the memory: the
  address and the descriptor, or the error of the call that failed.
\<close>

definition allocate_region ::
  "(bool \<Rightarrow> u64 \<Rightarrow> (u64 \<times> int) status_or) \<Rightarrow> bool \<Rightarrow> u64 \<Rightarrow> ReplicaAllocation
     \<Rightarrow> ReplicaAllocation status_or"
where
  "allocate_region os_map shared bytes a =
     (if region_base (cpu_region a) \<noteq> 0
      then Inl (Err AlreadyExists ''CPU region already allocated'')
      else if bytes = 0 then Inr (a\<lparr>cpu_region := empty_region\<rparr>)
      else case os_map shared bytes of
             Inl e \<Rightarrow> Inl e
           | Inr (addr, fd) \<Rightarrow>
             Inr (a\<lparr>cpu_region := \<lparr>region_base = addr, region_bytes = bytes,
                      region_memfd = (if shared then fd else - 1), region_offset_bytes = 0\<rparr>\<rparr>))"

definition release_region :: "ReplicaAllocation \<Rightarrow> ReplicaAllocation" where
  "release_region a = a\<lparr>cpu_region := empty_region\<rparr>"

definition ensure_bounds :: "ReplicaAllocation \<Rightarrow> u64 \<Rightarrow> u64 \<Rightarrow> status" where
  "ensure_bounds a va_offset bytes =
     (if region_base (cpu_region a) = 0 \<or> region_bytes (cpu_region a) = 0
      then Inl (Err FailedPrecondition ''CPU region not allocated'')
      else if region_bytes (cpu_region a) \<le> va_offset
      then Inl (Err OutOfRange ''offset beyond CPU arena bounds'')
      else if region_bytes (cpu_region a) < va_offset + bytes
      then Inl (Err InvalidArgument ''write would exceed CPU arena bounds'')
      else ok_status)"

text \<open>
  A record that the arena leaves alone when it marks or evicts pages.
\<close>

definition arena_skips :: "ChunkRecord \<Rightarrow> bool" where
  "arena_skips r \<longleftrightarrow> 0 < pin_refcnt r \<or> 0 < stable_lease_count r \<or> cpu r = STABLE \<or>
     cpu r = LOCKED_TX \<or> cpu r = EVICTED"

text \<open>The chunks whose pages the arena advises away; the records are not changed.\<close>

primrec arena_mark_loop :: "ReplicaAllocation \<Rightarrow> u32 list \<Rightarrow> u32 list \<times> status" where
  "arena_mark_loop a [] = ([], ok_status)"
| "arena_mark_loop a (i # rest) =
     (if num_chunks a \<le> ucast i then ([], Inl (Err OutOfRange ''Chunk index out of range''))
      else if arena_skips (rec_at a i) then arena_mark_loop a rest
      else apfst ((#) i) (arena_mark_loop a rest))"

definition arena_mark_preemptible :: "ReplicaAllocation \<Rightarrow> u32 list \<Rightarrow> u32 list \<times> status" where
  "arena_mark_preemptible a idx =
     (if region_base (cpu_region a) = 0
      then ([], Inl (Err FailedPrecondition ''CPU region not allocated''))
      else arena_mark_loop a idx)"

text \<open>Eviction from the last chunk downwards; the argument counts the chunks still to visit.\<close>

primrec evict_tail_loop ::
  "u64 \<Rightarrow> ReplicaAllocation \<Rightarrow> u64 \<Rightarrow> nat \<Rightarrow> u64 \<Rightarrow> nat list \<times> u64"
where
  "evict_tail_loop chunk a bytes 0 freed = ([], freed)"
| "evict_tail_loop chunk a bytes (Suc i) freed =
     (if \<not> freed < bytes then ([], freed)
      else if arena_skips (chunk_records a ! i) then evict_tail_loop chunk a bytes i freed
      else apfst ((#) i) (evict_tail_loop chunk a bytes i (freed + chunk)))"

definition evict_tail_bytes :: "u64 \<Rightarrow> ReplicaAllocation \<Rightarrow> u64 \<Rightarrow> nat list \<times> u64" where
  "evict_tail_bytes chunk a bytes =
     (if region_base (cpu_region a) = 0 \<or> bytes = 0 then ([], 0)
      else evict_tail_loop chunk a bytes (unat (num_chunks a)) 0)"

text \<open>
  Pinning. \<open>mlock\<close> gives the result of the system call for each chunk; a refusal (out of
  memory or not permitted) switches page locking off for the process, so the flag is threaded
  through the loop. The handle the caller keeps is the list of pinned chunks.
\<close>

datatype mlock_result = Locked | Refused | OtherFailure

definition lock_count_up :: "u32 \<Rightarrow> ReplicaAllocation \<Rightarrow> ReplicaAllocation" where
  "lock_count_up idx a =
     (let counts = (if length (mlock_refcnt a) \<le> unat idx
                    then mlock_refcnt a @ replicate (unat (num_chunks a) - length (mlock_refcnt a)) 0
                    else mlock_refcnt a)
      in a\<lparr>mlock_refcnt := counts[unat idx := counts ! unat idx + 1]\<rparr>)"

definition pin_one ::
  "(u32 \<Rightarrow> mlock_result) \<Rightarrow> u32 \<Rightarrow> bool \<times> ReplicaAllocation \<Rightarrow> bool \<times> ReplicaAllocation"
where
  "pin_one mlock idx s =
     (let enabled = fst s;
          a1 = upd_record idx (\<lambda>r. r\<lparr>pin_refcnt := pin_refcnt r + 1\<rparr>) (snd s)
      in if enabled \<and> region_memfd (cpu_region a1) < 0
         then (case mlock idx of
                 Locked \<Rightarrow> (enabled, lock_count_up idx a1)
               | Refused \<Rightarrow> (False, a1)
               | OtherFailure \<Rightarrow> (enabled, a1))
         else (enabled, a1))"

primrec pin_loop ::
  "(u32 \<Rightarrow> mlock_result) \<Rightarrow> bool \<times> ReplicaAllocation \<Rightarrow> u32 list \<Rightarrow> (bool \<times> ReplicaAllocation) \<times> status"
where
  "pin_loop mlock s [] = (s, ok_status)"
| "pin_loop mlock s (idx # rest) =
     (if num_chunks (snd s) \<le> ucast idx
      then (s, Inl (Err OutOfRange ''Chunk index out of range''))
      else pin_loop mlock (pin_one mlock idx s) rest)"

definition pin_chunks ::
  "(u32 \<Rightarrow> mlock_result) \<Rightarrow> bool \<times> ReplicaAllocation \<Rightarrow> u32 list
     \<Rightarrow> (bool \<times> ReplicaAllocation) \<times> u32 list status_or"
where
  "pin_chunks mlock s idx =
     (if idx = [] then (s, Inr [])
      else if region_base (cpu_region (snd s)) = 0
      then (s, Inl (Err FailedPrecondition ''CPU region not allocated''))
      else case pin_loop mlock s (sort_unique idx) of
             (s', Inl e) \<Rightarrow> (s', Inl e)
           | (s', Inr _) \<Rightarrow> (s', Inr (sort_unique idx)))"

definition unpin_one :: "bool \<Rightarrow> u32 \<Rightarrow> ReplicaAllocation \<Rightarrow> ReplicaAllocation" where
  "unpin_one enabled idx a =
     (if num_chunks a \<le> ucast idx then a
      else
        (let a1 = upd_record idx (\<lambda>r. if 0 < pin_refcnt r then r\<lparr>pin_refcnt := pin_refcnt r - 1\<rparr> else r) a
         in if unat idx < length (mlock_refcnt a1) \<and>
               pin_refcnt (rec_at a1 idx) < mlock_refcnt a1 ! unat idx \<and> enabled
            then a1\<lparr>mlock_refcnt := (mlock_refcnt a1)[unat idx := mlock_refcnt a1 ! unat idx - 1]\<rparr>
            else a1))"

definition release_pins :: "bool \<Rightarrow> u32 list \<Rightarrow> ReplicaAllocation \<Rightarrow> ReplicaAllocation" where
  "release_pins enabled chunks a =
     (if region_base (cpu_region a) = 0 then a else fold (unpin_one enabled) chunks a)"

text \<open>
  Dropping a pin handle. The handle points at the allocation inside the authority; when the
  allocation is gone, the destructor runs on freed memory, which is \<open>None\<close> here.
\<close>

definition drop_pin_handle :: "bool \<Rightarrow> ReplicaKey \<Rightarrow> u32 list \<Rightarrow> UMA \<Rightarrow> UMA option" where
  "drop_pin_handle enabled key chunks uma =
     (case find_alloc uma key of
        None \<Rightarrow> None
      | Some a \<Rightarrow> Some (put_alloc key (release_pins enabled chunks a) uma))"

section \<open>Allocation and release\<close>

definition empty_alloc :: ReplicaAllocation where
  "empty_alloc = \<lparr>cpu_region = empty_region, mlock_refcnt = [], gpu_allocations = [],
     chunk_records = [], alloc_bytes = 0, num_chunks = 0, loaded_chunk_counts = Map.empty,
     ledger_version = 0\<rparr>"

definition new_record :: "nat \<Rightarrow> ChunkRecord" where
  "new_record i = \<lparr>chunk_idx = of_nat i, cpu = COLD, gpu = Map.empty, exported_cpu = False,
     exported_gpu = Map.empty, pin_refcnt = 0, stable_lease_count = 0, last_access_ns = 0,
     rec_version = 0\<rparr>"

definition allocate ::
  "(bool \<Rightarrow> u64 \<Rightarrow> (u64 \<times> int) status_or) \<Rightarrow> ReplicaKey \<Rightarrow> u64 \<Rightarrow> UMA \<Rightarrow> UMA \<times> status"
where
  "allocate os_map key bytes uma =
     (if find_alloc uma key \<noteq> None
      then (uma, Inl (Err AlreadyExists ''Replica already has unified allocation''))
      else case allocate_region os_map (cpu_shared_memory_enabled uma) bytes empty_alloc of
             Inl e \<Rightarrow> (uma, Inl e)
           | Inr a \<Rightarrow>
             (let n = (bytes + chunk_size_bytes uma - 1) div chunk_size_bytes uma in
              (put_alloc key
                 (a\<lparr>alloc_bytes := bytes, num_chunks := n, loaded_chunk_counts := Map.empty,
                    chunk_records := map new_record [0..<unat n],
                    mlock_refcnt := replicate (unat n) 0\<rparr>) uma, ok_status)))"

definition get_or_create_gpu_allocation ::
  "(u64 \<Rightarrow> int \<Rightarrow> u64 status_or) \<Rightarrow> DeviceRegistry \<Rightarrow> ReplicaKey \<Rightarrow> int \<Rightarrow> UMA \<Rightarrow> UMA \<times> u64 status_or"
where
  "get_or_create_gpu_allocation cuda_alloc reg key device_id uma =
     (case find_alloc uma key of
        None \<Rightarrow> (uma, Inl not_found)
      | Some a \<Rightarrow>
        (case map_of (gpu_allocations a) (gpu_key reg device_id) of
           Some mem \<Rightarrow> (uma, Inr mem)
         | None \<Rightarrow>
           (case cuda_alloc (alloc_bytes a) device_id of
              Inl e \<Rightarrow> (uma, Inl e)
            | Inr mem \<Rightarrow>
              (put_alloc key
                 (a\<lparr>gpu_allocations := AList.update (gpu_key reg device_id) mem (gpu_allocations a),
                    loaded_chunk_counts := (loaded_chunk_counts a)(gpu_key reg device_id \<mapsto> 0)\<rparr>)
                 uma, Inr mem))))"

definition release :: "ReplicaKey \<Rightarrow> UMA \<Rightarrow> UMA \<times> status" where
  "release key uma =
     (case find_alloc uma key of
        None \<Rightarrow> (uma, Inl not_found)
      | Some a \<Rightarrow>
        (let uma1 = clear_rehydrate_records_for_key key uma in
         (uma1\<lparr>allocations := AList.delete key (allocations uma1)\<rparr>, ok_status)))"

definition exported_on :: "DeviceKey \<Rightarrow> ChunkRecord \<Rightarrow> bool" where
  "exported_on dev r \<longleftrightarrow> exported_gpu r dev = Some True"

definition evict_gpu_record :: "DeviceKey \<Rightarrow> ChunkRecord \<Rightarrow> ChunkRecord" where
  "evict_gpu_record dev r =
     (if gpu r dev \<noteq> None
      then r\<lparr>gpu := (gpu r)(dev \<mapsto> EVICTED), rec_version := rec_version r + 1\<rparr> else r)"

definition release_gpu_device ::
  "DeviceRegistry \<Rightarrow> ReplicaKey \<Rightarrow> int \<Rightarrow> bool \<Rightarrow> UMA \<Rightarrow> UMA \<times> status"
where
  "release_gpu_device reg key device_id drop_allocation uma =
     (case find_alloc uma key of
        None \<Rightarrow> (uma, Inl not_found)
      | Some a \<Rightarrow>
        (let dev = gpu_key reg device_id;
             exported = length (filter (exported_on dev) (chunk_records a))
         in if 0 < exported
            then (uma, Inl (Err FailedPrecondition ''exported chunks; release blocked''))
            else
              (let mutated = list_ex (\<lambda>r. gpu r dev \<noteq> None) (chunk_records a);
                   a1 = a\<lparr>loaded_chunk_counts := (loaded_chunk_counts a)(dev \<mapsto> 0),
                          chunk_records := map (evict_gpu_record dev) (chunk_records a)\<rparr>;
                   a2 = (if drop_allocation
                         then a1\<lparr>gpu_allocations := AList.delete dev (gpu_allocations a1)\<rparr> else a1);
                   a3 = (if mutated then a2\<lparr>ledger_version := ledger_version a2 + 1\<rparr> else a2)
               in (put_alloc key a3 uma, ok_status))))"

section \<open>Queries\<close>

text \<open>
  The chunk is missing on the target. \<open>None\<close> stands for the error branch of a GPU target
  without a device, which skips the chunk.
\<close>

definition gpu_missing :: "DeviceKey \<Rightarrow> ChunkRecord \<Rightarrow> bool" where
  "gpu_missing dev r \<longleftrightarrow> (case gpu r dev of None \<Rightarrow> True | Some s \<Rightarrow> \<not> is_loaded s)"

primrec missing_loop ::
  "os_pages \<Rightarrow> DeviceRegistry \<Rightarrow> int \<Rightarrow> ReplicaKey \<Rightarrow> ReplicaAllocation \<Rightarrow> MemoryLocation \<Rightarrow> int option
     \<Rightarrow> nat list \<Rightarrow> UMA \<times> bool \<Rightarrow> (UMA \<times> bool) \<times> u32 list"
where
  "missing_loop os reg now key a target device_id [] s = (s, [])"
| "missing_loop os reg now key a target device_id (i # is) s =
     (if target = LocGPU then
        (case device_id of
           None \<Rightarrow> missing_loop os reg now key a target device_id is s
         | Some d \<Rightarrow>
           if gpu_missing (gpu_key reg d) (chunk_records a ! i)
           then apsnd ((#) (of_nat i)) (missing_loop os reg now key a target device_id is s)
           else missing_loop os reg now key a target device_id is s)
      else if target = LocCPU then
        (if cpu (chunk_records a ! i) = PREEMPTIBLE then
           (if is_preemptible_resident os (fst s) a (of_nat i)
            then missing_loop os reg now key a target device_id is s
            else apsnd ((#) (of_nat i))
                   (missing_loop os reg now key a target device_id is
                      (record_preemptible_fault now key (of_nat i) (fst s), True)))
         else if is_cpu_resident_state (cpu (chunk_records a ! i))
         then missing_loop os reg now key a target device_id is s
         else apsnd ((#) (of_nat i)) (missing_loop os reg now key a target device_id is s))
      else missing_loop os reg now key a target device_id is s)"

definition get_missing_chunks ::
  "os_pages \<Rightarrow> DeviceRegistry \<Rightarrow> int \<Rightarrow> ReplicaKey \<Rightarrow> MemoryLocation \<Rightarrow> int option \<Rightarrow> UMA \<Rightarrow> UMA \<times> u32 list"
where
  "get_missing_chunks os reg now key target device_id uma =
     (case find_alloc uma key of
        None \<Rightarrow> (uma, [])
      | Some a \<Rightarrow>
        (case missing_loop os reg now key a target device_id [0..<length (chunk_records a)] (uma, False) of
           ((uma1, changed), missing) \<Rightarrow>
             (if changed then update_preemptible_budget os uma1 else uma1, missing)))"

definition missing_record :: "DeviceRegistry \<Rightarrow> MemoryLocation \<Rightarrow> int option \<Rightarrow> ChunkRecord \<Rightarrow> bool" where
  "missing_record reg target device_id r =
     (if target = LocGPU then
        (case device_id of None \<Rightarrow> False | Some d \<Rightarrow> gpu_missing (gpu_key reg d) r)
      else if target = LocCPU then \<not> is_cpu_resident_state (cpu r)
      else False)"

definition get_missing_chunks_locked ::
  "DeviceRegistry \<Rightarrow> ReplicaKey \<Rightarrow> MemoryLocation \<Rightarrow> int option \<Rightarrow> UMA \<Rightarrow> u32 list"
where
  "get_missing_chunks_locked reg key target device_id uma =
     (case find_alloc uma key of
        None \<Rightarrow> []
      | Some a \<Rightarrow>
        map of_nat (filter (\<lambda>i. missing_record reg target device_id (chunk_records a ! i))
          [0..<length (chunk_records a)]))"

datatype ChunkSource = LOCAL_CPU | LOCAL_GPU int | DISK

text \<open>\<open>order\<close> is the iteration order of the record's device map.\<close>

definition get_best_source_for_chunk ::
  "os_pages \<Rightarrow> DeviceKey list \<Rightarrow> ReplicaKey \<Rightarrow> u32 \<Rightarrow> MemoryLocation \<Rightarrow> UMA \<Rightarrow> ChunkSource"
where
  "get_best_source_for_chunk os order key idx target uma =
     (case find_alloc uma key of
        None \<Rightarrow> DISK
      | Some a \<Rightarrow>
        if \<not> in_records idx a then DISK
        else if target = LocGPU then
          (if (if cpu (rec_at a idx) = PREEMPTIBLE then is_preemptible_resident os uma a idx
               else is_cpu_resident_state (cpu (rec_at a idx)))
           then LOCAL_CPU else DISK)
        else if target = LocCPU then
          (case find (\<lambda>dev. case gpu (rec_at a idx) dev of None \<Rightarrow> False | Some s \<Rightarrow> is_loaded s) order of
             None \<Rightarrow> DISK
           | Some dev \<Rightarrow> LOCAL_GPU (ordinal dev))
        else DISK)"

definition get_memory_stats :: "ReplicaKey \<Rightarrow> UMA \<Rightarrow> MemoryLocation \<rightharpoonup> u64" where
  "get_memory_stats key uma =
     (case find_alloc uma key of
        None \<Rightarrow> Map.empty
      | Some a \<Rightarrow>
        (let stats1 = (if region_base (cpu_region a) \<noteq> 0 then [LocCPU \<mapsto> alloc_bytes a] else Map.empty)
         in if gpu_allocations a \<noteq> []
            then stats1(LocGPU \<mapsto> alloc_bytes a * of_nat (length (gpu_allocations a))) else stats1))"

record ChunkRecordView =
  view_chunk_idx :: u32
  view_cpu :: ChunkState
  view_exported_cpu :: bool
  view_pin_refcnt :: u32
  view_stable_lease_count :: u32
  view_last_access_ns :: u64
  view_version :: u64

definition snapshot_cpu_chunks :: "ReplicaKey \<Rightarrow> UMA \<Rightarrow> ChunkRecordView list" where
  "snapshot_cpu_chunks key uma =
     (case find_alloc uma key of
        None \<Rightarrow> []
      | Some a \<Rightarrow>
        map (\<lambda>r. \<lparr>view_chunk_idx = chunk_idx r, view_cpu = cpu r, view_exported_cpu = exported_cpu r,
                  view_pin_refcnt = pin_refcnt r, view_stable_lease_count = stable_lease_count r,
                  view_last_access_ns = last_access_ns r, view_version = rec_version r\<rparr>)
          (chunk_records a))"

definition has_allocation :: "ReplicaKey \<Rightarrow> UMA \<Rightarrow> bool" where
  "has_allocation key uma \<longleftrightarrow> find_alloc uma key \<noteq> None"

definition get_artifact_size :: "ReplicaKey \<Rightarrow> UMA \<Rightarrow> u64 status_or" where
  "get_artifact_size key uma =
     (case find_alloc uma key of None \<Rightarrow> Inl not_found | Some a \<Rightarrow> Inr (alloc_bytes a))"

definition get_cpu_base_ptr :: "ReplicaKey \<Rightarrow> UMA \<Rightarrow> u64" where
  "get_cpu_base_ptr key uma =
     (case find_alloc uma key of None \<Rightarrow> 0 | Some a \<Rightarrow> region_base (cpu_region a))"

definition get_cpu_memfd_region :: "ReplicaKey \<Rightarrow> UMA \<Rightarrow> (int \<times> u64 \<times> u64) status_or" where
  "get_cpu_memfd_region key uma =
     (case find_alloc uma key of
        None \<Rightarrow> Inl not_found
      | Some a \<Rightarrow>
        if region_memfd (cpu_region a) < 0 \<or> region_base (cpu_region a) = 0 \<or>
           region_bytes (cpu_region a) = 0
        then Inl (Err FailedPrecondition ''CPU memfd region is not available for this replica'')
        else Inr (region_memfd (cpu_region a), region_bytes (cpu_region a),
                  region_offset_bytes (cpu_region a)))"

definition get_gpu_base_ptr :: "DeviceRegistry \<Rightarrow> ReplicaKey \<Rightarrow> int \<Rightarrow> UMA \<Rightarrow> u64" where
  "get_gpu_base_ptr reg key device_id uma =
     (case find_alloc uma key of
        None \<Rightarrow> 0
      | Some a \<Rightarrow>
        (case map_of (gpu_allocations a) (gpu_key reg device_id) of None \<Rightarrow> 0 | Some mem \<Rightarrow> mem))"

definition get_artifact_chunk_bytes :: "UMA \<Rightarrow> u64" where
  "get_artifact_chunk_bytes uma = chunk_size_bytes uma"

definition get_cpu_chunk_state :: "ReplicaKey \<Rightarrow> u32 \<Rightarrow> UMA \<Rightarrow> ChunkState status_or" where
  "get_cpu_chunk_state key idx uma =
     (case find_alloc uma key of
        None \<Rightarrow> Inl not_found
      | Some a \<Rightarrow>
        if \<not> in_records idx a then Inl (Err OutOfRange ''Chunk index out of range'')
        else Inr (cpu (rec_at a idx)))"

definition get_gpu_chunk_state ::
  "DeviceRegistry \<Rightarrow> ReplicaKey \<Rightarrow> int \<Rightarrow> u32 \<Rightarrow> UMA \<Rightarrow> ChunkState status_or"
where
  "get_gpu_chunk_state reg key device_id idx uma =
     (case find_alloc uma key of
        None \<Rightarrow> Inl not_found
      | Some a \<Rightarrow>
        if \<not> in_records idx a then Inl (Err OutOfRange ''Chunk index out of range'')
        else case gpu (rec_at a idx) (gpu_key reg device_id) of
               None \<Rightarrow> Inl (Err NotFound ''GPU state not present for device'')
             | Some s \<Rightarrow> Inr s)"

definition get_ledger_version :: "ReplicaKey \<Rightarrow> UMA \<Rightarrow> u64 status_or" where
  "get_ledger_version key uma =
     (case find_alloc uma key of None \<Rightarrow> Inl not_found | Some a \<Rightarrow> Inr (ledger_version a))"

record ArtifactLayout =
  layout_artifact_bytes :: u64
  layout_chunk_bytes :: u64
  layout_slice_bytes :: u64

definition get_layout :: "ReplicaKey \<Rightarrow> UMA \<Rightarrow> ArtifactLayout status_or" where
  "get_layout key uma =
     (case find_alloc uma key of
        None \<Rightarrow> Inl not_found
      | Some a \<Rightarrow> Inr \<lparr>layout_artifact_bytes = alloc_bytes a,
                       layout_chunk_bytes = chunk_size_bytes uma, layout_slice_bytes = 0\<rparr>)"

text \<open>The counter answers when it is full; otherwise the records are counted and it is refreshed.\<close>

definition loaded_on :: "DeviceKey \<Rightarrow> ChunkRecord \<Rightarrow> bool" where
  "loaded_on dev r \<longleftrightarrow> (case gpu r dev of None \<Rightarrow> False | Some s \<Rightarrow> is_loaded s)"

definition is_gpu_loading_complete ::
  "DeviceRegistry \<Rightarrow> ReplicaKey \<Rightarrow> int \<Rightarrow> UMA \<Rightarrow> UMA \<times> bool"
where
  "is_gpu_loading_complete reg key device_id uma =
     (case find_alloc uma key of
        None \<Rightarrow> (uma, False)
      | Some a \<Rightarrow>
        if loaded_chunk_counts a (gpu_key reg device_id) = Some (num_chunks a) then (uma, True)
        else
          (let loaded = of_nat (length (filter (loaded_on (gpu_key reg device_id)) (chunk_records a)))
           in (put_alloc key
                 (a\<lparr>loaded_chunk_counts :=
                      (loaded_chunk_counts a)(gpu_key reg device_id \<mapsto> loaded)\<rparr>) uma,
               loaded = num_chunks a)))"

section \<open>Access times\<close>

definition touch :: "u64 \<Rightarrow> u32 \<Rightarrow> ReplicaAllocation \<Rightarrow> ReplicaAllocation" where
  "touch now idx a =
     (if in_records idx a then upd_record idx (\<lambda>r. r\<lparr>last_access_ns := now\<rparr>) a else a)"

definition record_gpu_touch :: "u64 \<Rightarrow> ReplicaKey \<Rightarrow> u32 list \<Rightarrow> UMA \<Rightarrow> UMA" where
  "record_gpu_touch now key chunks uma =
     (case find_alloc uma key of
        None \<Rightarrow> uma
      | Some a \<Rightarrow> put_alloc key (fold (touch now) chunks a) uma)"

definition record_cpu_write_locked ::
  "u64 \<Rightarrow> u64 \<Rightarrow> u64 \<Rightarrow> u64 \<Rightarrow> ReplicaAllocation \<Rightarrow> ReplicaAllocation"
where
  "record_cpu_write_locked now chunk_size va_offset bytes a =
     (if bytes = 0 \<or> chunk_size = 0 then a
      else
        (let first = va_offset div chunk_size;
             final = (va_offset + bytes - 1) div chunk_size
         in a\<lparr>chunk_records := map (\<lambda>(i, r). if unat first \<le> i \<and> i \<le> unat final
                                            then r\<lparr>last_access_ns := now\<rparr> else r)
                (enumerate 0 (chunk_records a))\<rparr>))"

definition record_cpu_write :: "u64 \<Rightarrow> ReplicaKey \<Rightarrow> u64 \<Rightarrow> u64 \<Rightarrow> UMA \<Rightarrow> UMA" where
  "record_cpu_write now key va_offset bytes uma =
     (case find_alloc uma key of
        None \<Rightarrow> uma
      | Some a \<Rightarrow>
        put_alloc key (record_cpu_write_locked now (chunk_size_bytes uma) va_offset bytes a) uma)"

text \<open>
  The copy into the arena. \<open>protect\<close> is the error of making private pages writable, if any;
  \<open>results\<close> are the outcomes of the successive \<open>pwrite\<close> calls on a shared region. The loop
  returns the spans it wrote, as offsets into the file; it has not returned (\<open>None\<close>) when the
  outcomes run out first, which a caller interrupted forever would see. The pages that
  \<open>memcpy\<close> and \<open>madvise\<close> touch are not modelled.
\<close>

datatype pwrite_result = Wrote u64 | Interrupted | PwriteFailed status_code

primrec pwrite_loop ::
  "pwrite_result list \<Rightarrow> u64 \<Rightarrow> u64 \<Rightarrow> ((u64 \<times> u64) list \<times> status) option"
where
  "pwrite_loop [] offset remaining = (if remaining = 0 then Some ([], ok_status) else None)"
| "pwrite_loop (r # rest) offset remaining =
     (if remaining = 0 then Some ([], ok_status)
      else case r of
        Interrupted \<Rightarrow> pwrite_loop rest offset remaining
      | PwriteFailed c \<Rightarrow>
          Some ([], Inl (Err c ''UMA write: pwrite to memfd-backed CPU arena failed''))
      | Wrote n \<Rightarrow>
          if n = 0
          then Some ([], Inl (Err Internal ''UMA write: pwrite returned 0 for memfd-backed CPU arena''))
          else map_option (apfst ((#) (offset, n))) (pwrite_loop rest (offset + n) (remaining - n)))"

definition write_span ::
  "status_code option \<Rightarrow> pwrite_result list \<Rightarrow> ReplicaAllocation \<Rightarrow> u64 \<Rightarrow> u64 \<Rightarrow> status option"
where
  "write_span protect results a va_offset bytes =
     (if bytes = 0 then Some ok_status
      else case ensure_bounds a va_offset bytes of
        Inl e \<Rightarrow> Some (Inl e)
      | Inr _ \<Rightarrow>
        if region_memfd (cpu_region a) < 0
        then (case protect of
                Some c \<Rightarrow> Some (Inl (Err c ''UMA write: failed to ensure writable mapping''))
              | None \<Rightarrow> Some ok_status)
        else map_option snd (pwrite_loop results va_offset bytes))"

definition write_cpu_span ::
  "status_code option \<Rightarrow> pwrite_result list \<Rightarrow> u64 \<Rightarrow> ReplicaKey \<Rightarrow> u64 \<Rightarrow> bool \<Rightarrow> u64 \<Rightarrow> UMA
     \<Rightarrow> (UMA \<times> status) option"
where
  "write_cpu_span protect results now key va_offset src_null bytes uma =
     (if bytes = 0 then Some (uma, ok_status)
      else if src_null then Some (uma, Inl (Err InvalidArgument ''write_cpu_span: src is null''))
      else case find_alloc uma key of
        None \<Rightarrow> Some (uma, Inl not_found)
      | Some a \<Rightarrow>
        map_option
          (\<lambda>st. case st of
             Inl e \<Rightarrow> (uma, Inl e)
           | Inr _ \<Rightarrow>
             (put_alloc key (record_cpu_write_locked now (chunk_size_bytes uma) va_offset bytes a) uma,
              ok_status))
          (write_span protect results a va_offset bytes))"

end
