(* ===== verification/UMA_Sessions.thy ===== *)
theory UMA_Sessions
  imports UMA_Ops
begin

text \<open>
  The parts of the unified memory authority that change the ledger: preemptible marking,
  transfer sessions (plan, commit, abort), stable leases with their budget, export flags and
  direct-write grants (\<open>core/store/replica/unified_memory_authority.cc\<close>).
\<close>

section \<open>Preemptible marking\<close>

primrec eligible_chunks :: "ReplicaAllocation \<Rightarrow> u32 list \<Rightarrow> u32 list status_or" where
  "eligible_chunks a [] = Inr []"
| "eligible_chunks a (idx # rest) =
     (if \<not> in_records idx a then Inl (Err OutOfRange ''Chunk index out of range'')
      else if 0 < stable_lease_count (rec_at a idx) \<or> cpu (rec_at a idx) = STABLE
      then eligible_chunks a rest
      else map_sum id ((#) idx) (eligible_chunks a rest))"

definition mark_record :: "ChunkRecord \<Rightarrow> ChunkRecord" where
  "mark_record r = r\<lparr>cpu := PREEMPTIBLE, rec_version := rec_version r + 1\<rparr>"

definition bump_ledger :: "ReplicaAllocation \<Rightarrow> ReplicaAllocation" where
  "bump_ledger a = a\<lparr>ledger_version := ledger_version a + 1\<rparr>"

definition mark_chunks_preemptible_locked ::
  "os_pages \<Rightarrow> ReplicaKey \<Rightarrow> ReplicaAllocation \<Rightarrow> u32 list \<Rightarrow> UMA \<Rightarrow> UMA \<times> status"
where
  "mark_chunks_preemptible_locked os key a indices uma =
     (if indices = [] then (uma, ok_status)
      else case eligible_chunks a indices of
        Inl e \<Rightarrow> (uma, Inl e)
      | Inr eligible \<Rightarrow>
        if eligible = [] then (uma, ok_status)
        else case arena_mark_preemptible a eligible of
          (_, Inl e) \<Rightarrow> (uma, Inl e)
        | (_, Inr _) \<Rightarrow>
          (update_preemptible_budget os
             (put_alloc key (bump_ledger (fold (\<lambda>idx. upd_record idx mark_record) eligible a)) uma),
           ok_status))"

text \<open>
  The ratio is a \<open>float\<close>: whether it lies in the unit interval and how many chunks
  \<open>floor(ratio * total)\<close> is are arguments.
\<close>

definition mark_cpu_chunks_preemptible ::
  "os_pages \<Rightarrow> bool \<Rightarrow> (u64 \<Rightarrow> nat) \<Rightarrow> ReplicaKey \<Rightarrow> UMA \<Rightarrow> UMA \<times> status"
where
  "mark_cpu_chunks_preemptible os ratio_in_unit floor_ratio key uma =
     (if \<not> ratio_in_unit then (uma, Inl (Err InvalidArgument ''ratio must be between 0.0 and 1.0''))
      else case find_alloc uma key of
        None \<Rightarrow> (uma, Inl not_found)
      | Some a \<Rightarrow>
        if floor_ratio (num_chunks a) = 0 then (uma, ok_status)
        else mark_chunks_preemptible_locked os key a (iota (floor_ratio (num_chunks a))) uma)"

datatype PostGpuLoadPolicy = EvictCPU | MarkPreemptible | Keep

definition post_gpu_load_policy ::
  "os_pages \<Rightarrow> ReplicaKey \<Rightarrow> u64 \<Rightarrow> PostGpuLoadPolicy \<Rightarrow> UMA \<Rightarrow> UMA \<times> status"
where
  "post_gpu_load_policy os key bytes policy uma =
     (case find_alloc uma key of
        None \<Rightarrow> (uma, Inl (Err FailedPrecondition ''UMA allocation not found for replica''))
      | Some a \<Rightarrow>
        (case policy of
           EvictCPU \<Rightarrow> (uma, ok_status)
         | MarkPreemptible \<Rightarrow>
             mark_chunks_preemptible_locked os key a (iota (unat (num_chunks a))) uma
         | Keep \<Rightarrow> (uma, ok_status)))"

section \<open>Transfer sessions\<close>

definition run_range :: "u64 \<Rightarrow> u64 \<Rightarrow> u32 \<times> u32 \<Rightarrow> u64 \<times> u64" where
  "run_range chunk_size total_size run =
     (let off = ucast (fst run) * chunk_size;
          end_off = ucast (snd run + 1) * chunk_size
      in (off, if total_size < end_off then total_size - off else end_off - off))"

text \<open>Faults of preemptible chunks among the requested ones.\<close>

primrec plan_faults ::
  "os_pages \<Rightarrow> int \<Rightarrow> ReplicaKey \<Rightarrow> ReplicaAllocation \<Rightarrow> u32 list \<Rightarrow> UMA \<times> bool \<Rightarrow> UMA \<times> bool"
where
  "plan_faults os now key a [] s = s"
| "plan_faults os now key a (idx # rest) s =
     plan_faults os now key a rest
       (if in_records idx a \<and> cpu (rec_at a idx) = PREEMPTIBLE \<and>
           \<not> is_preemptible_resident os (fst s) a idx
        then (record_preemptible_fault now key idx (fst s), True) else s)"

definition plan_chunks ::
  "DeviceRegistry \<Rightarrow> ReplicaKey \<Rightarrow> ReplicaAllocation \<Rightarrow> MemoryLocation \<Rightarrow> int option \<Rightarrow> u32 list option
     \<Rightarrow> UMA \<Rightarrow> u32 list status_or"
where
  "plan_chunks reg key a target device_id chunk_indices uma =
     (let chunks = (case chunk_indices of
                      Some (i # is) \<Rightarrow> i # is
                    | _ \<Rightarrow> get_missing_chunks_locked reg key target device_id uma)
      in if chunks = [] then
           (if target = LocCPU then Inr (iota (unat (num_chunks a)))
            else Inl (Err FailedPrecondition ''No chunks to load for the requested plan''))
         else Inr chunks)"

definition plan_load ::
  "os_pages \<Rightarrow> DeviceRegistry \<Rightarrow> int \<Rightarrow> ReplicaKey \<Rightarrow> MemoryLocation \<Rightarrow> int option \<Rightarrow> u32 list option
     \<Rightarrow> UMA \<Rightarrow> UMA \<times> TransferPlan status_or"
where
  "plan_load os reg now key target device_id chunk_indices uma =
     (case find_alloc uma key of
        None \<Rightarrow> (uma, Inl not_found)
      | Some a \<Rightarrow>
        (case plan_chunks reg key a target device_id chunk_indices uma of
           Inl e \<Rightarrow> (uma, Inl e)
         | Inr chunks0 \<Rightarrow>
           (let chunks = sort_unique chunks0;
                uma1 = (case chunk_indices of
                          Some (i # is) \<Rightarrow>
                            (case plan_faults os now key a chunks (uma, False) of
                               (u, changed) \<Rightarrow> if changed then update_preemptible_budget os u else u)
                        | _ \<Rightarrow> uma);
                sid = next_session_id uma1;
                uma2 = uma1\<lparr>next_session_id := sid + 1,
                            sessions := (sessions uma1)(sid \<mapsto>
                              \<lparr>ses_key = key, ses_target = target, ses_device_id = device_id,
                               ses_chunks = chunks\<rparr>)\<rparr>
            in (uma2, Inr \<lparr>plan_session_id = sid,
                          plan_ranges = map (run_range (chunk_size_bytes uma) (alloc_bytes a))
                                          (coalesce_runs chunks),
                          plan_chunk_indices = chunks\<rparr>))))"

text \<open>The two loops of \<open>commit\<close>.\<close>

definition commit_gpu_one :: "u64 \<Rightarrow> DeviceKey \<Rightarrow> u32 \<Rightarrow> ReplicaAllocation \<Rightarrow> ReplicaAllocation" where
  "commit_gpu_one now dev idx a =
     (let prev_loaded = loaded_on dev (rec_at a idx);
          a1 = upd_record idx
                 (\<lambda>r. r\<lparr>gpu := (gpu r)(dev \<mapsto> COPIED_GPU), last_access_ns := now,
                       rec_version := rec_version r + 1\<rparr>) a
      in if \<not> prev_loaded
         then a1\<lparr>loaded_chunk_counts := (loaded_chunk_counts a1)(dev \<mapsto>
                (case loaded_chunk_counts a1 dev of None \<Rightarrow> 0 | Some c \<Rightarrow> c) + 1)\<rparr>
         else a1)"

primrec commit_gpu_loop ::
  "u64 \<Rightarrow> DeviceKey \<Rightarrow> u32 list \<Rightarrow> ReplicaAllocation \<Rightarrow> ReplicaAllocation \<times> status"
where
  "commit_gpu_loop now dev [] a = (a, ok_status)"
| "commit_gpu_loop now dev (idx # rest) a =
     (if \<not> in_records idx a then (a, Inl (Err OutOfRange ''Chunk index out of range''))
      else commit_gpu_loop now dev rest (commit_gpu_one now dev idx a))"

definition commit_cpu_record :: "u64 \<Rightarrow> ChunkRecord \<Rightarrow> ChunkRecord" where
  "commit_cpu_record now r =
     r\<lparr>cpu := (if 0 < stable_lease_count r then STABLE else HOT), last_access_ns := now,
       rec_version := rec_version r + 1\<rparr>"

primrec commit_cpu_loop ::
  "u64 \<Rightarrow> int \<Rightarrow> ReplicaKey \<Rightarrow> u32 list \<Rightarrow> ReplicaAllocation \<times> UMA \<Rightarrow> (ReplicaAllocation \<times> UMA) \<times> status"
where
  "commit_cpu_loop now clock key [] s = (s, ok_status)"
| "commit_cpu_loop now clock key (idx # rest) s =
     (if \<not> in_records idx (fst s) then (s, Inl (Err OutOfRange ''Chunk index out of range''))
      else commit_cpu_loop now clock key rest
             (upd_record idx (commit_cpu_record now) (fst s),
              maybe_record_rehydrate_latency clock key idx (snd s)))"

definition finish_commit ::
  "os_pages \<Rightarrow> u64 \<Rightarrow> ReplicaKey \<Rightarrow> u32 list \<Rightarrow> ReplicaAllocation \<Rightarrow> UMA \<Rightarrow> UMA"
where
  "finish_commit os sid key chunks a uma =
     (let uma1 = (if chunks \<noteq> []
                  then update_preemptible_budget os (put_alloc key (bump_ledger a) uma)
                  else put_alloc key a uma)
      in uma1\<lparr>sessions := (sessions uma1)(sid := None)\<rparr>)"

definition commit ::
  "os_pages \<Rightarrow> DeviceRegistry \<Rightarrow> u64 \<Rightarrow> int \<Rightarrow> u64 \<Rightarrow> MemoryLocation \<Rightarrow> u32 list \<Rightarrow> int option
     \<Rightarrow> UMA \<Rightarrow> UMA \<times> status"
where
  "commit os reg now clock sid target committed device_id uma =
     (case sessions uma sid of
        None \<Rightarrow> (uma, ok_status)
      | Some ses \<Rightarrow>
        (let chunks = (if committed = [] then ses_chunks ses else committed) in
         case find_alloc uma (ses_key ses) of
           None \<Rightarrow> (uma, Inl not_found)
         | Some a \<Rightarrow>
           if target = LocGPU then
             (case (if device_id = None then ses_device_id ses else device_id) of
                None \<Rightarrow> (uma, Inl (Err InvalidArgument ''UMA commit(GPU): device_id is required''))
              | Some d \<Rightarrow>
                (case commit_gpu_loop now (gpu_key reg d) chunks a of
                   (a', Inl e) \<Rightarrow> (put_alloc (ses_key ses) a' uma, Inl e)
                 | (a', Inr _) \<Rightarrow> (finish_commit os sid (ses_key ses) chunks a' uma, ok_status)))
           else if target = LocCPU then
             (case commit_cpu_loop now clock (ses_key ses) chunks (a, uma) of
                ((a', uma'), Inl e) \<Rightarrow> (put_alloc (ses_key ses) a' uma', Inl e)
              | ((a', uma'), Inr _) \<Rightarrow> (finish_commit os sid (ses_key ses) chunks a' uma', ok_status))
           else (finish_commit os sid (ses_key ses) [] a uma, ok_status)))"

definition abort_session :: "u64 \<Rightarrow> UMA \<Rightarrow> UMA \<times> status" where
  "abort_session sid uma =
     (case sessions uma sid of
        None \<Rightarrow> (uma, ok_status)
      | Some _ \<Rightarrow> (uma\<lparr>sessions := (sessions uma)(sid := None)\<rparr>, ok_status))"

section \<open>Stable leases\<close>

definition lease_record :: "ChunkRecord \<Rightarrow> ChunkRecord" where
  "lease_record r = r\<lparr>stable_lease_count := stable_lease_count r + 1, cpu := STABLE,
     rec_version := rec_version r + 1\<rparr>"

definition unlease_record :: "ChunkRecord \<Rightarrow> ChunkRecord" where
  "unlease_record r =
     (let r1 = r\<lparr>stable_lease_count := stable_lease_count r - 1\<rparr>;
          r2 = (if stable_lease_count r1 = 0 \<and> cpu r1 = STABLE then r1\<lparr>cpu := HOT\<rparr> else r1)
      in r2\<lparr>rec_version := rec_version r2 + 1\<rparr>)"

primrec lease_loop ::
  "u64 \<Rightarrow> u32 list \<Rightarrow> ReplicaAllocation \<Rightarrow> u64 \<Rightarrow> ReplicaAllocation \<times> u64 status_or"
where
  "lease_loop chunk_size [] a bytes = (a, Inr bytes)"
| "lease_loop chunk_size (idx # rest) a bytes =
     (if num_chunks a \<le> ucast idx
      then (a, Inl (Err OutOfRange ''Chunk index out of range in stable lease''))
      else lease_loop chunk_size rest (upd_record idx lease_record a)
             (bytes + chunk_bytes_for_index a chunk_size idx))"

definition undo_lease :: "u32 \<Rightarrow> ReplicaAllocation \<Rightarrow> ReplicaAllocation" where
  "undo_lease idx a =
     upd_record idx (\<lambda>r. if 0 < stable_lease_count r then unlease_record r else r) a"

definition acquire_stable_lease ::
  "os_pages \<Rightarrow> ReplicaKey \<Rightarrow> u32 list \<Rightarrow> UMA \<Rightarrow> UMA \<times> StableLease status_or"
where
  "acquire_stable_lease os key chunk_indices uma =
     (case find_alloc uma key of
        None \<Rightarrow> (uma, Inl not_found)
      | Some a \<Rightarrow>
        if num_chunks a = 0
        then (uma, Inl (Err FailedPrecondition ''Stable lease requested for empty replica''))
        else
          (let normalized = normalize_chunk_indices chunk_indices (num_chunks a) in
           if normalized = []
           then (uma, Inl (Err InvalidArgument ''No chunk indices provided for stable lease''))
           else case lease_loop (chunk_size_bytes uma) normalized a 0 of
             (a1, Inl e) \<Rightarrow> (put_alloc key a1 uma, Inl e)
           | (a1, Inr bytes) \<Rightarrow>
             (let a2 = bump_ledger a1;
                  lease = \<lparr>lease_key = key, lease_chunks = normalized, lease_bytes = bytes,
                           lease_ledger_version = ledger_version a2\<rparr>
              in case memory_tier_budget uma of
                   None \<Rightarrow> (put_alloc key a2 uma, Inr lease)
                 | Some b \<Rightarrow>
                   (case try_acquire_stable bytes b of
                      (b', Inl e) \<Rightarrow>
                        (update_preemptible_budget os
                           ((put_alloc key
                               ((fold undo_lease normalized a2)\<lparr>ledger_version := ledger_version a\<rparr>) uma)
                             \<lparr>memory_tier_budget := Some b'\<rparr>), Inl e)
                    | (b', Inr _) \<Rightarrow>
                        (update_preemptible_budget os
                           ((put_alloc key a2 uma)\<lparr>memory_tier_budget := Some b'\<rparr>), Inr lease)))))"

primrec unlease_loop :: "u32 list \<Rightarrow> ReplicaAllocation \<Rightarrow> ReplicaAllocation \<times> status" where
  "unlease_loop [] a = (a, ok_status)"
| "unlease_loop (idx # rest) a =
     (if num_chunks a \<le> ucast idx
      then (a, Inl (Err OutOfRange ''Chunk index out of range in stable lease release''))
      else if stable_lease_count (rec_at a idx) = 0
      then (a, Inl (Err FailedPrecondition ''Stable lease not held for specified chunk''))
      else unlease_loop rest (upd_record idx unlease_record a))"

definition release_stable_lease :: "ReplicaKey \<Rightarrow> u32 list \<Rightarrow> UMA \<Rightarrow> UMA \<times> status" where
  "release_stable_lease key chunk_indices uma =
     (case find_alloc uma key of
        None \<Rightarrow> (uma, Inl not_found)
      | Some a \<Rightarrow>
        if chunk_indices = [] \<and> num_chunks a = 0 then (uma, ok_status)
        else
          (let normalized = normalize_chunk_indices chunk_indices (num_chunks a) in
           if normalized = []
           then (uma, Inl (Err InvalidArgument ''No chunk indices provided for stable lease release''))
           else case unlease_loop normalized a of
             (a1, Inl e) \<Rightarrow> (put_alloc key a1 uma, Inl e)
           | (a1, Inr _) \<Rightarrow>
             (let released = sum_list (map (chunk_bytes_for_index a1 (chunk_size_bytes uma)) normalized)
              in ((put_alloc key (bump_ledger a1) uma)\<lparr>memory_tier_budget :=
                    map_option (release_stable released) (memory_tier_budget uma)\<rparr>, ok_status))))"

definition release_lease :: "StableLease \<Rightarrow> UMA \<Rightarrow> UMA \<times> status" where
  "release_lease lease uma = release_stable_lease (lease_key lease) (lease_chunks lease) uma"

section \<open>Export flags and direct-write grants\<close>

definition export_cpu_record :: "bool \<Rightarrow> ChunkRecord \<Rightarrow> ChunkRecord" where
  "export_cpu_record on r =
     (if exported_cpu r \<noteq> on then r\<lparr>exported_cpu := on, rec_version := rec_version r + 1\<rparr> else r)"

definition export_gpu_record :: "DeviceKey \<Rightarrow> bool \<Rightarrow> ChunkRecord \<Rightarrow> ChunkRecord" where
  "export_gpu_record dev on r =
     (let prev = (case exported_gpu r dev of None \<Rightarrow> False | Some p \<Rightarrow> p);
          r1 = r\<lparr>exported_gpu := (exported_gpu r)(dev \<mapsto> prev)\<rparr>
      in if prev \<noteq> on
         then r1\<lparr>exported_gpu := (exported_gpu r1)(dev \<mapsto> on), rec_version := rec_version r1 + 1\<rparr>
         else r1)"

definition upd_if_present ::
  "(ChunkRecord \<Rightarrow> ChunkRecord) \<Rightarrow> u32 \<Rightarrow> ReplicaAllocation \<Rightarrow> ReplicaAllocation"
where
  "upd_if_present f idx a = (if in_records idx a then upd_record idx f a else a)"

definition exports_change :: "(ChunkRecord \<Rightarrow> bool) \<Rightarrow> u32 list \<Rightarrow> ReplicaAllocation \<Rightarrow> bool" where
  "exports_change p idx a \<longleftrightarrow> list_ex (\<lambda>c. in_records c a \<and> p (rec_at a c)) idx"

text \<open>
  The registration that the caller keeps is the coalesced ranges and the pinned chunks. The
  page-locking flag of the process is threaded through.
\<close>

definition set_exported ::
  "(u32 \<Rightarrow> mlock_result) \<Rightarrow> bool \<Rightarrow> DeviceRegistry \<Rightarrow> ReplicaKey \<Rightarrow> MemoryLocation \<Rightarrow> u32 list \<Rightarrow> bool
     \<Rightarrow> UMA \<Rightarrow> UMA \<times> ((u32 \<times> u32) list \<times> u32 list) status_or"
where
  "set_exported mlock enabled reg key location chunks on uma =
     (case find_alloc uma key of
        None \<Rightarrow> (uma, Inl not_found)
      | Some a \<Rightarrow>
        if location \<noteq> LocCPU \<and> location \<noteq> LocGPU
        then (uma, Inl (Err InvalidArgument ''set_exported: invalid location''))
        else
          (let idx = sort_unique chunks;
               dev = gpu_key reg (ordinal (device key))
           in if location = LocCPU then
                (let mutated = exports_change (\<lambda>r. exported_cpu r \<noteq> on) idx a;
                     a1 = fold (upd_if_present (export_cpu_record on)) idx a
                 in if on then
                      (case pin_chunks mlock (enabled, a1) idx of
                         ((_, a2), Inl e) \<Rightarrow> (put_alloc key a2 uma, Inl e)
                       | ((_, a2), Inr pinned) \<Rightarrow>
                         (put_alloc key (if mutated then bump_ledger a2 else a2) uma,
                          Inr (coalesce_runs idx, pinned)))
                    else (put_alloc key (if mutated then bump_ledger a1 else a1) uma,
                          Inr (coalesce_runs idx, [])))
              else
                (let mutated = exports_change
                       (\<lambda>r. (case exported_gpu r dev of None \<Rightarrow> False | Some p \<Rightarrow> p) \<noteq> on) idx a;
                     a1 = fold (upd_if_present (export_gpu_record dev on)) idx a
                 in (put_alloc key (if mutated then bump_ledger a1 else a1) uma,
                     Inr (coalesce_runs idx, [])))))"

record VaRange =
  va_offset :: u64
  va_length :: u64

record Window =
  win_va_offset :: u64
  win_local_addr :: u64
  win_length :: u64

definition range_chunks :: "u64 \<Rightarrow> u64 \<Rightarrow> VaRange \<Rightarrow> u32 list" where
  "range_chunks chunk_size n r =
     (let first_chunk = va_offset r div chunk_size;
          last_chunk = (va_offset r + va_length r - 1) div chunk_size
      in map of_nat (filter (\<lambda>c. c < unat n) [unat first_chunk..<Suc (unat last_chunk)]))"

primrec grant_chunks :: "u64 \<Rightarrow> ReplicaAllocation \<Rightarrow> VaRange list \<Rightarrow> u32 list status_or" where
  "grant_chunks chunk_size a [] = Inr []"
| "grant_chunks chunk_size a (r # rest) =
     (if va_length r = 0 then grant_chunks chunk_size a rest
      else if alloc_bytes a < va_offset r + va_length r
      then Inl (Err OutOfRange ''Direct write range exceeds replica bounds'')
      else map_sum id ((@) (range_chunks chunk_size (num_chunks a) r)) (grant_chunks chunk_size a rest))"

definition grant_direct_write ::
  "(u32 \<Rightarrow> mlock_result) \<Rightarrow> bool \<Rightarrow> ReplicaKey \<Rightarrow> VaRange list \<Rightarrow> UMA
     \<Rightarrow> UMA \<times> (Window list \<times> u32 list) status_or"
where
  "grant_direct_write mlock enabled key ranges uma =
     (case find_alloc uma key of
        None \<Rightarrow> (uma, Inl (Err FailedPrecondition ''UMA allocation not found for replica''))
      | Some a \<Rightarrow>
        if region_base (cpu_region a) = 0
        then (uma, Inl (Err FailedPrecondition ''CPU base not available for direct write''))
        else case grant_chunks (chunk_size_bytes uma) a ranges of
          Inl e \<Rightarrow> (uma, Inl e)
        | Inr chunk_indices \<Rightarrow>
          (case pin_chunks mlock (enabled, a) (sort_unique chunk_indices) of
             ((_, a1), Inl e) \<Rightarrow> (put_alloc key a1 uma, Inl e)
           | ((_, a1), Inr pinned) \<Rightarrow>
             (put_alloc key a1 uma,
              Inr (map (\<lambda>r. \<lparr>win_va_offset = va_offset r,
                            win_local_addr = region_base (cpu_region a1) + va_offset r,
                            win_length = va_length r\<rparr>) ranges, pinned))))"

definition set_memory_tier_budget :: "MemoryTierBudget option \<Rightarrow> UMA \<Rightarrow> UMA" where
  "set_memory_tier_budget b uma = uma\<lparr>memory_tier_budget := b\<rparr>"

end
