(* ===== verification/UMA_Invariants.thy ===== *)
theory UMA_Invariants
  imports UMA_Sessions
begin

text \<open>
  Invariants of the unified memory authority: the shape of every allocation, the protection
  of leased chunks and the meaning of the loaded-chunk counters hold in every state that the
  operations can reach.
\<close>

section \<open>Well-formed allocations\<close>

definition lease_protected :: "ChunkRecord \<Rightarrow> bool" where
  "lease_protected r \<longleftrightarrow> (0 < stable_lease_count r \<longrightarrow> cpu r = STABLE)"

definition counters_sound :: "ReplicaAllocation \<Rightarrow> bool" where
  "counters_sound a \<longleftrightarrow>
     (\<forall>dev c. loaded_chunk_counts a dev = Some c \<longrightarrow>
        unat c \<le> length (filter (loaded_on dev) (chunk_records a)))"

definition wf_alloc :: "u64 \<Rightarrow> ReplicaAllocation \<Rightarrow> bool" where
  "wf_alloc chunk_size a \<longleftrightarrow>
     length (chunk_records a) = unat (num_chunks a) \<and>
     length (mlock_refcnt a) = unat (num_chunks a) \<and>
     (num_chunks a \<noteq> 0 \<longrightarrow> (unat (num_chunks a) - 1) * unat chunk_size < unat (alloc_bytes a)) \<and>
     (\<forall>r\<in>set (chunk_records a). lease_protected r) \<and> counters_sound a"

definition uma_ok :: "UMA \<Rightarrow> bool" where
  "uma_ok uma \<longleftrightarrow> chunk_size_bytes uma \<noteq> 0 \<and> distinct (map fst (allocations uma)) \<and>
     (\<forall>(k, a)\<in>set (allocations uma). wf_alloc (chunk_size_bytes uma) a)"

named_theorems uma_simps \<open>what the record updates of the authority leave unchanged\<close>

lemma find_alloc_wf: "uma_ok uma \<Longrightarrow> find_alloc uma key = Some a \<Longrightarrow> wf_alloc (chunk_size_bytes uma) a"
  by (auto simp: uma_ok_def dest: map_of_SomeD)

lemma uma_ok_put:
  assumes "uma_ok uma" "wf_alloc (chunk_size_bytes uma) a"
  shows "uma_ok (put_alloc key a uma)"
  using assms alist_update_subset [of key a "allocations uma"]
  by (auto simp: uma_ok_def put_alloc_def distinct_update)

lemma put_alloc_simps [uma_simps]:
  "chunk_size_bytes (put_alloc key a uma) = chunk_size_bytes uma"
  "memory_tier_budget (put_alloc key a uma) = memory_tier_budget uma"
  "sessions (put_alloc key a uma) = sessions uma"
  "find_alloc (put_alloc key a uma) k = (if k = key then Some a else find_alloc uma k)"
  by (simp_all add: put_alloc_def update_conv')

lemma uma_ok_frame [uma_simps]:
  "uma_ok (uma\<lparr>sessions := s\<rparr>) = uma_ok uma"
  "uma_ok (uma\<lparr>next_session_id := n\<rparr>) = uma_ok uma"
  "uma_ok (uma\<lparr>memory_tier_budget := b\<rparr>) = uma_ok uma"
  "uma_ok (uma\<lparr>pending_rehydrate := p\<rparr>) = uma_ok uma"
  by (simp_all add: uma_ok_def)

lemma telemetry_frame [uma_simps]:
  "uma_ok (update_preemptible_budget os uma) = uma_ok uma"
  "uma_ok (record_preemptible_fault now key idx uma) = uma_ok uma"
  "uma_ok (maybe_record_rehydrate_latency clock key idx uma) = uma_ok uma"
  "uma_ok (clear_rehydrate_records_for_key key uma) = uma_ok uma"
  "allocations (update_preemptible_budget os uma) = allocations uma"
  "allocations (record_preemptible_fault now key idx uma) = allocations uma"
  "allocations (maybe_record_rehydrate_latency clock key idx uma) = allocations uma"
  "chunk_size_bytes (update_preemptible_budget os uma) = chunk_size_bytes uma"
  "chunk_size_bytes (record_preemptible_fault now key idx uma) = chunk_size_bytes uma"
  "chunk_size_bytes (maybe_record_rehydrate_latency clock key idx uma) = chunk_size_bytes uma"
  by (auto simp: update_preemptible_budget_def record_preemptible_fault_def uma_ok_def
      maybe_record_rehydrate_latency_def clear_rehydrate_records_for_key_def split: option.split)

section \<open>Updating one record\<close>

lemma upd_record_simps [simp]:
  "length (chunk_records (upd_record idx f a)) = length (chunk_records a)"
  "num_chunks (upd_record idx f a) = num_chunks a"
  "mlock_refcnt (upd_record idx f a) = mlock_refcnt a"
  "alloc_bytes (upd_record idx f a) = alloc_bytes a"
  "cpu_region (upd_record idx f a) = cpu_region a"
  "loaded_chunk_counts (upd_record idx f a) = loaded_chunk_counts a"
  "ledger_version (upd_record idx f a) = ledger_version a"
  by (simp_all add: upd_record_def)

lemma upd_record_nth:
  "i < length (chunk_records a) \<Longrightarrow>
     chunk_records (upd_record idx f a) ! i =
     (if i = unat idx then f (chunk_records a ! i) else chunk_records a ! i)"
  by (simp add: upd_record_def nth_list_update)

lemma count_update:
  assumes "i < length xs"
  shows "length (filter P (xs[i := y])) + (if P (xs ! i) then 1 else 0) =
    length (filter P xs) + (if P y then 1 else 0)"
proof -
  have xs: "xs = take i xs @ xs ! i # drop (Suc i) xs" using assms by (rule id_take_nth_drop)
  have "filter P (xs[i := y]) = filter P (take i xs) @ filter P [y] @ filter P (drop (Suc i) xs)"
    using assms by (simp add: upd_conv_take_nth_drop)
  moreover have "filter P xs = filter P (take i xs) @ filter P [xs ! i] @ filter P (drop (Suc i) xs)"
    by (subst xs) simp
  ultimately show ?thesis by simp
qed

lemma loaded_count_upd:
  assumes "\<And>r. r \<in> set (chunk_records a) \<Longrightarrow> loaded_on dev (f r) = loaded_on dev r"
  shows "length (filter (loaded_on dev) (chunk_records (upd_record idx f a))) =
    length (filter (loaded_on dev) (chunk_records a))"
proof (cases "in_records idx a")
  case True
  then show ?thesis
    using count_update [OF True, of "loaded_on dev" "f (rec_at a idx)"] assms [of "rec_at a idx"]
    by (simp add: upd_record_def split: if_splits)
qed (simp add: upd_record_def list_update_beyond)

lemma wf_upd_record:
  assumes "wf_alloc cs a" and "in_records idx a \<Longrightarrow> lease_protected (f (rec_at a idx))"
    and "\<And>r. gpu (f r) = gpu r"
  shows "wf_alloc cs (upd_record idx f a)"
proof (cases "in_records idx a")
  case True
  have "counters_sound (upd_record idx f a)"
    using assms(1,3) loaded_count_upd [of a _ f idx]
    by (auto simp: wf_alloc_def counters_sound_def loaded_on_def)
  moreover have "\<forall>r\<in>set (chunk_records (upd_record idx f a)). lease_protected r"
    using assms(1,2) True set_update_subset_insert [of "chunk_records a" "unat idx" "f (rec_at a idx)"]
    by (auto simp: wf_alloc_def upd_record_def)
  ultimately show ?thesis using assms(1) by (simp add: wf_alloc_def)
qed (use assms(1) in \<open>simp add: upd_record_def list_update_beyond\<close>)

lemma rec_protected: "wf_alloc cs a \<Longrightarrow> in_records idx a \<Longrightarrow> lease_protected (rec_at a idx)"
  by (simp add: wf_alloc_def)

lemma wf_fields [simp]:
  "wf_alloc cs (a\<lparr>ledger_version := v\<rparr>) = wf_alloc cs a"
  "wf_alloc cs (a\<lparr>cpu_region := r\<rparr>) = wf_alloc cs a"
  "wf_alloc cs (a\<lparr>gpu_allocations := g\<rparr>) = wf_alloc cs a"
  "wf_alloc cs (bump_ledger a) = wf_alloc cs a"
  by (simp_all add: wf_alloc_def counters_sound_def bump_ledger_def)

lemma wf_fold:
  assumes "wf_alloc cs a" "\<And>i a. wf_alloc cs a \<Longrightarrow> wf_alloc cs (g i a)"
  shows "wf_alloc cs (fold g is a)"
  using assms(1) by (induction "is" arbitrary: a) (auto intro: assms(2))

lemma lease_protected_updates [simp]:
  "lease_protected (r\<lparr>last_access_ns := n\<rparr>) = lease_protected r"
  "lease_protected (r\<lparr>pin_refcnt := p\<rparr>) = lease_protected r"
  "lease_protected (lease_record r)"
  "lease_protected (commit_cpu_record now r)"
  "lease_protected r \<Longrightarrow> 0 < stable_lease_count r \<Longrightarrow> lease_protected (unlease_record r)"
  "lease_protected r \<Longrightarrow> lease_protected (export_cpu_record on r)"
  "lease_protected r \<Longrightarrow> lease_protected (export_gpu_record dev on r)"
  "lease_protected r \<Longrightarrow> lease_protected (evict_gpu_record dev r)"
  by (auto simp: lease_protected_def lease_record_def commit_cpu_record_def unlease_record_def
      export_cpu_record_def export_gpu_record_def evict_gpu_record_def Let_def)

lemma gpu_updates [simp]:
  "gpu (lease_record r) = gpu r" "gpu (commit_cpu_record now r) = gpu r"
  "gpu (unlease_record r) = gpu r" "gpu (export_cpu_record on r) = gpu r"
  "gpu (export_gpu_record dev on r) = gpu r" "gpu (mark_record r) = gpu r"
  by (simp_all add: lease_record_def commit_cpu_record_def unlease_record_def export_cpu_record_def
      export_gpu_record_def mark_record_def Let_def)

section \<open>The loops keep allocations well formed\<close>

lemma wf_touch: "wf_alloc cs a \<Longrightarrow> wf_alloc cs (touch now idx a)"
  by (auto simp: touch_def intro!: wf_upd_record dest: rec_protected)

lemma wf_lock_count_up: "wf_alloc cs a \<Longrightarrow> wf_alloc cs (lock_count_up idx a)"
  by (simp add: wf_alloc_def lock_count_up_def counters_sound_def Let_def)

lemma wf_pin_one: "wf_alloc cs (snd s) \<Longrightarrow> wf_alloc cs (snd (pin_one mlock idx s))"
proof -
  assume "wf_alloc cs (snd s)"
  then have "wf_alloc cs (upd_record idx (\<lambda>r. r\<lparr>pin_refcnt := pin_refcnt r + 1\<rparr>) (snd s))"
    by (intro wf_upd_record) (auto dest: rec_protected)
  then show ?thesis
    by (auto simp: pin_one_def Let_def intro: wf_lock_count_up split: mlock_result.split)
qed

lemma wf_pin_loop: "wf_alloc cs (snd s) \<Longrightarrow> wf_alloc cs (snd (fst (pin_loop mlock s is)))"
  by (induction "is" arbitrary: s) (simp_all add: wf_pin_one)

lemma wf_pin_chunks:
  "pin_chunks mlock s is = ((e, a), res) \<Longrightarrow> wf_alloc cs (snd s) \<Longrightarrow> wf_alloc cs a"
  using wf_pin_loop [of cs s mlock "sort_unique is"]
  by (auto simp: pin_chunks_def split: if_splits prod.splits sum.splits)

lemma wf_unpin_one: "wf_alloc cs a \<Longrightarrow> wf_alloc cs (unpin_one enabled idx a)"
proof -
  assume "wf_alloc cs a"
  then have *: "wf_alloc cs (upd_record idx
      (\<lambda>r. if 0 < pin_refcnt r then r\<lparr>pin_refcnt := pin_refcnt r - 1\<rparr> else r) a)"
    by (intro wf_upd_record) (auto dest: rec_protected)
  have "wf_alloc cs (b\<lparr>mlock_refcnt := ms\<rparr>)"
    if "wf_alloc cs b" "length ms = length (mlock_refcnt b)" for b :: ReplicaAllocation and ms
    using that by (simp add: wf_alloc_def counters_sound_def)
  with * \<open>wf_alloc cs a\<close> show ?thesis by (simp add: unpin_one_def Let_def)
qed

lemma wf_release_pins: "wf_alloc cs a \<Longrightarrow> wf_alloc cs (release_pins enabled is a)"
  by (auto simp: release_pins_def intro: wf_fold wf_unpin_one)

lemma eligible_unleased:
  "eligible_chunks a is = Inr el \<Longrightarrow> i \<in> set el \<Longrightarrow>
     in_records i a \<and> stable_lease_count (rec_at a i) = 0 \<and> cpu (rec_at a i) \<noteq> STABLE"
  by (induction "is" arbitrary: el) (auto simp: word_gt_0 map_sum_eq_Inr split: if_splits)

lemma wf_mark_fold:
  assumes "wf_alloc cs a" "\<And>i. i \<in> set is \<Longrightarrow> stable_lease_count (rec_at a i) = 0"
    and "\<And>i. i \<in> set is \<Longrightarrow> in_records i a"
  shows "wf_alloc cs (fold (\<lambda>idx. upd_record idx mark_record) is a)"
  using assms
proof (induction "is" arbitrary: a)
  case (Cons i "is")
  have "wf_alloc cs (upd_record i mark_record a)"
    using Cons.prems by (intro wf_upd_record) (auto simp: lease_protected_def mark_record_def)
  moreover have "stable_lease_count (rec_at (upd_record i mark_record a) j) = 0" if "j \<in> set is" for j
    using Cons.prems that by (simp add: upd_record_nth mark_record_def)
  ultimately show ?case using Cons by simp
qed simp

lemma wf_commit_gpu_one:
  assumes "wf_alloc cs a" "in_records idx a"
  shows "wf_alloc cs (commit_gpu_one now dev idx a)"
proof -
  define f where "f = (\<lambda>r::ChunkRecord. r\<lparr>gpu := (gpu r)(dev \<mapsto> COPIED_GPU), last_access_ns := now,
    rec_version := rec_version r + 1\<rparr>)"
  define n where "n d b = length (filter (loaded_on d) (chunk_records b))" for d and b :: ReplicaAllocation
  have other: "n d (upd_record idx f a) = n d a" if "d \<noteq> dev" for d
    unfolding n_def by (rule loaded_count_upd) (simp add: f_def loaded_on_def that)
  have same: "n dev (upd_record idx f a) + (if loaded_on dev (rec_at a idx) then 1 else 0) = Suc (n dev a)"
    using count_update [OF assms(2), of "loaded_on dev" "f (rec_at a idx)"]
    by (simp add: n_def upd_record_def f_def loaded_on_def is_loaded_def)
  have up: "unat (c + 1) \<le> Suc (unat c)" for c :: u64 by (simp add: unat_word_ariths)
  have sound: "loaded_chunk_counts a d = Some c \<Longrightarrow> unat c \<le> n d a" for d c
    using assms(1) by (simp add: wf_alloc_def counters_sound_def n_def)
  have "unat c \<le> n d (upd_record idx f a)"
    if "loaded_chunk_counts (commit_gpu_one now dev idx a) d = Some c" for d c
    using that sound [of d c] sound [of dev] other [of d] same up
    by (cases "d = dev"; cases "loaded_on dev (rec_at a idx)"; cases "loaded_chunk_counts a dev")
      (auto simp: commit_gpu_one_def f_def [symmetric] Let_def intro: order_trans)
  then have "counters_sound (commit_gpu_one now dev idx a)"
    by (simp add: counters_sound_def n_def commit_gpu_one_def f_def [symmetric] Let_def)
  moreover have "\<forall>r\<in>set (chunk_records (upd_record idx f a)). lease_protected r"
    using assms set_update_subset_insert [of "chunk_records a" "unat idx" "f (rec_at a idx)"]
    by (auto simp: wf_alloc_def upd_record_def f_def lease_protected_def)
  ultimately show ?thesis using assms(1)
    by (simp add: wf_alloc_def commit_gpu_one_def f_def [symmetric] Let_def)
qed

lemma wf_commit_gpu_loop:
  "wf_alloc cs a \<Longrightarrow> wf_alloc cs (fst (commit_gpu_loop now dev is a))"
  by (induction "is" arbitrary: a) (simp_all add: wf_commit_gpu_one)

lemma wf_commit_cpu_loop:
  "wf_alloc cs (fst s) \<Longrightarrow> wf_alloc cs (fst (fst (commit_cpu_loop now clock key is s)))"
  by (induction "is" arbitrary: s) (simp_all add: wf_upd_record)

lemma commit_cpu_loop_frame:
  "uma_ok (snd (fst (commit_cpu_loop now clock key is s))) = uma_ok (snd s)"
  "chunk_size_bytes (snd (fst (commit_cpu_loop now clock key is s))) = chunk_size_bytes (snd s)"
  by (induction "is" arbitrary: s) (simp_all add: uma_simps)

lemma wf_lease_loop: "wf_alloc cs a \<Longrightarrow> wf_alloc cs (fst (lease_loop chunk is a b))"
  by (induction "is" arbitrary: a b) (simp_all add: wf_upd_record)

lemma wf_undo_lease: "wf_alloc cs a \<Longrightarrow> wf_alloc cs (undo_lease idx a)"
  unfolding undo_lease_def by (rule wf_upd_record) (auto dest: rec_protected)

lemma wf_unlease_loop: "wf_alloc cs a \<Longrightarrow> wf_alloc cs (fst (unlease_loop is a))"
  by (induction "is" arbitrary: a) (simp_all add: wf_upd_record rec_protected word_gt_0)

lemma wf_upd_if_present:
  assumes "wf_alloc cs a" "\<And>r. lease_protected r \<Longrightarrow> lease_protected (f r)" "\<And>r. gpu (f r) = gpu r"
  shows "wf_alloc cs (upd_if_present f idx a)"
  using assms by (auto simp: upd_if_present_def intro!: wf_upd_record dest: rec_protected)

lemma wf_record_cpu_write:
  assumes "wf_alloc cs a"
  shows "wf_alloc cs (record_cpu_write_locked now chunk off bytes a)"
proof -
  have "length (filter (loaded_on d) (map (\<lambda>(i, r). if P i then r\<lparr>last_access_ns := now\<rparr> else r)
      (enumerate m rs))) = length (filter (loaded_on d) rs)" for d P m rs
    by (induction rs arbitrary: m) (auto simp: loaded_on_def)
  with assms show ?thesis
    by (auto simp: record_cpu_write_locked_def wf_alloc_def counters_sound_def Let_def
        in_set_enumerate_eq)
qed

lemma wf_new_alloc:
  fixes cs bytes :: u64
  defines "n \<equiv> (bytes + cs - 1) div cs"
  assumes "cs \<noteq> 0"
  shows "wf_alloc cs (a\<lparr>alloc_bytes := bytes, num_chunks := n, loaded_chunk_counts := Map.empty,
    chunk_records := map new_record [0..<unat n], mlock_refcnt := replicate (unat n) 0\<rparr>)"
proof -
  have "unat (bytes + (cs - 1)) \<le> unat bytes + unat (cs - 1)" by (simp add: unat_word_ariths)
  moreover have "unat (cs - 1) = unat cs - 1" "0 < unat cs"
    using assms(2) by (simp_all add: unat_minus_one unat_gt_0)
  ultimately have sum: "unat (bytes + cs - 1) < unat bytes + unat cs" by (simp add: algebra_simps)
  have "unat n * unat cs \<le> unat (bytes + cs - 1)"
    by (simp add: n_def unat_div_distrib)
  with sum have lt: "unat n * unat cs < unat bytes + unat cs" by linarith
  have "(unat n - 1) * unat cs < unat bytes" if "n \<noteq> 0"
  proof -
    from that obtain k where "unat n = Suc k" by (cases "unat n") (simp_all add: unat_eq_zero)
    with lt show ?thesis by simp
  qed
  then show ?thesis
    by (auto simp: wf_alloc_def counters_sound_def new_record_def lease_protected_def)
qed

section \<open>Every operation keeps the invariant\<close>

lemma uma_ok_new: "uma_ok (new_uma chunk shared)"
  by (simp add: uma_ok_def new_uma_def kArtifactChunkDefault_def)

lemma uma_ok_allocate: "uma_ok uma \<Longrightarrow> uma_ok (fst (allocate os_map key bytes uma))"
  by (auto simp: allocate_def Let_def uma_ok_def [of uma] intro!: uma_ok_put wf_new_alloc
      split: sum.split)

lemma uma_ok_gpu_allocation:
  "uma_ok uma \<Longrightarrow> uma_ok (fst (get_or_create_gpu_allocation cuda reg key d uma))"
  by (auto simp: get_or_create_gpu_allocation_def wf_alloc_def counters_sound_def
      intro!: uma_ok_put dest: find_alloc_wf split: option.split sum.split)

lemma uma_ok_release: "uma_ok uma \<Longrightarrow> uma_ok (fst (release key uma))"
  using alist_delete_subset [of key "allocations uma"]
  by (auto simp: release_def clear_rehydrate_records_for_key_def uma_ok_def distinct_delete
      split: option.split)

lemma wf_evict_gpu:
  assumes "wf_alloc cs a"
  shows "wf_alloc cs (a\<lparr>loaded_chunk_counts := (loaded_chunk_counts a)(dev \<mapsto> 0),
    chunk_records := map (evict_gpu_record dev) (chunk_records a)\<rparr>)"
proof -
  have "loaded_on d (evict_gpu_record dev r) = loaded_on d r" if "d \<noteq> dev" for d r
    using that by (simp add: loaded_on_def evict_gpu_record_def)
  then have "length (filter (loaded_on d) (map (evict_gpu_record dev) rs)) = length (filter (loaded_on d) rs)"
    if "d \<noteq> dev" for d rs using that by (simp add: filter_map comp_def)
  with assms show ?thesis by (auto simp: wf_alloc_def counters_sound_def)
qed

lemma uma_ok_release_gpu:
  "uma_ok uma \<Longrightarrow> uma_ok (fst (release_gpu_device reg key d dropped uma))"
  by (auto simp: release_gpu_device_def Let_def intro!: uma_ok_put wf_evict_gpu dest: find_alloc_wf
      split: option.split)

lemma missing_loop_ok:
  "uma_ok (fst (fst (missing_loop os reg now key a target d is s))) = uma_ok (fst s)"
proof (induction "is" arbitrary: s)
  case (Cons i "is")
  then show ?case by (cases target; cases d) (simp_all add: uma_simps)
qed simp

lemma uma_ok_missing:
  assumes "uma_ok uma"
  shows "uma_ok (fst (get_missing_chunks os reg now key target d uma))"
proof (cases "find_alloc uma key")
  case (Some a)
  obtain u c m where
    "missing_loop os reg now key a target d [0..<length (chunk_records a)] (uma, False) = ((u, c), m)"
    by (metis prod.exhaust)
  with missing_loop_ok [of os reg now key a target d "[0..<length (chunk_records a)]" "(uma, False)"] Some assms
  show ?thesis by (simp add: get_missing_chunks_def uma_simps)
qed (simp add: get_missing_chunks_def assms)

lemma uma_ok_complete:
  assumes "uma_ok uma"
  shows "uma_ok (fst (is_gpu_loading_complete reg key d uma))"
proof -
  have "unat (of_nat n :: u64) \<le> n" for n by (simp add: unat_of_nat)
  with assms show ?thesis
    by (auto simp: is_gpu_loading_complete_def Let_def wf_alloc_def counters_sound_def
        intro!: uma_ok_put dest: find_alloc_wf split: option.split)
qed

lemma uma_ok_touch: "uma_ok uma \<Longrightarrow> uma_ok (record_gpu_touch now key chunks uma)"
  by (auto simp: record_gpu_touch_def intro!: uma_ok_put wf_fold wf_touch dest: find_alloc_wf
      split: option.split)

lemma uma_ok_cpu_write: "uma_ok uma \<Longrightarrow> uma_ok (record_cpu_write now key off bytes uma)"
  by (auto simp: record_cpu_write_def intro!: uma_ok_put wf_record_cpu_write dest: find_alloc_wf
      split: option.split)

lemma uma_ok_write_span:
  assumes "uma_ok uma" "write_cpu_span prot ws now key off null bytes uma = Some (uma', st)"
  shows "uma_ok uma'"
proof (cases "find_alloc uma key")
  case (Some a)
  note wf = wf_record_cpu_write [OF find_alloc_wf [OF assms(1) Some]]
  show ?thesis
  proof (cases "write_span prot ws a off bytes")
    case None
    with assms Some show ?thesis by (simp add: write_cpu_span_def split: if_splits)
  next
    case (Some r)
    with assms \<open>find_alloc uma key = Some a\<close> wf show ?thesis
      by (cases r) (auto simp: write_cpu_span_def intro!: uma_ok_put split: if_splits)
  qed
qed (use assms in \<open>simp add: write_cpu_span_def split: if_splits\<close>)

lemma uma_ok_mark_locked:
  "uma_ok uma \<Longrightarrow> find_alloc uma key = Some a \<Longrightarrow>
     uma_ok (fst (mark_chunks_preemptible_locked os key a is uma))"
  by (auto simp: mark_chunks_preemptible_locked_def uma_simps intro!: uma_ok_put wf_mark_fold
      dest: find_alloc_wf eligible_unleased split: sum.split prod.split)

lemma uma_ok_mark:
  "uma_ok uma \<Longrightarrow> uma_ok (fst (mark_cpu_chunks_preemptible os inunit fl key uma))"
  "uma_ok uma \<Longrightarrow> uma_ok (fst (post_gpu_load_policy os key bytes policy uma))"
  by (auto simp: mark_cpu_chunks_preemptible_def post_gpu_load_policy_def uma_ok_mark_locked
      split: option.split PostGpuLoadPolicy.split)

lemma plan_faults_ok: "uma_ok (fst (plan_faults os now key a is s)) = uma_ok (fst s)"
  by (induction "is" arbitrary: s) (simp_all add: uma_simps)

lemma uma_ok_plan_faults:
  assumes "uma_ok uma"
  shows "uma_ok (case plan_faults os now key a is (uma, False) of
    (u, changed) \<Rightarrow> if changed then update_preemptible_budget os u else u)"
  using assms plan_faults_ok [of os now key a "is" "(uma, False)"]
  by (cases "plan_faults os now key a is (uma, False)") (simp add: uma_simps)

lemma uma_ok_plan:
  assumes "uma_ok uma"
  shows "uma_ok (fst (plan_load os reg now key target d chunks uma))"
  using assms uma_ok_plan_faults [OF assms, of os now key]
  by (simp add: plan_load_def Let_def uma_simps split: option.split sum.split list.split)

lemma uma_ok_finish:
  "uma_ok uma \<Longrightarrow> wf_alloc (chunk_size_bytes uma) a \<Longrightarrow> uma_ok (finish_commit os sid key chunks a uma)"
  by (simp add: finish_commit_def Let_def uma_simps uma_ok_put)

lemma uma_ok_commit_gpu:
  assumes "uma_ok uma" "wf_alloc (chunk_size_bytes uma) a"
  shows "uma_ok (fst (case commit_gpu_loop now dev chunks a of
      (a', Inl e) \<Rightarrow> (put_alloc key a' uma, Inl e)
    | (a', Inr _) \<Rightarrow> (finish_commit os sid key chunks a' uma, ok_status)))"
  using wf_commit_gpu_loop [OF assms(2), of now dev chunks] assms(1)
  by (cases "commit_gpu_loop now dev chunks a"; cases "snd (commit_gpu_loop now dev chunks a)")
    (simp_all add: uma_ok_put uma_ok_finish)

lemma uma_ok_commit_cpu:
  assumes "uma_ok uma" "wf_alloc (chunk_size_bytes uma) a"
  shows "uma_ok (fst (case commit_cpu_loop now clock key chunks (a, uma) of
      ((a', uma'), Inl e) \<Rightarrow> (put_alloc key a' uma', Inl e)
    | ((a', uma'), Inr _) \<Rightarrow> (finish_commit os sid key chunks a' uma', ok_status)))"
proof -
  obtain a' uma' r where run: "commit_cpu_loop now clock key chunks (a, uma) = ((a', uma'), r)"
    by (metis prod.exhaust)
  with assms commit_cpu_loop_frame [of now clock key chunks "(a, uma)"]
    wf_commit_cpu_loop [of "chunk_size_bytes uma" "(a, uma)" now clock key chunks]
  have "uma_ok uma'" "wf_alloc (chunk_size_bytes uma') a'" by simp_all
  then show ?thesis unfolding run by (cases r) (simp_all add: uma_ok_put uma_ok_finish)
qed

lemma uma_ok_commit:
  assumes "uma_ok uma"
  shows "uma_ok (fst (commit os reg now clock sid target committed d uma))"
  using assms
  by (simp add: commit_def Let_def uma_ok_commit_gpu uma_ok_commit_cpu uma_ok_finish find_alloc_wf
      split: option.split)

lemma uma_ok_abort: "uma_ok uma \<Longrightarrow> uma_ok (fst (abort_session sid uma))"
  by (simp add: abort_session_def uma_simps split: option.split)

lemma uma_ok_acquire:
  assumes "uma_ok uma"
  shows "uma_ok (fst (acquire_stable_lease os key chunks uma))"
proof (cases "find_alloc uma key")
  case (Some a)
  define ids where "ids = normalize_chunk_indices chunks (num_chunks a)"
  obtain a1 r where run: "lease_loop (chunk_size_bytes uma) ids a 0 = (a1, r)" by fastforce
  have wf: "wf_alloc (chunk_size_bytes uma) a1"
    using wf_lease_loop [OF find_alloc_wf [OF assms Some], of "chunk_size_bytes uma" ids 0] run by simp
  then have "wf_alloc (chunk_size_bytes uma) (fold undo_lease ids (bump_ledger a1))"
    by (intro wf_fold wf_undo_lease) simp
  with wf show ?thesis
    using Some run assms
    by (cases r; cases "memory_tier_budget uma")
      (auto simp: acquire_stable_lease_def Let_def ids_def [symmetric] uma_simps
        intro!: uma_ok_put split: prod.split sum.split)
qed (simp add: acquire_stable_lease_def assms)

lemma uma_ok_release_stable:
  assumes "uma_ok uma"
  shows "uma_ok (fst (release_stable_lease key chunks uma))"
proof (cases "find_alloc uma key")
  case (Some a)
  define ids where "ids = normalize_chunk_indices chunks (num_chunks a)"
  obtain a1 r where run: "unlease_loop ids a = (a1, r)" by fastforce
  have "wf_alloc (chunk_size_bytes uma) a1"
    using wf_unlease_loop [OF find_alloc_wf [OF assms Some], of ids] run by simp
  then show ?thesis
    using Some run assms
    by (cases r) (simp_all add: release_stable_lease_def Let_def ids_def [symmetric] uma_simps uma_ok_put)
qed (simp add: release_stable_lease_def assms)

lemma uma_ok_pin:
  assumes "uma_ok uma" "wf_alloc (chunk_size_bytes uma) a"
    and keeps: "\<And>a. wf_alloc (chunk_size_bytes uma) a \<Longrightarrow> wf_alloc (chunk_size_bytes uma) (g a)"
  shows "uma_ok (fst (case pin_chunks mlock (enabled, a) is of
      ((_, a2), Inl e) \<Rightarrow> (put_alloc key a2 uma, Inl e)
    | ((_, a2), Inr pinned) \<Rightarrow> (put_alloc key (g a2) uma, h a2 pinned)))"
proof -
  obtain e a2 r where run: "pin_chunks mlock (enabled, a) is = ((e, a2), r)" by (metis prod.exhaust)
  from wf_pin_chunks [OF run] assms(2) have "wf_alloc (chunk_size_bytes uma) a2" by simp
  with assms(1) keeps show ?thesis unfolding run by (cases r) (simp_all add: uma_ok_put)
qed

lemma uma_ok_set_exported:
  assumes "uma_ok uma"
  shows "uma_ok (fst (set_exported mlock enabled reg key location chunks on uma))"
proof (cases "find_alloc uma key")
  case (Some a)
  note wf = find_alloc_wf [OF assms Some]
  have "wf_alloc (chunk_size_bytes uma) (fold (upd_if_present (export_cpu_record on)) is a)"
    "wf_alloc (chunk_size_bytes uma) (fold (upd_if_present (export_gpu_record dev on)) is a)" for "is" dev
    using wf by (auto intro!: wf_fold wf_upd_if_present)
  with assms Some show ?thesis
    by (cases location; cases "on") (simp_all add: set_exported_def Let_def uma_ok_put uma_ok_pin)
qed (simp add: set_exported_def assms)

lemma uma_ok_grant:
  assumes "uma_ok uma"
  shows "uma_ok (fst (grant_direct_write mlock enabled key ranges uma))"
  using assms
  by (auto simp: grant_direct_write_def find_alloc_wf intro!: uma_ok_pin split: option.split sum.split)

section \<open>Reachable states\<close>

text \<open>
  One step of the authority is any public operation with any arguments and any results of the
  system calls, whether it succeeds or returns an error.
\<close>

inductive uma_step :: "UMA \<Rightarrow> UMA \<Rightarrow> bool" where
  step_allocate: "uma_step uma (fst (allocate os_map key bytes uma))"
| step_gpu_allocation: "uma_step uma (fst (get_or_create_gpu_allocation cuda reg key d uma))"
| step_release: "uma_step uma (fst (release key uma))"
| step_release_gpu: "uma_step uma (fst (release_gpu_device reg key d dropped uma))"
| step_missing: "uma_step uma (fst (get_missing_chunks os reg t key target dev uma))"
| step_complete: "uma_step uma (fst (is_gpu_loading_complete reg key d uma))"
| step_touch: "uma_step uma (record_gpu_touch now key chunks uma)"
| step_cpu_write: "uma_step uma (record_cpu_write now key off bytes uma)"
| step_write_span: "write_cpu_span prot ws now key off src_null bytes uma = Some (uma', st) \<Longrightarrow> uma_step uma uma'"
| step_mark: "uma_step uma (fst (mark_cpu_chunks_preemptible os inunit fl key uma))"
| step_policy: "uma_step uma (fst (post_gpu_load_policy os key bytes policy uma))"
| step_plan: "uma_step uma (fst (plan_load os reg t key target dev selection uma))"
| step_commit: "uma_step uma (fst (commit os reg now t sid target chunks dev uma))"
| step_abort: "uma_step uma (fst (abort_session sid uma))"
| step_acquire: "uma_step uma (fst (acquire_stable_lease os key chunks uma))"
| step_release_lease: "uma_step uma (fst (release_lease lease uma))"
| step_release_stable: "uma_step uma (fst (release_stable_lease key chunks uma))"
| step_exported: "uma_step uma (fst (set_exported mlock enabled reg key location chunks on uma))"
| step_grant: "uma_step uma (fst (grant_direct_write mlock enabled key ranges uma))"
| step_drop_pin: "drop_pin_handle enabled key chunks uma = Some uma' \<Longrightarrow> uma_step uma uma'"
| step_budget: "uma_step uma (set_memory_tier_budget b uma)"

inductive uma_reachable :: "UMA \<Rightarrow> bool" where
  reach_new: "uma_reachable (new_uma chunk shared)"
| reach_step: "uma_reachable uma \<Longrightarrow> uma_step uma uma' \<Longrightarrow> uma_reachable uma'"

lemma uma_ok_drop_pin:
  "uma_ok uma \<Longrightarrow> drop_pin_handle enabled key chunks uma = Some uma' \<Longrightarrow> uma_ok uma'"
  by (auto simp: drop_pin_handle_def intro!: uma_ok_put wf_release_pins dest: find_alloc_wf
      split: option.splits)

lemma uma_ok_release_lease: "uma_ok uma \<Longrightarrow> uma_ok (fst (release_lease lease uma))"
  by (simp add: release_lease_def uma_ok_release_stable)

lemma uma_ok_set_budget: "uma_ok uma \<Longrightarrow> uma_ok (set_memory_tier_budget b uma)"
  by (simp add: set_memory_tier_budget_def uma_simps)

lemmas uma_ok_operations =
  uma_ok_allocate uma_ok_gpu_allocation uma_ok_release uma_ok_release_gpu uma_ok_missing
  uma_ok_complete uma_ok_touch uma_ok_cpu_write uma_ok_mark uma_ok_plan uma_ok_commit uma_ok_abort
  uma_ok_acquire uma_ok_release_lease uma_ok_release_stable uma_ok_set_exported uma_ok_grant
  uma_ok_set_budget uma_ok_write_span uma_ok_drop_pin

lemma uma_step_ok: "uma_step uma uma' \<Longrightarrow> uma_ok uma \<Longrightarrow> uma_ok uma'"
  by (induction rule: uma_step.induct) (rule uma_ok_operations; assumption)+

lemma uma_reachable_ok: "uma_reachable uma \<Longrightarrow> uma_ok uma"
  by (induction rule: uma_reachable.induct) (auto intro: uma_ok_new uma_step_ok)

lemma filter_all_length: "length (filter P xs) = length xs \<longleftrightarrow> (\<forall>x\<in>set xs. P x)"
  by (metis filter_True filter_id_conv length_filter_less less_irrefl)

lemma loading_complete_iff:
  assumes "uma_ok uma"
  shows "snd (is_gpu_loading_complete reg key d uma) \<longleftrightarrow>
    (\<exists>a. find_alloc uma key = Some a \<and> list_all (loaded_on (gpu_key reg d)) (chunk_records a))"
proof (cases "find_alloc uma key")
  case (Some a)
  define n where "n = length (filter (loaded_on (gpu_key reg d)) (chunk_records a))"
  have wf: "wf_alloc (chunk_size_bytes uma) a"
    using assms Some by (rule find_alloc_wf)
  then have len: "length (chunk_records a) = unat (num_chunks a)" by (simp add: wf_alloc_def)
  then have "n \<le> unat (num_chunks a)" by (metis n_def length_filter_le)
  moreover from this have "unat (of_nat n :: u64) = n"
    using unat_u64_bound [of "num_chunks a"] by (simp add: unat_of_nat_u64)
  then have "(of_nat n = num_chunks a) = (n = unat (num_chunks a))" by (metis word_unat_eq_iff)
  moreover have "loaded_chunk_counts a (gpu_key reg d) = Some (num_chunks a) \<Longrightarrow> unat (num_chunks a) \<le> n"
    using wf by (simp add: wf_alloc_def counters_sound_def n_def)
  ultimately show ?thesis
    using Some filter_all_length [of "loaded_on (gpu_key reg d)" "chunk_records a"] len
    by (auto simp: is_gpu_loading_complete_def Let_def n_def [symmetric] list_all_iff)
qed (simp add: is_gpu_loading_complete_def)

text \<open>
  C16. In every state the authority can reach, each allocation has one record and one page-lock
  counter per chunk, every chunk but the last lies completely inside the allocation, a chunk
  under a stable lease is in the stable state whatever loads, exports, markings or aborted
  operations came before, and no loaded-chunk counter exceeds the number of chunks that are
  really loaded on its device.
\<close>

theorem reachable_authority_invariant:
  assumes "uma_reachable uma" and "find_alloc uma key = Some a"
  shows "length (chunk_records a) = unat (num_chunks a) \<and>
    length (mlock_refcnt a) = unat (num_chunks a) \<and>
    (num_chunks a = 0 \<or> (unat (num_chunks a) - 1) * unat (chunk_size_bytes uma) < unat (alloc_bytes a)) \<and>
    list_all (\<lambda>r. stable_lease_count r = 0 \<or> cpu r = STABLE) (chunk_records a) \<and>
    (case loaded_chunk_counts a dev of None \<Rightarrow> True
     | Some c \<Rightarrow> unat c \<le> length (filter (loaded_on dev) (chunk_records a)))"
proof -
  have "wf_alloc (chunk_size_bytes uma) a"
    using uma_reachable_ok [OF assms(1)] assms(2) by (rule find_alloc_wf)
  then show ?thesis
    by (auto simp: wf_alloc_def counters_sound_def lease_protected_def list_all_iff word_gt_0
        split: option.split)
qed

text \<open>
  C17. Loading on a device is reported as complete exactly when the replica is allocated and
  every one of its chunks is loaded there, although the answer may come from the cached
  counter.
\<close>

theorem loading_complete_iff_all_loaded:
  assumes "uma_reachable uma"
  shows "snd (is_gpu_loading_complete reg key d uma) \<longleftrightarrow>
    (\<exists>a. find_alloc uma key = Some a \<and> list_all (loaded_on (gpu_key reg d)) (chunk_records a))"
  using uma_reachable_ok [OF assms] by (rule loading_complete_iff)

section \<open>A run of the authority\<close>

definition ex_rkey :: ReplicaKey where
  "ex_rkey = \<lparr>artifact_id = ''w'', view_id = None,
     device = \<lparr>dev_type = DeviceCPU, ordinal = 0, uuid = []\<rparr>, replica = 0\<rparr>"

definition ex_os :: os_pages where
  "ex_os = \<lparr>mincore = (\<lambda>_ _. None)\<rparr>"

definition ex_allocated :: UMA where
  "ex_allocated = fst (allocate (\<lambda>_ _. Inr (4096, - 1)) ex_rkey 10 (new_uma 8 False))"

definition ex_leased :: UMA where
  "ex_leased = fst (acquire_stable_lease ex_os ex_rkey [0] ex_allocated)"

definition ex_marked :: UMA where
  "ex_marked = fst (post_gpu_load_policy ex_os ex_rkey 10 MarkPreemptible ex_leased)"

definition ex_planned :: UMA where
  "ex_planned = fst (plan_load ex_os new_registry 0 ex_rkey LocGPU (Some 0) None ex_marked)"

definition ex_loaded :: UMA where
  "ex_loaded = fst (commit ex_os new_registry 5 0 1 LocGPU [] None ex_planned)"

lemma ex_run_reachable: "uma_reachable ex_marked" "uma_reachable ex_loaded"
proof -
  have "uma_reachable ex_leased"
    unfolding ex_leased_def ex_allocated_def
    by (rule reach_step [OF reach_step [OF reach_new step_allocate] step_acquire])
  then show marked: "uma_reachable ex_marked"
    unfolding ex_marked_def by (rule reach_step [OF _ step_policy])
  show "uma_reachable ex_loaded"
    unfolding ex_loaded_def ex_planned_def by (rule reach_step [OF reach_step [OF marked step_plan] step_commit])
qed

definition ex_alloc :: "ChunkRecord list \<Rightarrow> ReplicaAllocation" where
  "ex_alloc rs = \<lparr>cpu_region = \<lparr>region_base = 4096, region_bytes = 10, region_memfd = - 1,
     region_offset_bytes = 0\<rparr>, mlock_refcnt = [0, 0], gpu_allocations = [], chunk_records = rs,
     alloc_bytes = 10, num_chunks = 2, loaded_chunk_counts = Map.empty, ledger_version = 0\<rparr>"

lemma two_indices:
  "[0..<2] = [0, Suc 0]" "replicate 2 x = [x, x]"
  by (simp_all add: upt_rec numeral_2_eq_2)

lemma one_below_two: "\<not> (2::u64) \<le> 1"
  by (simp add: word_le_nat_alt)

lemmas ex_simps = ex_alloc_def ex_os_def put_alloc_def upd_record_def Let_def not_found_def
  normalize_chunk_indices_def sort_unique_def iota_def bump_ledger_def two_indices one_below_two new_uma_def

lemma ex_allocated_eq:
  "ex_allocated = put_alloc ex_rkey (ex_alloc [new_record 0, new_record (Suc 0)]) (new_uma 8 False)"
  by (simp add: ex_allocated_def allocate_def allocate_region_def ex_simps empty_alloc_def
      empty_region_def)

lemma ex_leased_eq:
  "ex_leased = put_alloc ex_rkey ((ex_alloc [lease_record (new_record 0), new_record (Suc 0)])
     \<lparr>ledger_version := 1\<rparr>) (new_uma 8 False)"
  by (simp add: ex_leased_def ex_allocated_eq acquire_stable_lease_def ex_simps)

lemma ex_marked_eq:
  "ex_marked = put_alloc ex_rkey ((ex_alloc [lease_record (new_record 0), mark_record (new_record (Suc 0))])
     \<lparr>ledger_version := 2\<rparr>) (new_uma 8 False)"
  by (simp add: ex_marked_def ex_leased_eq post_gpu_load_policy_def mark_chunks_preemptible_locked_def
     arena_mark_preemptible_def arena_skips_def update_preemptible_budget_def ex_simps lease_record_def new_record_def)

theorem reachable_authority_invariant_witness:
  "map_option (\<lambda>a. list_all (\<lambda>r. stable_lease_count r = 0 \<or> cpu r = STABLE) (chunk_records a))
     (find_alloc ex_marked ex_rkey) = Some True"
proof (cases "find_alloc ex_marked ex_rkey")
  case None
  then show ?thesis by (simp add: ex_marked_eq put_alloc_def update_conv')
next
  case (Some a)
  with reachable_authority_invariant [OF ex_run_reachable(1) Some] show ?thesis by simp
qed

lemma ex_planned_eq:
  "ex_planned = ex_marked\<lparr>next_session_id := 2, sessions := [1 \<mapsto> \<lparr>ses_key = ex_rkey,
     ses_target = LocGPU, ses_device_id = Some 0, ses_chunks = [0, 1]\<rparr>]\<rparr>"
  by (simp add: ex_planned_def ex_marked_eq plan_load_def plan_chunks_def get_missing_chunks_locked_def
     missing_record_def gpu_missing_def ex_simps lease_record_def mark_record_def new_record_def)

lemma ex_loaded_on:
  "map_option (\<lambda>a. list_all (loaded_on (gpu_key new_registry 0)) (chunk_records a))
     (find_alloc ex_loaded ex_rkey) = Some True"
  by (simp add: ex_loaded_def ex_planned_eq ex_marked_eq commit_def finish_commit_def commit_gpu_one_def
     update_preemptible_budget_def loaded_on_def is_loaded_def
     ex_simps lease_record_def mark_record_def new_record_def)

theorem loading_complete_iff_all_loaded_witness:
  "snd (is_gpu_loading_complete new_registry ex_rkey 0 ex_loaded)"
  using loading_complete_iff_all_loaded [OF ex_run_reachable(2), of new_registry ex_rkey 0] ex_loaded_on
  by auto

end
