(* ===== verification/UMA_Leases.thy ===== *)
theory UMA_Leases
  imports UMA_Invariants
begin

text \<open>
  Stable leases of the unified memory authority against the stable budget, and the byte ranges
  of a transfer plan. The budget is used through the laws of its interface: what is reserved
  equals the leased bytes before and after every acquisition and release. The last section
  shows by concrete runs where error paths leave the two apart.
\<close>

section \<open>Sizes of chunks\<close>

definition chunk_len :: "u64 \<Rightarrow> ReplicaAllocation \<Rightarrow> nat \<Rightarrow> nat" where
  "chunk_len cs a i = min (unat cs) (unat (alloc_bytes a) - i * unat cs)"

lemma in_range_iff: "ucast (idx :: u32) < (n :: u64) \<longleftrightarrow> unat idx < unat n"
  by (simp add: word_less_nat_alt unat_ucast_u32)

lemma chunk_start:
  fixes idx :: u32
  assumes "wf_alloc cs a" "unat idx < unat (num_chunks a)"
  shows "unat (ucast idx * cs) = unat idx * unat cs" "unat idx * unat cs < unat (alloc_bytes a)"
proof -
  have "num_chunks a \<noteq> 0" using assms(2) by auto
  then have "(unat (num_chunks a) - 1) * unat cs < unat (alloc_bytes a)"
    using assms(1) by (simp add: wf_alloc_def)
  moreover have "unat idx * unat cs \<le> (unat (num_chunks a) - 1) * unat cs"
    using assms(2) by (intro mult_le_mono1) linarith
  ultimately show lt: "unat idx * unat cs < unat (alloc_bytes a)" by linarith
  then have "unat idx * unat cs < 2 ^ 64" using unat_u64_bound [of "alloc_bytes a"] by simp
  then show "unat (ucast idx * cs) = unat idx * unat cs"
    by (simp add: unat_word_ariths unat_ucast_u32)
qed

lemma chunk_bytes_len:
  assumes "wf_alloc cs a" "cs \<noteq> 0" "unat idx < unat (num_chunks a)"
  shows "unat (chunk_bytes_for_index a cs idx) = chunk_len cs a (unat idx)"
proof -
  note st = chunk_start [OF assms(1,3)]
  then have "\<not> alloc_bytes a \<le> ucast idx * cs" by (simp add: word_le_nat_alt)
  moreover have "unat (alloc_bytes a - ucast idx * cs) = unat (alloc_bytes a) - unat idx * unat cs"
    using st by (subst unat_sub) (simp_all add: word_le_nat_alt)
  ultimately show ?thesis
    using assms(2) by (simp add: chunk_bytes_for_index_def chunk_len_def min_def word_le_nat_alt)
qed

lemma sum_chunk_len: "(\<Sum>i<n. chunk_len cs a i) = min (unat (alloc_bytes a)) (n * unat cs)"
  by (induction n) (auto simp: chunk_len_def min_def)

lemma sum_chunk_len_le:
  assumes "finite S"
  shows "(\<Sum>i\<in>S. chunk_len cs a i) \<le> unat (alloc_bytes a)"
proof -
  have "S \<subseteq> {..<Suc (Max S)}" using assms by (auto simp: less_Suc_eq_le)
  then have "(\<Sum>i\<in>S. chunk_len cs a i) \<le> (\<Sum>i<Suc (Max S). chunk_len cs a i)"
    by (intro sum_mono2) auto
  then show ?thesis using sum_chunk_len [where n = "Suc (Max S)" and cs = cs and a = a] by linarith
qed

definition span_len :: "u64 \<Rightarrow> ReplicaAllocation \<Rightarrow> u32 list \<Rightarrow> nat" where
  "span_len cs a is = sum_list (map (\<lambda>i. chunk_len cs a (unat i)) is)"

lemma span_len_le: "distinct is \<Longrightarrow> span_len cs a is \<le> unat (alloc_bytes a)"
  using sum_chunk_len_le [of "unat ` set is" cs a]
  by (simp add: span_len_def sum_list_distinct_conv_sum_set sum.reindex inj_on_def comp_def)

lemma unat_sum_list:
  fixes xs :: "u64 list"
  assumes "sum_list (map unat xs) < 2 ^ 64"
  shows "unat (sum_list xs) = sum_list (map unat xs)"
  using assms
proof (induction xs)
  case (Cons x xs)
  then have "unat (sum_list xs) = sum_list (map unat xs)" by simp
  with Cons.prems show ?case by (simp add: unat_u64_add)
qed simp

lemma unat_span:
  assumes "wf_alloc cs a" "cs \<noteq> 0" "distinct is" "\<And>i. i \<in> set is \<Longrightarrow> unat i < unat (num_chunks a)"
  shows "unat (sum_list (map (chunk_bytes_for_index a cs) is)) = span_len cs a is"
proof -
  have "map unat (map (chunk_bytes_for_index a cs) is) = map (\<lambda>i. chunk_len cs a (unat i)) is"
    using assms by (simp add: chunk_bytes_len)
  moreover have "span_len cs a is < 2 ^ 64"
    using span_len_le [OF assms(3), of cs a] unat_u64_bound [of "alloc_bytes a"] by simp
  ultimately show ?thesis by (metis span_len_def unat_sum_list)
qed

section \<open>Leased bytes\<close>

definition leased :: "u64 \<Rightarrow> ReplicaAllocation \<Rightarrow> nat" where
  "leased cs a =
     (\<Sum>i<length (chunk_records a). unat (stable_lease_count (chunk_records a ! i)) * chunk_len cs a i)"

definition leased_total :: "UMA \<Rightarrow> nat" where
  "leased_total uma = sum_list (map (\<lambda>(_, a). leased (chunk_size_bytes uma) a) (allocations uma))"

definition accounted :: "UMA \<Rightarrow> bool" where
  "accounted uma =
     (case memory_tier_budget uma of
        None \<Rightarrow> True
      | Some b \<Rightarrow> unat (stable_used_bytes b) = leased_total uma \<and>
                  stable_used_bytes b \<le> stable_total_bytes b)"

lemma chunk_len_upd [simp]:
  "chunk_len cs (upd_record idx f a) = chunk_len cs a"
  "chunk_len cs (bump_ledger a) = chunk_len cs a"
  "chunk_len cs (a\<lparr>ledger_version := v\<rparr>) = chunk_len cs a"
  by (simp_all add: chunk_len_def bump_ledger_def fun_eq_iff)

lemma leased_fields [simp]:
  "leased cs (bump_ledger a) = leased cs a"
  "leased cs (a\<lparr>ledger_version := v\<rparr>) = leased cs a"
  by (simp_all add: leased_def bump_ledger_def chunk_len_def)


lemma leased_upd:
  assumes "in_records idx a"
    and "int (unat (stable_lease_count (f (rec_at a idx)))) = int (unat (stable_lease_count (rec_at a idx))) + d"
  shows "int (leased cs (upd_record idx f a)) = int (leased cs a) + d * int (chunk_len cs a (unat idx))"
proof -
  define n where "n = length (chunk_records a)"
  define g where "g b i = int (unat (stable_lease_count (chunk_records b ! i)) * chunk_len cs a i)"
    for b :: ReplicaAllocation and i
  have "(\<Sum>i<n. g b i) = g b (unat idx) + (\<Sum>i\<in>{..<n} - {unat idx}. g b i)" for b
    using assms(1) by (intro sum.remove) (simp_all add: n_def)
  moreover have "(\<Sum>i\<in>{..<n} - {unat idx}. g (upd_record idx f a) i) = (\<Sum>i\<in>{..<n} - {unat idx}. g a i)"
    by (intro sum.cong) (auto simp: g_def upd_record_nth n_def)
  moreover have "g (upd_record idx f a) (unat idx) = g a (unat idx) + d * int (chunk_len cs a (unat idx))"
    using assms by (simp add: g_def upd_record_nth distrib_right)
  moreover have "int (leased cs b) = (\<Sum>i<n. g b i)"
    if "chunk_len cs b = chunk_len cs a" "length (chunk_records b) = n" for b
    using that by (simp add: leased_def g_def)
  ultimately show ?thesis by (simp add: n_def)
qed

lemma leased_fold:
  assumes "distinct is" "\<And>i. i \<in> set is \<Longrightarrow> in_records i a"
    and "\<And>i. i \<in> set is \<Longrightarrow> int (unat (stable_lease_count (f (rec_at a i)))) =
      int (unat (stable_lease_count (rec_at a i))) + d"
  shows "int (leased cs (fold (\<lambda>i. upd_record i f) is a)) = int (leased cs a) + d * int (span_len cs a is)"
  using assms
proof (induction "is" arbitrary: a)
  case (Cons i "is")
  have "rec_at (upd_record i f a) j = rec_at a j" if "j \<in> set is" for j
  proof -
    have "unat j \<noteq> unat i" using Cons.prems(1) that by (auto simp: unat_word_eq)
    with Cons.prems(2) [of j] that show ?thesis by (simp add: upd_record_nth)
  qed
  then have "int (leased cs (fold (\<lambda>i. upd_record i f) is (upd_record i f a))) =
      int (leased cs (upd_record i f a)) + d * int (span_len cs (upd_record i f a) is)"
    using Cons.prems by (intro Cons.IH) auto
  moreover have "int (leased cs (upd_record i f a)) = int (leased cs a) + d * int (chunk_len cs a (unat i))"
    using Cons.prems by (intro leased_upd) auto
  ultimately show ?case by (simp add: span_len_def distrib_left)
qed (simp add: span_len_def)

lemma leased_total_put:
  assumes "find_alloc uma key = Some a"
  shows "leased_total (put_alloc key a' uma) + leased (chunk_size_bytes uma) a =
    leased_total uma + leased (chunk_size_bytes uma) a'"
  using alist_update_sum [OF assms, of "\<lambda>(_, a). leased (chunk_size_bytes uma) a" a']
  by (simp add: leased_total_def put_alloc_def)

lemma accounted_telemetry [simp]:
  "accounted (update_preemptible_budget os uma) = accounted uma"
  by (simp add: accounted_def update_preemptible_budget_def leased_total_def
      set_preemptible_marked_bytes_def split: option.split)

lemma leased_total_telemetry [simp]:
  "leased_total (update_preemptible_budget os uma) = leased_total uma"
  "leased_total (uma\<lparr>memory_tier_budget := b\<rparr>) = leased_total uma"
  by (simp_all add: leased_total_def uma_simps)

lemma accounted_budget:
  "accounted (uma\<lparr>memory_tier_budget := Some b\<rparr>) \<longleftrightarrow>
     unat (stable_used_bytes b) = leased_total uma \<and> stable_used_bytes b \<le> stable_total_bytes b"
  by (simp add: accounted_def)


section \<open>Acquiring and releasing\<close>

lemma distinct_remdups_adj: "sorted xs \<Longrightarrow> distinct (remdups_adj xs)"
  by (induction xs rule: remdups_adj.induct) auto

lemma sort_unique_props:
  "distinct (sort_unique xs)" "set (sort_unique xs) = set xs" "sorted (sort_unique xs)"
  by (simp_all add: sort_unique_def distinct_remdups_adj sorted_remdups_adj)


lemma unlease_loop_ok:
  assumes "distinct is" "\<And>i. i \<in> set is \<Longrightarrow> unat i < unat (num_chunks a)"
    and "length (chunk_records a) = unat (num_chunks a)"
    and "\<And>i. i \<in> set is \<Longrightarrow> stable_lease_count (rec_at a i) \<noteq> 0"
  shows "unlease_loop is a = (fold (\<lambda>i. upd_record i unlease_record) is a, ok_status)"
  using assms
proof (induction "is" arbitrary: a)
  case (Cons i "is")
  have "rec_at (upd_record i unlease_record a) j = rec_at a j" if "j \<in> set is" for j
  proof -
    have "unat j \<noteq> unat i" using Cons.prems(1) that by auto
    with Cons.prems(2) [of j] Cons.prems(3) that show ?thesis by (simp add: upd_record_nth)
  qed
  with Cons show ?case by (simp add: word_le_nat_alt not_le)
qed simp

lemma fold_upd_fields [simp]:
  "num_chunks (fold (\<lambda>i. upd_record i f) is a) = num_chunks a"
  "length (chunk_records (fold (\<lambda>i. upd_record i f) is a)) = length (chunk_records a)"
  "alloc_bytes (fold (\<lambda>i. upd_record i f) is a) = alloc_bytes a"
  "span_len cs (fold (\<lambda>i. upd_record i f) is a) = span_len cs a"
proof -
  show al: "alloc_bytes (fold (\<lambda>i. upd_record i f) is a) = alloc_bytes a"
    by (induction "is" arbitrary: a) simp_all
  then show "span_len cs (fold (\<lambda>i. upd_record i f) is a) = span_len cs a"
    by (simp add: span_len_def chunk_len_def fun_eq_iff)
qed (induction "is" arbitrary: a; simp)+


lemma normalize_nothing [simp]: "normalize_chunk_indices [] 0 = []"
  by (simp add: normalize_chunk_indices_def iota_def)

lemma normalized_props:
  assumes "unat n \<le> 2 ^ 32" "\<And>i. i \<in> set chunks \<Longrightarrow> unat i < unat n"
  shows "distinct (normalize_chunk_indices chunks n)"
    "i \<in> set (normalize_chunk_indices chunks n) \<Longrightarrow> unat i < unat n"
proof -
  have "unat (of_nat k :: u32) = k" if "k < unat n" for k
    using that assms(1) by (simp add: unat_of_nat take_bit_nat_eq_self)
  then have "distinct (iota (unat n))" and "\<And>i. i \<in> set (iota (unat n)) \<Longrightarrow> unat i < unat n"
    by (auto simp: iota_def distinct_map inj_on_def) (metis)
  with assms(2) sort_unique_props [of chunks] show "distinct (normalize_chunk_indices chunks n)"
    "i \<in> set (normalize_chunk_indices chunks n) \<Longrightarrow> unat i < unat n"
    by (auto simp: normalize_chunk_indices_def split: if_splits)
qed


lemma lease_count_down:
  assumes "stable_lease_count r \<noteq> 0"
  shows "int (unat (stable_lease_count (unlease_record r))) = int (unat (stable_lease_count r)) + - 1"
proof -
  have "stable_lease_count (unlease_record r) = stable_lease_count r - 1"
    by (simp add: unlease_record_def Let_def)
  moreover have "0 < unat (stable_lease_count r)" using assms by (simp add: unat_gt_0)
  ultimately show ?thesis using assms by (simp add: unat_minus_one)
qed


lemma leased_down:
  assumes "distinct is" "\<And>i. i \<in> set is \<Longrightarrow> in_records i a"
    and "\<And>i. i \<in> set is \<Longrightarrow> stable_lease_count (rec_at a i) \<noteq> 0"
  shows "leased cs (fold (\<lambda>i. upd_record i unlease_record) is a) + span_len cs a is = leased cs a"
  using leased_fold [OF assms(1,2), of unlease_record "- 1" cs] lease_count_down assms(3) by simp







section \<open>Properties\<close>


text \<open>
  C19. Releasing a stable lease whose chunks are all held returns its bytes to the budget, each
  chunk once, and keeps the budget equal to the bytes under lease.
\<close>

theorem release_keeps_accounts:
  assumes "uma_reachable uma" "accounted uma" and found: "find_alloc uma key = Some a"
    and small: "unat (num_chunks a) \<le> 2 ^ 32"
    and held: "list_all (\<lambda>i. unat i < unat (num_chunks a) \<and> stable_lease_count (rec_at a i) \<noteq> 0)
      (normalize_chunk_indices chunks (num_chunks a))"
  shows "accounted (fst (release_stable_lease key chunks uma)) \<and>
    leased_total (fst (release_stable_lease key chunks uma)) +
      span_len (chunk_size_bytes uma) a (normalize_chunk_indices chunks (num_chunks a)) =
    leased_total uma"
proof -
  let ?cs = "chunk_size_bytes uma" and ?ids = "normalize_chunk_indices chunks (num_chunks a)"
  let ?a = "fold (\<lambda>i. upd_record i unlease_record) ?ids a"
  have wf: "wf_alloc ?cs a" and cs: "?cs \<noteq> 0"
    using uma_reachable_ok [OF assms(1)] found by (auto intro: find_alloc_wf simp: uma_ok_def)
  have ids: "distinct ?ids" "\<And>i. i \<in> set ?ids \<Longrightarrow> unat i < unat (num_chunks a)"
    "\<And>i. i \<in> set ?ids \<Longrightarrow> stable_lease_count (rec_at a i) \<noteq> 0"
    using normalized_props(1) [OF small, of chunks] held sort_unique_props [of chunks]
    by (auto simp: list_all_iff normalize_chunk_indices_def split: if_splits)
  have recs: "length (chunk_records a) = unat (num_chunks a)" using wf by (simp add: wf_alloc_def)
  note loop = unlease_loop_ok [OF ids(1,2) recs ids(3)]
  have down: "leased ?cs ?a + span_len ?cs a ?ids = leased ?cs a"
    using ids recs by (intro leased_down) simp_all
  have "chunk_bytes_for_index ?a ?cs = chunk_bytes_for_index a ?cs"
    by (simp add: chunk_bytes_for_index_def fun_eq_iff)
  then have bytes: "unat (sum_list (map (chunk_bytes_for_index ?a ?cs) ?ids)) = span_len ?cs a ?ids"
    using unat_span [OF wf cs ids(1,2)] by simp
  have tot: "leased_total (put_alloc key (bump_ledger ?a) uma) + span_len ?cs a ?ids = leased_total uma"
    using leased_total_put [OF found, of "bump_ledger ?a"] down by simp
  have "accounted ((put_alloc key (bump_ledger ?a) uma)\<lparr>memory_tier_budget := map_option
      (release_stable (sum_list (map (chunk_bytes_for_index ?a ?cs) ?ids))) (memory_tier_budget uma)\<rparr>)"
    using assms(2) tot budget.release_used budget.release_within
    by (cases "memory_tier_budget uma") (auto simp: accounted_def bytes)
  with tot assms(2) found show ?thesis
    by (simp add: release_stable_lease_def Let_def loop span_len_def)
qed

section \<open>A leased chunk, and what error paths leave behind\<close>

definition ex_budgeted :: "u64 \<Rightarrow> UMA" where
  "ex_budgeted limit = set_memory_tier_budget (Some (new_budget limit 0)) ex_allocated"

lemma ex_budgeted_reachable: "uma_reachable (ex_budgeted limit)"
  unfolding ex_budgeted_def ex_allocated_def
  by (rule reach_step [OF reach_step [OF reach_new step_allocate] step_budget])

lemma ex_budgeted_alloc:
  "find_alloc (ex_budgeted limit) ex_rkey = Some (ex_alloc [new_record 0, new_record (Suc 0)])"
  "chunk_size_bytes (ex_budgeted limit) = 8"
  "memory_tier_budget (ex_budgeted limit) = Some (new_budget limit 0)"
  by (simp_all add: ex_budgeted_def ex_allocated_eq set_memory_tier_budget_def put_alloc_def
      new_uma_def)



lemma ex_total:
  "leased_total (put_alloc ex_rkey a (ex_budgeted limit)) = leased 8 a"
  by (simp add: leased_total_def ex_budgeted_def ex_allocated_eq set_memory_tier_budget_def
      put_alloc_def new_uma_def)

lemma ex_leased:
  assumes "chunk_records a = [r0, r1]" "alloc_bytes a = 10"
  shows "leased 8 a = unat (stable_lease_count r0) * 8 + unat (stable_lease_count r1) * 2"
  using assms by (simp add: leased_def lessThan_Suc chunk_len_def)

definition ex_held :: UMA where
  "ex_held = fst (acquire_stable_lease ex_os ex_rkey [0] (ex_budgeted 100))"

lemma ex_held_reachable: "uma_reachable ex_held"
  unfolding ex_held_def by (rule reach_step [OF ex_budgeted_reachable step_acquire])

definition ex_held_state :: UMA where
  "ex_held_state = (put_alloc ex_rkey
     ((ex_alloc [lease_record (new_record 0), new_record (Suc 0)])\<lparr>ledger_version := 1\<rparr>) (ex_budgeted 100))
     \<lparr>memory_tier_budget := Some ((new_budget 100 0)\<lparr>stable_used_bytes := 8\<rparr>)\<rparr>"

lemma ex_held_eq: "ex_held = update_preemptible_budget ex_os ex_held_state"
  by (simp add: ex_held_def acquire_stable_lease_def ex_budgeted_alloc Let_def normalize_chunk_indices_def
      sort_unique_def ex_alloc_def upd_record_def bump_ledger_def chunk_bytes_for_index_def
      try_acquire_stable_def new_budget_def ex_held_state_def)

lemma ex_held_alloc:
  "find_alloc ex_held ex_rkey =
     Some ((ex_alloc [lease_record (new_record 0), new_record (Suc 0)])\<lparr>ledger_version := 1\<rparr>)"
  by (simp add: ex_held_eq uma_simps ex_held_state_def put_alloc_def update_conv')

lemma ex_held_accounted: "accounted ex_held"
  by (simp add: ex_held_eq ex_held_state_def accounted_budget ex_total ex_leased ex_alloc_def
      lease_record_def new_record_def new_budget_def)

theorem release_keeps_accounts_witness:
  "accounted (fst (release_stable_lease ex_rkey [0] ex_held))"
  using release_keeps_accounts [OF ex_held_reachable ex_held_accounted ex_held_alloc, of "[0]"]
  by (simp add: ex_alloc_def new_record_def lease_record_def normalize_chunk_indices_def sort_unique_def)

text \<open>
  A lease request that names a chunk past the end fails after the chunks before it were
  counted: their leases stay, nothing is charged, and no handle can release them.
\<close>

lemma out_of_range_lease_leaks:
  "(case acquire_stable_lease ex_os ex_rkey [0, 5] (ex_budgeted 100) of
      (uma, Inl _) \<Rightarrow> leased_total uma = 8 \<and>
        memory_tier_budget uma = Some (new_budget 100 0) \<and> \<not> accounted uma
    | (_, Inr _) \<Rightarrow> False)"
  by (simp add: acquire_stable_lease_def ex_budgeted_alloc Let_def normalize_chunk_indices_def
      sort_unique_def ex_alloc_def upd_record_def put_alloc_simps accounted_def ex_total ex_leased
      lease_record_def new_record_def new_budget_def)

text \<open>
  Releasing a replica whose chunks are leased does not return their bytes to the budget.
\<close>

lemma release_keeps_charge:
  "(case release ex_rkey ex_held of
      (uma, Inl _) \<Rightarrow> False
    | (uma, Inr _) \<Rightarrow> leased_total uma = 0 \<and>
        map_option stable_used_bytes (memory_tier_budget uma) = Some 8)"
  by (simp add: release_def ex_held_alloc clear_rehydrate_records_for_key_def Let_def leased_total_def
      ex_held_eq uma_simps update_preemptible_budget_def set_preemptible_marked_bytes_def
      ex_held_state_def put_alloc_def ex_budgeted_def ex_allocated_eq set_memory_tier_budget_def
      new_uma_def)

text \<open>
  A direct-write range whose end wraps around passes the bounds check: the window starts one
  byte before the region of the replica.
\<close>

lemma wrapped_grant_accepted:
  "(case grant_direct_write (\<lambda>_. Locked) True ex_rkey [\<lparr>va_offset = - 1, va_length = 2\<rparr>] (ex_budgeted 0) of
      (_, Inr (windows, pinned)) \<Rightarrow>
        windows = [\<lparr>win_va_offset = - 1, win_local_addr = 4095, win_length = 2\<rparr>] \<and> pinned = []
    | (_, Inl _) \<Rightarrow> False)"
  by (simp add: grant_direct_write_def ex_budgeted_alloc ex_alloc_def range_chunks_def pin_chunks_def
     sort_unique_def Let_def)

lemma update_budget_budget:
  "memory_tier_budget (update_preemptible_budget os uma) =
     map_option (set_preemptible_marked_bytes (compute_preemptible_bytes os uma)) (memory_tier_budget uma)"
  by (simp add: update_preemptible_budget_def split: option.split)

text \<open>
  A lease that the budget refuses turns a preemptible chunk into a hot one: its pages may be
  gone, but the residency check is only made for preemptible chunks.
\<close>

lemma refused_lease_revives_preempted:
  "(case acquire_stable_lease ex_os ex_rkey [1]
        (fst (post_gpu_load_policy ex_os ex_rkey 10 MarkPreemptible (ex_budgeted 1))) of
      (uma, Inl _) \<Rightarrow> get_cpu_chunk_state ex_rkey 1 uma = Inr HOT
    | (_, Inr _) \<Rightarrow> False)"
  by (simp add: post_gpu_load_policy_def mark_chunks_preemptible_locked_def ex_budgeted_alloc ex_alloc_def
      arena_mark_preemptible_def arena_skips_def new_record_def iota_def two_indices one_below_two
      acquire_stable_lease_def uma_simps put_alloc_simps mark_record_def bump_ledger_def upd_record_def
      normalize_chunk_indices_def sort_unique_def Let_def get_cpu_chunk_state_def undo_lease_def
      update_budget_budget try_acquire_stable_def set_preemptible_marked_bytes_def new_budget_def
      chunk_bytes_for_index_def lease_record_def unlease_record_def update_conv')

end
