(* ===== verification/UMA_Plans.thy ===== *)
theory UMA_Plans
  imports UMA_Leases
begin

text \<open>
  Transfer plans of the unified memory authority: the byte ranges of a plan are exactly the
  bytes of its chunks, and committing a plan for a device completes the load there.
\<close>

section \<open>Runs of chunk indices\<close>

definition run_set :: "u32 \<times> u32 \<Rightarrow> nat set" where
  "run_set r = {unat (fst r)..unat (snd r)}"

lemma unat_next:
  fixes prev idx :: u32
  assumes "prev < idx"
  shows "idx = prev + 1 \<longleftrightarrow> unat idx = Suc (unat prev)"
proof -
  have "unat prev < unat idx" using assms by (simp add: word_less_nat_alt)
  then have "Suc (unat prev) < 2 ^ 32" using unat_u32_bound [of idx] by linarith
  then have "unat (prev + 1) = Suc (unat prev)" by (simp add: unat_word_ariths)
  then show ?thesis by (metis unat_word_eq)
qed

lemma coalesce_from_sound:
  assumes "sorted_wrt (<) (prev # rest)" "run_start \<le> prev"
  shows "(\<Union>r\<in>set (coalesce_from run_start prev rest). run_set r) =
      {unat run_start..unat prev} \<union> unat ` set rest \<and>
    list_all (\<lambda>r. fst r \<le> snd r \<and> run_start \<le> fst r) (coalesce_from run_start prev rest) \<and>
    sorted_wrt (\<lambda>r s. Suc (unat (snd r)) < unat (fst s)) (coalesce_from run_start prev rest)"
  using assms
proof (induction rest arbitrary: run_start prev)
  case (Cons idx rest)
  have lt: "prev < idx" and srt: "sorted_wrt (<) (idx # rest)" using Cons.prems by auto
  then have ult: "unat prev < unat idx" by (simp add: word_less_nat_alt)
  have le: "run_start \<le> idx" "idx \<le> idx" using lt Cons.prems(2) by auto
  show ?case
  proof (cases "idx = prev + 1")
    case True
    then have "{unat run_start..unat idx} = {unat run_start..unat prev} \<union> {unat idx}"
      using unat_next [OF lt] Cons.prems(2) by (auto simp: word_le_nat_alt)
    with Cons.IH [OF srt le(1)] True show ?thesis by auto
  next
    case False
    note rec = Cons.IH [OF srt le(2)]
    have "Suc (unat prev) < unat (fst s)" if "s \<in> set (coalesce_from idx idx rest)" for s
    proof -
      have "unat idx \<le> unat (fst s)" using rec that by (auto simp: list_all_iff word_le_nat_alt)
      moreover have "unat idx \<noteq> Suc (unat prev)" using False unat_next [OF lt] by simp
      ultimately show ?thesis using ult by linarith
    qed
    with rec False Cons.prems(2) le(1) show ?thesis by (auto simp: run_set_def list_all_iff)
  qed
qed (simp add: run_set_def)

lemma sort_unique_sorted: "sorted_wrt (<) (sort_unique xs)"
  using sort_unique_props [of xs] by (simp add: strict_sorted_iff)

lemma coalesce_runs_sound:
  assumes "sorted_wrt (<) xs"
  shows "(\<Union>r\<in>set (coalesce_runs xs). run_set r) = unat ` set xs"
    and "list_all (\<lambda>r. fst r \<le> snd r) (coalesce_runs xs)"
    and "sorted_wrt (\<lambda>r s. Suc (unat (snd r)) < unat (fst s)) (coalesce_runs xs)"
  using coalesce_from_sound [of "hd xs" "tl xs" "hd xs"] assms
  by (cases xs; auto simp: coalesce_runs_def list_all_iff)+

text \<open>
  C20. Sorting, deduplicating and coalescing chunk indices loses none and invents none: the
  inclusive runs cover exactly the given indices, each run is non-empty, and between two runs
  there is a gap, so no two of them could be merged.
\<close>

theorem coalesced_runs_exact:
  "(\<Union>r\<in>set (coalesce_runs (sort_unique xs)). {unat (fst r)..unat (snd r)}) = unat ` set xs \<and>
   list_all (\<lambda>r. fst r \<le> snd r) (coalesce_runs (sort_unique xs)) \<and>
   sorted_wrt (\<lambda>r s. Suc (unat (snd r)) < unat (fst s)) (coalesce_runs (sort_unique xs))"
  using coalesce_runs_sound [OF sort_unique_sorted, of xs]
  by (simp add: run_set_def sort_unique_props)

section \<open>Byte ranges of a plan\<close>

definition range_bytes :: "u64 \<times> u64 \<Rightarrow> nat set" where
  "range_bytes r = {unat (fst r)..<unat (fst r) + unat (snd r)}"

lemma run_range_bytes:
  assumes wf: "wf_alloc cs a" and cs: "cs \<noteq> 0" and r: "fst r \<le> snd r" "unat (snd r) < unat (num_chunks a)"
    and small: "unat (num_chunks a) < 2 ^ 32" "unat (alloc_bytes a) + unat cs \<le> 2 ^ 64"
  shows "range_bytes (run_range cs (alloc_bytes a) r) =
    {b. b < unat (alloc_bytes a) \<and> b div unat cs \<in> run_set r}"
proof -
  let ?c = "unat cs" and ?f = "unat (fst r)" and ?s = "unat (snd r)" and ?t = "unat (alloc_bytes a)"
  have fs: "?f \<le> ?s" using r(1) by (simp add: word_le_nat_alt)
  then have f: "?f < unat (num_chunks a)" using r(2) by linarith
  note off = chunk_start [OF wf f] and fin = chunk_start [OF wf r(2)]
  have up: "unat (snd r + 1) = Suc ?s" using r(2) small(1) by (simp add: unat_word_ariths)
  have "Suc ?s * ?c < 2 ^ 64" using fin(2) small(2) by simp
  then have end_off: "unat (ucast (snd r + 1) * cs) = Suc ?s * ?c"
    using unat_u64_mult [of "ucast (snd r + 1)" cs] up by simp
  have mono: "?f * ?c \<le> Suc ?s * ?c" using fs by (intro mult_le_mono1) simp
  have len: "unat (snd (run_range cs (alloc_bytes a) r)) = min ?t (Suc ?s * ?c) - ?f * ?c"
    using end_off off mono
    by (auto simp: run_range_def Let_def word_less_nat_alt word_le_nat_alt unat_sub min_def)
  have "fst (run_range cs (alloc_bytes a) r) = ucast (fst r) * cs" by (simp add: run_range_def Let_def)
  then have "range_bytes (run_range cs (alloc_bytes a) r) = {?f * ?c..<min ?t (Suc ?s * ?c)}"
    unfolding range_bytes_def len using off mono by auto
  also have "\<dots> = {b. b < ?t \<and> b div ?c \<in> run_set r}"
  proof -
    have "0 < ?c" using cs by (simp add: unat_gt_0)
    then have "?f \<le> b div ?c \<longleftrightarrow> ?f * ?c \<le> b" "b div ?c < Suc ?s \<longleftrightarrow> b < Suc ?s * ?c" for b
      by (simp_all only: less_eq_div_iff_mult_less_eq div_less_iff_less_mult)
    then show ?thesis by (auto simp: run_set_def less_Suc_eq_le)
  qed
  finally show ?thesis .
qed

lemma plan_chunks_in_range:
  assumes "plan_chunks reg key a target d selection uma = Inr chunks" "find_alloc uma key = Some a"
    and "wf_alloc cs a" "unat (num_chunks a) < 2 ^ 32"
    and "list_all (\<lambda>i. unat i < unat (num_chunks a)) (case selection of None \<Rightarrow> [] | Some is \<Rightarrow> is)"
  shows "list_all (\<lambda>i. unat i < unat (num_chunks a)) chunks"
proof -
  have "unat (of_nat k :: u32) = k" if "k < unat (num_chunks a)" for k
    using that assms(4) by (simp add: unat_of_nat take_bit_nat_eq_self)
  then have "list_all (\<lambda>i. unat i < unat (num_chunks a)) (get_missing_chunks_locked reg key target d uma)"
    "list_all (\<lambda>i. unat i < unat (num_chunks a)) (iota (unat (num_chunks a)))"
    using assms(2,3) by (auto simp: get_missing_chunks_locked_def list_all_iff iota_def wf_alloc_def)
  with assms(1,5) show ?thesis
    by (auto simp: plan_chunks_def Let_def split: option.splits list.splits if_splits)
qed

text \<open>
  C21. The byte ranges of a transfer plan are exactly the bytes of the chunks it lists, clipped
  to the size of the replica, and the plan's session records those chunks, provided that
  explicitly requested chunks lie in the replica and sizes stay clear of the end of the
  64-bit range.
\<close>

theorem plan_ranges_exact:
  assumes "uma_reachable uma" and found: "find_alloc uma key = Some a"
    and run: "plan_load os reg now key target d selection uma = (uma', Inr plan)"
    and small: "unat (num_chunks a) < 2 ^ 32"
      "unat (alloc_bytes a) + unat (chunk_size_bytes uma) \<le> 2 ^ 64"
    and sel: "list_all (\<lambda>i. unat i < unat (num_chunks a)) (case selection of None \<Rightarrow> [] | Some is \<Rightarrow> is)"
  shows "(\<Union>r\<in>set (plan_ranges plan). {unat (fst r)..<unat (fst r) + unat (snd r)}) =
      {b. b < unat (alloc_bytes a) \<and> b div unat (chunk_size_bytes uma) \<in> unat ` set (plan_chunk_indices plan)} \<and>
    map_option ses_chunks (sessions uma' (plan_session_id plan)) = Some (plan_chunk_indices plan)"
proof -
  let ?cs = "chunk_size_bytes uma"
  have wf: "wf_alloc ?cs a" and cs: "?cs \<noteq> 0"
    using uma_reachable_ok [OF assms(1)] found by (auto intro: find_alloc_wf simp: uma_ok_def)
  obtain chunks where chunks: "plan_chunks reg key a target d selection uma = Inr chunks"
    using run found by (auto simp: plan_load_def split: sum.splits)
  let ?ids = "sort_unique chunks"
  have plan: "plan_ranges plan = map (run_range ?cs (alloc_bytes a)) (coalesce_runs ?ids)"
    "plan_chunk_indices plan = ?ids"
    "map_option ses_chunks (sessions uma' (plan_session_id plan)) = Some ?ids"
    using run found chunks by (auto simp: plan_load_def Let_def)
  have ids: "\<And>i. i \<in> set ?ids \<Longrightarrow> unat i < unat (num_chunks a)"
    using plan_chunks_in_range [OF chunks found wf small(1) sel]
    by (simp add: list_all_iff sort_unique_props)
  note co = coalesce_runs_sound [OF sort_unique_sorted, of chunks]
  have "range_bytes (run_range ?cs (alloc_bytes a) r) =
      {b. b < unat (alloc_bytes a) \<and> b div unat ?cs \<in> run_set r}" if r: "r \<in> set (coalesce_runs ?ids)" for r
  proof (rule run_range_bytes [OF wf cs _ _ small])
    show "fst r \<le> snd r" using co(2) r by (simp add: list_all_iff)
    then have "unat (snd r) \<in> run_set r" by (simp add: run_set_def word_le_nat_alt)
    then have "unat (snd r) \<in> unat ` set ?ids" using co(1) r by blast
    then show "unat (snd r) < unat (num_chunks a)" using ids by auto
  qed
  then have "(\<Union>r\<in>set (plan_ranges plan). range_bytes r) =
      {b. b < unat (alloc_bytes a) \<and> b div unat ?cs \<in> (\<Union>r\<in>set (coalesce_runs ?ids). run_set r)}"
    by (auto simp: plan(1))
  then show ?thesis using plan(2,3) co(1) by (simp add: range_bytes_def)
qed

section \<open>Completing a load\<close>

lemma commit_gpu_one_loaded:
  assumes "in_records idx a" "j < length (chunk_records a)"
  shows "length (chunk_records (commit_gpu_one now dev idx a)) = length (chunk_records a)"
    and "loaded_on dev (chunk_records (commit_gpu_one now dev idx a) ! j) \<longleftrightarrow>
      j = unat idx \<or> loaded_on dev (chunk_records a ! j)"
proof -
  show "length (chunk_records (commit_gpu_one now dev idx a)) = length (chunk_records a)"
    by (simp add: commit_gpu_one_def Let_def)
  have "chunk_records (commit_gpu_one now dev idx a) = chunk_records (upd_record idx
      (\<lambda>r. r\<lparr>gpu := (gpu r)(dev \<mapsto> COPIED_GPU), last_access_ns := now,
            rec_version := rec_version r + 1\<rparr>) a)"
    by (simp add: commit_gpu_one_def Let_def)
  then show "loaded_on dev (chunk_records (commit_gpu_one now dev idx a) ! j) \<longleftrightarrow>
      j = unat idx \<or> loaded_on dev (chunk_records a ! j)"
    using assms(2) by (simp add: upd_record_nth loaded_on_def is_loaded_def)
qed

lemma commit_gpu_loop_loaded:
  assumes "\<And>i. i \<in> set is \<Longrightarrow> in_records i a"
  shows "snd (commit_gpu_loop now dev is a) = ok_status \<and>
    length (chunk_records (fst (commit_gpu_loop now dev is a))) = length (chunk_records a) \<and>
    (\<forall>j<length (chunk_records a). loaded_on dev (chunk_records (fst (commit_gpu_loop now dev is a)) ! j) \<longleftrightarrow>
       j \<in> unat ` set is \<or> loaded_on dev (chunk_records a ! j))"
  using assms
proof (induction "is" arbitrary: a)
  case (Cons i "is")
  let ?b = "commit_gpu_one now dev i a"
  have len: "length (chunk_records ?b) = length (chunk_records a)"
    by (simp add: commit_gpu_one_def Let_def)
  then have "in_records k ?b" if "k \<in> set is" for k using Cons.prems that by simp
  from Cons.IH [OF this] Cons.prems [of i] commit_gpu_one_loaded(2) [where idx = i and a = a and now = now and dev = dev] len
  show ?case by auto
qed simp

text \<open>
  C22. A plan to load everything that is missing on a device, followed by the commit of its
  session, succeeds and leaves the replica completely loaded on that device.
\<close>

theorem plan_then_commit_completes:
  assumes "uma_reachable uma" and found: "find_alloc uma key = Some a"
    and small: "unat (num_chunks a) \<le> 2 ^ 32"
    and plan: "plan_load os reg now key LocGPU (Some d) None uma = (uma1, Inr plan)"
    and comm: "commit os reg t clock (plan_session_id plan) LocGPU [] None uma1 = (uma2, st)"
  shows "st = ok_status \<and> snd (is_gpu_loading_complete reg key d uma2)"
proof -
  let ?dev = "gpu_key reg d" and ?miss = "get_missing_chunks_locked reg key LocGPU (Some d) uma"
  let ?ids = "sort_unique ?miss"
  have ok: "uma_ok uma" by (rule uma_reachable_ok [OF assms(1)])
  then have len: "length (chunk_records a) = unat (num_chunks a)"
    using find_alloc_wf [OF _ found] by (simp add: wf_alloc_def)
  have idx: "unat (of_nat k :: u32) = k" if "k < unat (num_chunks a)" for k
    using that small by (simp add: unat_of_nat take_bit_nat_eq_self)
  let ?open = "{j. j < length (chunk_records a) \<and> \<not> loaded_on ?dev (chunk_records a ! j)}"
  have "missing_record reg LocGPU (Some d) r \<longleftrightarrow> \<not> loaded_on ?dev r" for r
    by (simp add: missing_record_def gpu_missing_def loaded_on_def split: option.split)
  then have "set ?ids = of_nat ` ?open"
    by (auto simp: get_missing_chunks_locked_def found sort_unique_props)
  moreover have "unat ` (of_nat ` ?open :: u32 set) = ?open"
    unfolding image_image using idx len by (intro image_cong [THEN trans, OF refl _ image_ident]) simp
  ultimately have miss: "unat ` set ?ids = ?open" by simp
  have u1: "sessions uma1 (plan_session_id plan) = Some \<lparr>ses_key = key, ses_target = LocGPU,
      ses_device_id = Some d, ses_chunks = ?ids\<rparr>" "allocations uma1 = allocations uma" "uma_ok uma1"
    using plan found ok
    by (auto simp: plan_load_def plan_chunks_def Let_def uma_simps split: if_splits)
  have "in_records i a" if "i \<in> set ?ids" for i using miss that by blast
  note loop = commit_gpu_loop_loaded [where ?is = ?ids and a = a and now = t and dev = ?dev, OF this]
  then obtain b where b: "commit_gpu_loop t ?dev ?ids a = (b, ok_status)" by (metis prod.collapse)
  have all: "list_all (loaded_on ?dev) (chunk_records b)"
    using loop miss unfolding b by (auto simp: list_all_length)
  have st: "st = ok_status" and u2: "uma2 = finish_commit os (plan_session_id plan) key ?ids b uma1"
    using comm u1(1,2) found b by (simp_all add: commit_def Let_def)
  have "uma_ok uma2" using uma_ok_commit [OF u1(3)] comm by (metis fst_conv)
  moreover have "\<exists>b. find_alloc uma2 key = Some b \<and> list_all (loaded_on ?dev) (chunk_records b)"
    using all by (auto simp: u2 finish_commit_def Let_def uma_simps bump_ledger_def put_alloc_simps)
  ultimately show ?thesis using st loading_complete_iff by blast
qed

definition ex_plan :: TransferPlan where
  "ex_plan = \<lparr>plan_session_id = 1, plan_ranges = [(0, 10)], plan_chunk_indices = [0, 1]\<rparr>"

lemma ex_plan_eq:
  "plan_load ex_os new_registry 0 ex_rkey LocGPU (Some 0) None ex_marked = (ex_planned, Inr ex_plan)"
proof -
  have "snd (plan_load ex_os new_registry 0 ex_rkey LocGPU (Some 0) None ex_marked) = Inr ex_plan"
    by (simp add: ex_marked_eq plan_load_def plan_chunks_def get_missing_chunks_locked_def
        missing_record_def gpu_missing_def ex_simps lease_record_def mark_record_def new_record_def
        ex_plan_def coalesce_runs_def run_range_def word_less_nat_alt)
  then show ?thesis by (simp add: ex_planned_def prod_eq_iff)
qed

lemma ex_marked_alloc:
  "find_alloc ex_marked ex_rkey = Some ((ex_alloc [lease_record (new_record 0), mark_record (new_record (Suc 0))])
     \<lparr>ledger_version := 2\<rparr>)"
  "chunk_size_bytes ex_marked = 8"
  by (simp_all add: ex_marked_eq put_alloc_def new_uma_def)

theorem plan_ranges_exact_witness:
  "(\<Union>r\<in>set (plan_ranges ex_plan). {unat (fst r)..<unat (fst r) + unat (snd r)}) =
     {b. b < 10 \<and> b div 8 \<in> {0, 1}}"
  using plan_ranges_exact [OF ex_run_reachable(1) ex_marked_alloc(1) ex_plan_eq]
  by (simp add: ex_alloc_def ex_marked_alloc(2) ex_plan_def)

theorem plan_then_commit_completes_witness:
  "snd (commit ex_os new_registry 5 0 1 LocGPU [] None ex_planned) = ok_status \<and>
   snd (is_gpu_loading_complete new_registry ex_rkey 0 ex_loaded)"
proof -
  have "commit ex_os new_registry 5 0 (plan_session_id ex_plan) LocGPU [] None ex_planned =
      (ex_loaded, snd (commit ex_os new_registry 5 0 1 LocGPU [] None ex_planned))"
    by (simp add: ex_loaded_def ex_plan_def)
  from plan_then_commit_completes [OF ex_run_reachable(1) ex_marked_alloc(1) _ ex_plan_eq this]
  show ?thesis by (simp add: ex_alloc_def)
qed

end
