(* ===== verification/Replica_Registry.thy ===== *)
theory Replica_Registry
  imports Device_Keys
begin

text \<open>
  The registry of loaded replicas (\<open>core/store/components/replica_registry.{h,cc}\<close>) and the
  eviction loop over it (\<open>core/store/components/eviction_service.cc\<close>). The registry is a
  vector of entries with three indices: by instance, by artifact and by device. Removal moves
  the last entry into the hole and patches the indices in place; the entries remember their
  positions in the two bucket indices. The lemmas show that the indices stay exact and that
  the registry behaves as a map from keys to replicas.
\<close>

section \<open>State\<close>

text \<open>A replica is known by its address; its own state is an argument of the operations that ask for it.\<close>

type_synonym replica_ptr = nat

record Entry =
  ent_key :: ReplicaKey
  ent_replica :: replica_ptr
  last_access :: int
  artifact_bucket_pos :: nat
  device_bucket_pos :: nat

record ReplicaRegistry =
  reg_entries :: "Entry list"
  by_instance :: "ReplicaKey \<rightharpoonup> nat"
  by_artifact :: "string \<rightharpoonup> nat list"
  by_device :: "DeviceKey \<rightharpoonup> nat list"

definition new_replica_registry :: ReplicaRegistry where
  "new_replica_registry =
     \<lparr>reg_entries = [], by_instance = Map.empty, by_artifact = Map.empty, by_device = Map.empty\<rparr>"

definition bucket :: "('g \<rightharpoonup> nat list) \<Rightarrow> 'g \<Rightarrow> nat list" where
  "bucket m g = (case m g of None \<Rightarrow> [] | Some b \<Rightarrow> b)"

definition upd_entry :: "nat \<Rightarrow> (Entry \<Rightarrow> Entry) \<Rightarrow> ReplicaRegistry \<Rightarrow> ReplicaRegistry" where
  "upd_entry i f s = s\<lparr>reg_entries := (reg_entries s)[i := f (reg_entries s ! i)]\<rparr>"

section \<open>Operations\<close>

definition append_to_secondary_indices :: "nat \<Rightarrow> ReplicaRegistry \<Rightarrow> ReplicaRegistry" where
  "append_to_secondary_indices idx s =
     (let key = ent_key (reg_entries s ! idx);
          ab = bucket (by_artifact s) (artifact_id key);
          s1 = (upd_entry idx (\<lambda>e. e\<lparr>artifact_bucket_pos := length ab\<rparr>) s)
                 \<lparr>by_artifact := (by_artifact s)(artifact_id key \<mapsto> ab @ [idx])\<rparr>;
          db = bucket (by_device s1) (device key)
      in (upd_entry idx (\<lambda>e. e\<lparr>device_bucket_pos := length db\<rparr>) s1)
           \<lparr>by_device := (by_device s1)(device key \<mapsto> db @ [idx])\<rparr>)"

definition swap_out :: "nat \<Rightarrow> nat list \<Rightarrow> nat list" where
  "swap_out p b = butlast (b[p := last b])"

definition put_bucket :: "'g \<Rightarrow> nat list \<Rightarrow> ('g \<rightharpoonup> nat list) \<Rightarrow> ('g \<rightharpoonup> nat list)" where
  "put_bucket g b m = (if b = [] then m(g := None) else m(g \<mapsto> b))"

definition remove_from_artifact_bucket :: "nat \<Rightarrow> ReplicaRegistry \<Rightarrow> ReplicaRegistry" where
  "remove_from_artifact_bucket idx s =
     (let e = reg_entries s ! idx;
          b = bucket (by_artifact s) (artifact_id (ent_key e));
          b' = swap_out (artifact_bucket_pos e) b;
          s1 = (if artifact_bucket_pos e < length b'
                then upd_entry (last b) (\<lambda>x. x\<lparr>artifact_bucket_pos := artifact_bucket_pos e\<rparr>) s else s)
      in s1\<lparr>by_artifact := put_bucket (artifact_id (ent_key e)) b' (by_artifact s)\<rparr>)"

definition remove_from_device_bucket :: "nat \<Rightarrow> ReplicaRegistry \<Rightarrow> ReplicaRegistry" where
  "remove_from_device_bucket idx s =
     (let e = reg_entries s ! idx;
          b = bucket (by_device s) (device (ent_key e));
          b' = swap_out (device_bucket_pos e) b;
          s1 = (if device_bucket_pos e < length b'
                then upd_entry (last b) (\<lambda>x. x\<lparr>device_bucket_pos := device_bucket_pos e\<rparr>) s else s)
      in s1\<lparr>by_device := put_bucket (device (ent_key e)) b' (by_device s)\<rparr>)"

definition patch_moved_entry_indices :: "nat \<Rightarrow> ReplicaRegistry \<Rightarrow> ReplicaRegistry" where
  "patch_moved_entry_indices idx s =
     (let e = reg_entries s ! idx;
          ab = bucket (by_artifact s) (artifact_id (ent_key e));
          db = bucket (by_device s) (device (ent_key e))
      in s\<lparr>by_instance := (by_instance s)(ent_key e \<mapsto> idx),
           by_artifact := (by_artifact s)(artifact_id (ent_key e) \<mapsto> ab[artifact_bucket_pos e := idx]),
           by_device := (by_device s)(device (ent_key e) \<mapsto> db[device_bucket_pos e := idx])\<rparr>)"

definition emplace :: "int \<Rightarrow> ReplicaKey \<Rightarrow> replica_ptr \<Rightarrow> ReplicaRegistry \<Rightarrow> ReplicaRegistry \<times> status" where
  "emplace now key r s =
     (if by_instance s key \<noteq> None then (s, Inl (Err AlreadyExists ''Instance already registered''))
      else
        (let idx = length (reg_entries s);
             e = \<lparr>ent_key = key, ent_replica = r, last_access = now, artifact_bucket_pos = 0,
                  device_bucket_pos = 0\<rparr>
         in (append_to_secondary_indices idx
               (s\<lparr>reg_entries := reg_entries s @ [e], by_instance := (by_instance s)(key \<mapsto> idx)\<rparr>),
             ok_status)))"

definition touch_entry :: "int \<Rightarrow> nat \<Rightarrow> ReplicaRegistry \<Rightarrow> ReplicaRegistry" where
  "touch_entry now i s = upd_entry i (\<lambda>e. e\<lparr>last_access := now\<rparr>) s"

definition find_replica :: "int \<Rightarrow> ReplicaKey \<Rightarrow> ReplicaRegistry \<Rightarrow> ReplicaRegistry \<times> replica_ptr status_or" where
  "find_replica now key s =
     (case by_instance s key of
        None \<Rightarrow> (s, Inl (Err NotFound ''Replica not found''))
      | Some idx \<Rightarrow> (touch_entry now idx s, Inr (ent_replica (reg_entries s ! idx))))"

text \<open>The clock is read for every entry; \<open>clock i\<close> is the reading for entry \<open>i\<close>.\<close>

definition find_by_artifact ::
  "(nat \<Rightarrow> int) \<Rightarrow> string \<Rightarrow> ReplicaRegistry \<Rightarrow> ReplicaRegistry \<times> ReplicaKey list"
where
  "find_by_artifact clock art s =
     (fold (\<lambda>i. touch_entry (clock i) i) (bucket (by_artifact s) art) s,
      map (\<lambda>i. ent_key (reg_entries s ! i)) (bucket (by_artifact s) art))"

definition find_by_device ::
  "(nat \<Rightarrow> int) \<Rightarrow> DeviceKey \<Rightarrow> ReplicaRegistry \<Rightarrow> ReplicaRegistry \<times> ReplicaKey list"
where
  "find_by_device clock dev s =
     (fold (\<lambda>i. touch_entry (clock i) i) (bucket (by_device s) dev) s,
      map (\<lambda>i. ent_key (reg_entries s ! i)) (bucket (by_device s) dev))"

text \<open>
  The deduplicated entries, by replica: the most recently used key of each. The hash map is
  traversed in an unspecified order and then sorted by time, which leaves equal times in any
  order: \<open>srt\<close> is that composition.
\<close>

definition dedup_step :: "Entry \<Rightarrow> (replica_ptr \<times> ReplicaKey \<times> int) list \<Rightarrow> (replica_ptr \<times> ReplicaKey \<times> int) list" where
  "dedup_step e d =
     (case map_of d (ent_replica e) of
        None \<Rightarrow> AList.update (ent_replica e) (ent_key e, last_access e) d
      | Some (_, ts) \<Rightarrow>
          if ts < last_access e then AList.update (ent_replica e) (ent_key e, last_access e) d else d)"

definition get_lru_instances ::
  "((ReplicaKey \<times> int) list \<Rightarrow> (ReplicaKey \<times> int) list) \<Rightarrow> ReplicaRegistry \<Rightarrow> ReplicaKey list"
where
  "get_lru_instances srt s = map fst (srt (map snd (fold dedup_step (reg_entries s) [])))"

definition erase_replica ::
  "ReplicaKey \<Rightarrow> ReplicaRegistry \<Rightarrow> ReplicaRegistry \<times> (ReplicaKey \<times> replica_ptr) option"
where
  "erase_replica key s =
     (case by_instance s key of
        None \<Rightarrow> (s, None)
      | Some idx \<Rightarrow>
        (let last_idx = length (reg_entries s) - 1;
             e = reg_entries s ! idx;
             s1 = remove_from_artifact_bucket idx s;
             s2 = remove_from_device_bucket idx s1;
             s3 = s2\<lparr>by_instance := (by_instance s2)(key := None)\<rparr>;
             s4 = (if idx \<noteq> last_idx
                   then patch_moved_entry_indices idx (upd_entry idx (\<lambda>_. reg_entries s3 ! last_idx) s3)
                   else s3)
         in (s4\<lparr>reg_entries := butlast (reg_entries s4)\<rparr>, Some (ent_key e, ent_replica e))))"

definition clear_all :: "ReplicaRegistry \<Rightarrow> ReplicaRegistry \<times> (ReplicaKey \<times> replica_ptr) list" where
  "clear_all s = (new_replica_registry, map (\<lambda>e. (ent_key e, ent_replica e)) (reg_entries s))"

definition registry_size :: "ReplicaRegistry \<Rightarrow> nat" where
  "registry_size s = length (reg_entries s)"

text \<open>\<open>loaded\<close> and \<open>size_of\<close> are what the replicas themselves answer.\<close>

definition distinct_replicas :: "ReplicaRegistry \<Rightarrow> replica_ptr list" where
  "distinct_replicas s = rev (fold (\<lambda>e seen. if ent_replica e \<in> set seen then seen else ent_replica e # seen)
     (reg_entries s) [])"

definition get_replica_count_by_location ::
  "(replica_ptr \<Rightarrow> MemoryLocation \<Rightarrow> bool) \<Rightarrow> MemoryLocation \<Rightarrow> ReplicaRegistry \<Rightarrow> nat"
where
  "get_replica_count_by_location loaded location s =
     length (filter (\<lambda>r. loaded r location) (distinct_replicas s))"

definition get_total_replica_size :: "(replica_ptr \<Rightarrow> u64 status_or) \<Rightarrow> ReplicaRegistry \<Rightarrow> u64" where
  "get_total_replica_size size_of s =
     fold (\<lambda>r tot. case size_of r of Inr n \<Rightarrow> tot + n | Inl _ \<Rightarrow> tot) (distinct_replicas s) 0"

section \<open>Eviction\<close>

text \<open>
  The eviction loop over its five callbacks. The callbacks act on a state of the caller's
  choice; releasing may fail, and the loop stops once enough is free.
\<close>

primrec evict_loop ::
  "(ReplicaKey \<Rightarrow> 'w \<Rightarrow> 'w \<times> status) \<Rightarrow> ('w \<Rightarrow> 'w) \<Rightarrow> ('w \<Rightarrow> bool) \<Rightarrow> (ReplicaKey \<Rightarrow> 'w \<Rightarrow> 'w)
     \<Rightarrow> ReplicaKey list \<Rightarrow> 'w \<Rightarrow> 'w \<times> status"
where
  "evict_loop try_release record_eviction has_freed_enough on_evicted [] w =
     (w, Inl (Err ResourceExhausted ''Could not free enough memory''))"
| "evict_loop try_release record_eviction has_freed_enough on_evicted (key # rest) w =
     (case try_release key w of
        (w1, Inl _) \<Rightarrow> evict_loop try_release record_eviction has_freed_enough on_evicted rest w1
      | (w1, Inr _) \<Rightarrow>
        (let w2 = on_evicted key (record_eviction w1) in
         if has_freed_enough w2 then (w2, ok_status)
         else evict_loop try_release record_eviction has_freed_enough on_evicted rest w2))"

definition evict_core ::
  "('w \<Rightarrow> ReplicaKey list) \<Rightarrow> (ReplicaKey \<Rightarrow> 'w \<Rightarrow> 'w \<times> status) \<Rightarrow> ('w \<Rightarrow> 'w) \<Rightarrow> ('w \<Rightarrow> bool)
     \<Rightarrow> (ReplicaKey \<Rightarrow> 'w \<Rightarrow> 'w) \<Rightarrow> 'w \<Rightarrow> 'w \<times> status"
where
  "evict_core get_candidates try_release record_eviction has_freed_enough on_evicted w =
     evict_loop try_release record_eviction has_freed_enough on_evicted (get_candidates w) w"

text \<open>
  The two callers. The replicas, the devices and the pinned pool answer for themselves: their
  state is \<open>'x\<close>, and what they do is a record of functions on it.
\<close>

record 'x replica_ops =
  loaded_at :: "replica_ptr \<Rightarrow> MemoryLocation \<Rightarrow> 'x \<Rightarrow> bool"
  release_memory :: "replica_ptr \<Rightarrow> MemoryLocation \<Rightarrow> 'x \<Rightarrow> 'x \<times> status"
  get_free_memory :: "int \<Rightarrow> 'x \<Rightarrow> u64 status_or"
  pool_available :: "'x \<Rightarrow> u64"
  record_memory_eviction :: "'x \<Rightarrow> 'x"

definition release_for_gpu ::
  "'x replica_ops \<Rightarrow> int \<Rightarrow> int \<Rightarrow> ReplicaKey \<Rightarrow> ReplicaRegistry \<times> 'x \<Rightarrow> (ReplicaRegistry \<times> 'x) \<times> status"
where
  "release_for_gpu env now device_id key w =
     (if dev_type (device key) \<noteq> DeviceGPU \<or> ordinal (device key) \<noteq> device_id
      then (w, Inl (Err FailedPrecondition ''not target device''))
      else case find_replica now key (fst w) of
        (s, Inl e) \<Rightarrow> ((s, snd w), Inl e)
      | (s, Inr r) \<Rightarrow>
        if \<not> loaded_at env r LocGPU (snd w)
        then ((s, snd w), Inl (Err FailedPrecondition ''not loaded''))
        else apfst (Pair s) (release_memory env r LocGPU (snd w)))"

definition evict_for_gpu ::
  "((ReplicaKey \<times> int) list \<Rightarrow> (ReplicaKey \<times> int) list) \<Rightarrow> 'x replica_ops \<Rightarrow> int \<Rightarrow> int \<Rightarrow> u64
     \<Rightarrow> ReplicaRegistry \<times> 'x \<Rightarrow> (ReplicaRegistry \<times> 'x) \<times> status"
where
  "evict_for_gpu srt env now device_id required_bytes w =
     (case get_free_memory env device_id (snd w) of
        Inl e \<Rightarrow> (w, Inl e)
      | Inr free_before \<Rightarrow>
        evict_core (\<lambda>w. get_lru_instances srt (fst w)) (release_for_gpu env now device_id)
          (apsnd (record_memory_eviction env))
          (\<lambda>w. case get_free_memory env device_id (snd w) of
                 Inl _ \<Rightarrow> False
               | Inr free_now \<Rightarrow> required_bytes \<le> free_now - free_before)
          (\<lambda>_ w. w) w)"

definition release_for_cpu ::
  "'x replica_ops \<Rightarrow> int \<Rightarrow> ReplicaKey \<Rightarrow> ReplicaRegistry \<times> 'x \<Rightarrow> (ReplicaRegistry \<times> 'x) \<times> status"
where
  "release_for_cpu env now key w =
     (case find_replica now key (fst w) of
        (s, Inl e) \<Rightarrow> ((s, snd w), Inl e)
      | (s, Inr r) \<Rightarrow> apfst (Pair s) (release_memory env r LocCPU (snd w)))"

definition evict_for_cpu ::
  "((ReplicaKey \<times> int) list \<Rightarrow> (ReplicaKey \<times> int) list) \<Rightarrow> 'x replica_ops \<Rightarrow> (ReplicaKey \<Rightarrow> 'x \<Rightarrow> 'x) \<Rightarrow> int
     \<Rightarrow> u64 \<Rightarrow> ReplicaRegistry \<times> 'x \<Rightarrow> (ReplicaRegistry \<times> 'x) \<times> status"
where
  "evict_for_cpu srt env on_evicted now required_bytes w =
     evict_core (\<lambda>w. get_lru_instances srt (fst w)) (release_for_cpu env now)
       (apsnd (record_memory_eviction env))
       (\<lambda>w. required_bytes \<le> pool_available env (snd w))
       (\<lambda>key. apsnd (on_evicted key)) w"
section \<open>Exact indices\<close>

text \<open>
  A bucket index is exact over the live entries \<open>D\<close>: every bucket is non-empty, every live
  entry stands in the bucket of its group at the position it remembers, and every slot of a
  bucket holds a live entry of its group that remembers the slot.
\<close>

definition exact_index :: "nat set \<Rightarrow> (nat \<Rightarrow> 'g) \<Rightarrow> (nat \<Rightarrow> nat) \<Rightarrow> ('g \<rightharpoonup> nat list) \<Rightarrow> bool" where
  "exact_index D grp pos m \<longleftrightarrow>
     (\<forall>g b. m g = Some b \<longrightarrow> b \<noteq> []) \<and>
     (\<forall>i\<in>D. pos i < length (bucket m (grp i)) \<and> bucket m (grp i) ! pos i = i) \<and>
     (\<forall>g p. p < length (bucket m g) \<longrightarrow>
        bucket m g ! p \<in> D \<and> grp (bucket m g ! p) = g \<and> pos (bucket m g ! p) = p)"

lemma bucket_upd [simp]:
  "bucket (m(g \<mapsto> b)) h = (if h = g then b else bucket m h)"
  "bucket (put_bucket g b m) h = (if h = g then b else bucket m h)"
  "bucket Map.empty h = []"
  by (auto simp: bucket_def put_bucket_def)

lemma exact_cong:
  assumes "exact_index D grp pos m" "\<And>i. i \<in> D \<Longrightarrow> grp' i = grp i" "\<And>i. i \<in> D \<Longrightarrow> pos' i = pos i"
  shows "exact_index D grp' pos' m"
  using assms unfolding exact_index_def by metis

lemma exact_append:
  assumes "exact_index D grp pos m" "i \<notin> D"
  shows "exact_index (insert i D) grp (pos(i := length (bucket m (grp i))))
    (m(grp i \<mapsto> bucket m (grp i) @ [i]))"
proof -
  have "bucket m g ! p \<noteq> i" if "p < length (bucket m g)" for g p
    using assms that unfolding exact_index_def by metis
  then show ?thesis
    using assms unfolding exact_index_def by (auto simp: nth_append less_Suc_eq split: if_splits)
qed

lemma swap_out_nth:
  assumes "p < length b"
  shows "length (swap_out p b) = length b - 1"
    and "q < length b - 1 \<Longrightarrow> swap_out p b ! q = (if q = p then last b else b ! q)"
  using assms by (auto simp: swap_out_def nth_butlast nth_list_update)

lemma exact_remove:
  assumes ok: "exact_index D grp pos m" and i: "i \<in> D"
  defines "b \<equiv> bucket m (grp i)"
  shows "exact_index (D - {i}) grp
    (if pos i < length b - 1 then pos(last b := pos i) else pos)
    (put_bucket (grp i) (swap_out (pos i) b) m)"
proof -
  have slot: "pos i < length b" "b ! pos i = i" using ok i by (auto simp: exact_index_def b_def)
  have slots: "\<And>p. p < length b \<Longrightarrow> b ! p \<in> D \<and> grp (b ! p) = grp i \<and> pos (b ! p) = p"
    using ok by (auto simp: exact_index_def b_def)
  have last: "last b = b ! (length b - 1)" using slot(1) by (subst last_conv_nth) auto
  then have lst: "last b \<in> D" "grp (last b) = grp i" "pos (last b) = length b - 1"
    using slots [of "length b - 1"] slot(1) by auto
  note len = swap_out_nth(1) [OF slot(1)] and nth = swap_out_nth(2) [OF slot(1)]
  let ?b = "swap_out (pos i) b" and ?pos = "if pos i < length b - 1 then pos(last b := pos i) else pos"
  have other: "\<And>g p. g \<noteq> grp i \<Longrightarrow> p < length (bucket m g) \<Longrightarrow>
      bucket m g ! p \<in> D \<and> grp (bucket m g ! p) = g \<and> pos (bucket m g ! p) = p"
    using ok by (auto simp: exact_index_def)
  have live: "\<And>j. j \<in> D \<Longrightarrow> pos j < length (bucket m (grp j)) \<and> bucket m (grp j) ! pos j = j"
    using ok by (auto simp: exact_index_def)
  have "?pos j < length (bucket (put_bucket (grp i) ?b m) (grp j)) \<and>
      bucket (put_bucket (grp i) ?b m) (grp j) ! ?pos j = j" if "j \<in> D - {i}" for j
  proof (cases "grp j = grp i")
    case True
    then have j: "pos j < length b" "b ! pos j = j" using live [of j] that by (auto simp: b_def)
    then have "pos j \<noteq> pos i" using slot that by auto
    show ?thesis
    proof (cases "j = last b")
      case True
      then have "pos i < length b - 1" using lst(3) slot(1) \<open>pos j \<noteq> pos i\<close> by auto
      then show ?thesis using True \<open>grp j = grp i\<close> len nth by simp
    next
      case False
      then have "pos j \<noteq> length b - 1" using j last by auto
      with j(1) have "pos j < length b - 1" by linarith
      then show ?thesis using False \<open>grp j = grp i\<close> len nth j \<open>pos j \<noteq> pos i\<close> by simp
    qed
  next
    case False
    with lst(2) have "j \<noteq> last b" by auto
    with False live [of j] that show ?thesis by simp
  qed
  moreover have "bucket (put_bucket (grp i) ?b m) g ! p \<in> D - {i} \<and>
      grp (bucket (put_bucket (grp i) ?b m) g ! p) = g \<and>
      ?pos (bucket (put_bucket (grp i) ?b m) g ! p) = p"
    if p: "p < length (bucket (put_bucket (grp i) ?b m) g)" for g p
  proof (cases "g = grp i")
    case True
    with p len have p': "p < length b - 1" by simp
    show ?thesis
    proof (cases "p = pos i")
      case True
      with p' lst have "last b \<noteq> i" by auto
      with True p' lst nth \<open>g = grp i\<close> show ?thesis by simp
    next
      case False
      have bp: "b ! p \<in> D" "grp (b ! p) = grp i" "pos (b ! p) = p" using slots [of p] p' by auto
      with False lst(3) p' have "b ! p \<noteq> i" "b ! p \<noteq> last b" by auto
      with False p' bp nth \<open>g = grp i\<close> show ?thesis by simp
    qed
  next
    case False
    with other [of g p] p lst(2) show ?thesis by auto
  qed
  moreover have "put_bucket (grp i) ?b m g = Some c \<Longrightarrow> c \<noteq> []" for g c
    using ok by (auto simp: put_bucket_def exact_index_def split: if_splits)
  ultimately show ?thesis unfolding exact_index_def by blast
qed

lemma exact_rename:
  assumes ok: "exact_index D grp pos m" and j: "j \<in> D" and i: "i \<notin> D"
  shows "exact_index (insert i (D - {j})) (grp(i := grp j)) (pos(i := pos j))
    (m(grp j \<mapsto> (bucket m (grp j))[pos j := i]))"
proof -
  let ?b = "bucket m (grp j)" let ?m = "m(grp j \<mapsto> ?b[pos j := i])"
  have live: "\<And>k. k \<in> D \<Longrightarrow> pos k < length (bucket m (grp k)) \<and> bucket m (grp k) ! pos k = k"
    and slots: "\<And>g p. p < length (bucket m g) \<Longrightarrow>
      bucket m g ! p \<in> D \<and> grp (bucket m g ! p) = g \<and> pos (bucket m g ! p) = p"
    using ok by (auto simp: exact_index_def)
  have "(pos(i := pos j)) k < length (bucket ?m ((grp(i := grp j)) k)) \<and>
      bucket ?m ((grp(i := grp j)) k) ! (pos(i := pos j)) k = k" if "k \<in> insert i (D - {j})" for k
  proof (cases "k = i")
    case False
    with that have k: "k \<in> D" "k \<noteq> j" by auto
    have "pos k \<noteq> pos j" if "grp k = grp j" using live [OF k(1)] live [OF j] that k(2) by auto
    with False live [OF k(1)] show ?thesis by auto
  qed (use live [OF j] in simp)
  moreover have "bucket ?m g ! p \<in> insert i (D - {j}) \<and> (grp(i := grp j)) (bucket ?m g ! p) = g \<and>
      (pos(i := pos j)) (bucket ?m g ! p) = p" if "p < length (bucket ?m g)" for g p
  proof (cases "g = grp j \<and> p = pos j")
    case False
    then have eq: "bucket ?m g ! p = bucket m g ! p" "p < length (bucket m g)" using that by (auto split: if_splits)
    from slots [OF this(2)] have *: "bucket m g ! p \<in> D" "grp (bucket m g ! p) = g" "pos (bucket m g ! p) = p"
      by auto
    with False i have "bucket m g ! p \<noteq> j" "bucket m g ! p \<noteq> i" by auto
    with * eq(1) show ?thesis by simp
  qed (use live [OF j] in simp)
  moreover have "?m g = Some c \<Longrightarrow> c \<noteq> []" for g c
    using ok live [OF j] by (auto simp: exact_index_def split: if_splits)
  ultimately show ?thesis unfolding exact_index_def by blast
qed
section \<open>The registry as a map\<close>

abbreviation entry_key :: "ReplicaRegistry \<Rightarrow> nat \<Rightarrow> ReplicaKey" where
  "entry_key s i \<equiv> ent_key (reg_entries s ! i)"

abbreviation art_of :: "ReplicaRegistry \<Rightarrow> nat \<Rightarrow> string" where
  "art_of s i \<equiv> artifact_id (entry_key s i)"

abbreviation dev_of :: "ReplicaRegistry \<Rightarrow> nat \<Rightarrow> DeviceKey" where
  "dev_of s i \<equiv> device (entry_key s i)"

abbreviation apos :: "ReplicaRegistry \<Rightarrow> nat \<Rightarrow> nat" where
  "apos s i \<equiv> artifact_bucket_pos (reg_entries s ! i)"

abbreviation dpos :: "ReplicaRegistry \<Rightarrow> nat \<Rightarrow> nat" where
  "dpos s i \<equiv> device_bucket_pos (reg_entries s ! i)"

definition registry_inv :: "ReplicaRegistry \<Rightarrow> bool" where
  "registry_inv s \<longleftrightarrow>
     (\<forall>k i. by_instance s k = Some i \<longleftrightarrow> i < length (reg_entries s) \<and> entry_key s i = k) \<and>
     exact_index {..<length (reg_entries s)} (art_of s) (apos s) (by_artifact s) \<and>
     exact_index {..<length (reg_entries s)} (dev_of s) (dpos s) (by_device s)"

text \<open>What a client sees: a map from keys to replicas.\<close>

definition view :: "ReplicaRegistry \<Rightarrow> ReplicaKey \<rightharpoonup> replica_ptr" where
  "view s = map_of (map (\<lambda>e. (ent_key e, ent_replica e)) (reg_entries s))"

lemma registry_distinct: "registry_inv s \<Longrightarrow> distinct (map ent_key (reg_entries s))"
  unfolding registry_inv_def distinct_conv_nth by (metis length_map nth_map option.inject)

lemma view_eq:
  assumes "registry_inv s"
  shows "view s k = map_option (\<lambda>i. ent_replica (reg_entries s ! i)) (by_instance s k)"
proof (cases "by_instance s k")
  case None
  then have "\<forall>i<length (reg_entries s). entry_key s i \<noteq> k"
    using assms unfolding registry_inv_def by (metis option.distinct(1))
  then show ?thesis using None by (auto simp: view_def map_of_eq_None_iff in_set_conv_nth)
next
  case (Some i)
  have "distinct (map ent_key (reg_entries s))" using assms by (rule registry_distinct)
  moreover have "(k, ent_replica (reg_entries s ! i)) \<in> set (map (\<lambda>e. (ent_key e, ent_replica e)) (reg_entries s))"
    using assms Some unfolding registry_inv_def by (force simp: in_set_conv_nth)
  ultimately show ?thesis using Some by (simp add: view_def comp_def)
qed

lemma upd_entry_fields [simp]:
  "length (reg_entries (upd_entry i f s)) = length (reg_entries s)"
  "by_instance (upd_entry i f s) = by_instance s"
  "by_artifact (upd_entry i f s) = by_artifact s"
  "by_device (upd_entry i f s) = by_device s"
  by (simp_all add: upd_entry_def)

lemma upd_entry_nth:
  "k < length (reg_entries s) \<Longrightarrow>
     reg_entries (upd_entry i f s) ! k = (if k = i then f (reg_entries s ! k) else reg_entries s ! k)"
  by (simp add: upd_entry_def nth_list_update)

lemma remove_artifact_fields:
  assumes "exact_index {..<length (reg_entries s)} (art_of s) (apos s) (by_artifact s)"
    and i: "i < length (reg_entries s)"
  defines "s' \<equiv> remove_from_artifact_bucket i s"
  shows "length (reg_entries s') = length (reg_entries s)" "by_instance s' = by_instance s"
    "by_device s' = by_device s"
    and "k < length (reg_entries s) \<Longrightarrow> entry_key s' k = entry_key s k \<and> dpos s' k = dpos s k \<and>
      ent_replica (reg_entries s' ! k) = ent_replica (reg_entries s ! k)"
    and "exact_index ({..<length (reg_entries s)} - {i}) (art_of s') (apos s') (by_artifact s')"
proof -
  let ?b = "bucket (by_artifact s) (art_of s i)"
  have slot: "apos s i < length ?b" using assms by (auto simp: exact_index_def)
  have len: "length (swap_out (apos s i) ?b) = length ?b - 1" by (rule swap_out_nth(1) [OF slot])
  show "length (reg_entries s') = length (reg_entries s)" "by_instance s' = by_instance s"
    "by_device s' = by_device s"
    by (simp_all add: s'_def remove_from_artifact_bucket_def Let_def)
  show fields: "entry_key s' k = entry_key s k \<and> dpos s' k = dpos s k \<and>
      ent_replica (reg_entries s' ! k) = ent_replica (reg_entries s ! k)"
    if "k < length (reg_entries s)" for k
    using that by (simp add: s'_def remove_from_artifact_bucket_def Let_def upd_entry_nth)
  have pos: "apos s' k = (if apos s i < length ?b - 1 then (apos s)(last ?b := apos s i) else apos s) k"
    if "k < length (reg_entries s)" for k
    using that len by (simp add: s'_def remove_from_artifact_bucket_def Let_def upd_entry_nth)
  have "by_artifact s' = put_bucket (art_of s i) (swap_out (apos s i) ?b) (by_artifact s)"
    by (simp add: s'_def remove_from_artifact_bucket_def Let_def)
  with exact_remove [OF assms(1), of i] i
  have "exact_index ({..<length (reg_entries s)} - {i}) (art_of s)
      (if apos s i < length ?b - 1 then (apos s)(last ?b := apos s i) else apos s) (by_artifact s')" by simp
  then show "exact_index ({..<length (reg_entries s)} - {i}) (art_of s') (apos s') (by_artifact s')"
    by (rule exact_cong) (use fields pos in auto)
qed

lemma remove_device_fields:
  assumes "exact_index {..<length (reg_entries s)} (dev_of s) (dpos s) (by_device s)"
    and i: "i < length (reg_entries s)"
  defines "s' \<equiv> remove_from_device_bucket i s"
  shows "length (reg_entries s') = length (reg_entries s)" "by_instance s' = by_instance s"
    "by_artifact s' = by_artifact s"
    and "k < length (reg_entries s) \<Longrightarrow> entry_key s' k = entry_key s k \<and> apos s' k = apos s k \<and>
      ent_replica (reg_entries s' ! k) = ent_replica (reg_entries s ! k)"
    and "exact_index ({..<length (reg_entries s)} - {i}) (dev_of s') (dpos s') (by_device s')"
proof -
  let ?b = "bucket (by_device s) (dev_of s i)"
  have slot: "dpos s i < length ?b" using assms by (auto simp: exact_index_def)
  have len: "length (swap_out (dpos s i) ?b) = length ?b - 1" by (rule swap_out_nth(1) [OF slot])
  show "length (reg_entries s') = length (reg_entries s)" "by_instance s' = by_instance s"
    "by_artifact s' = by_artifact s"
    by (simp_all add: s'_def remove_from_device_bucket_def Let_def)
  show fields: "entry_key s' k = entry_key s k \<and> apos s' k = apos s k \<and>
      ent_replica (reg_entries s' ! k) = ent_replica (reg_entries s ! k)"
    if "k < length (reg_entries s)" for k
    using that by (simp add: s'_def remove_from_device_bucket_def Let_def upd_entry_nth)
  have pos: "dpos s' k = (if dpos s i < length ?b - 1 then (dpos s)(last ?b := dpos s i) else dpos s) k"
    if "k < length (reg_entries s)" for k
    using that len by (simp add: s'_def remove_from_device_bucket_def Let_def upd_entry_nth)
  have "by_device s' = put_bucket (dev_of s i) (swap_out (dpos s i) ?b) (by_device s)"
    by (simp add: s'_def remove_from_device_bucket_def Let_def)
  with exact_remove [OF assms(1), of i] i
  have "exact_index ({..<length (reg_entries s)} - {i}) (dev_of s)
      (if dpos s i < length ?b - 1 then (dpos s)(last ?b := dpos s i) else dpos s) (by_device s')" by simp
  then show "exact_index ({..<length (reg_entries s)} - {i}) (dev_of s') (dpos s') (by_device s')"
    by (rule exact_cong) (use fields pos in auto)
qed
lemma registry_inv_new: "registry_inv new_replica_registry"
  by (simp add: registry_inv_def new_replica_registry_def exact_index_def)

lemma registry_inv_touch: "registry_inv (touch_entry now i s) = registry_inv s"
proof -
  have same: "entry_key (touch_entry now i s) k = entry_key s k \<and> apos (touch_entry now i s) k = apos s k \<and>
      dpos (touch_entry now i s) k = dpos s k" if "k < length (reg_entries s)" for k
    using that by (simp add: touch_entry_def upd_entry_nth)
  have cong: "exact_index D grp pos m = exact_index D grp' pos' m"
    if "\<And>k. k \<in> D \<Longrightarrow> grp' k = grp k" "\<And>k. k \<in> D \<Longrightarrow> pos' k = pos k"
    for D and grp grp' :: "nat \<Rightarrow> 'g" and pos pos' m
    using that exact_cong [of D grp pos m grp' pos'] exact_cong [of D grp' pos' m grp pos] by auto
  have "exact_index {..<length (reg_entries s)} (art_of s) (apos s) (by_artifact s) =
      exact_index {..<length (reg_entries s)} (art_of (touch_entry now i s)) (apos (touch_entry now i s)) (by_artifact s)"
    "exact_index {..<length (reg_entries s)} (dev_of s) (dpos s) (by_device s) =
      exact_index {..<length (reg_entries s)} (dev_of (touch_entry now i s)) (dpos (touch_entry now i s)) (by_device s)"
    by (rule cong; simp add: same)+
  then show ?thesis using same unfolding registry_inv_def by (auto simp: touch_entry_def)
qed

lemma view_touch: "view (touch_entry now i s) = view s"
proof -
  have "map (\<lambda>e. (ent_key e, ent_replica e)) (reg_entries (touch_entry now i s)) =
      map (\<lambda>e. (ent_key e, ent_replica e)) (reg_entries s)"
    by (rule nth_equalityI) (simp_all add: touch_entry_def upd_entry_nth)
  then show ?thesis by (simp add: view_def)
qed

lemma fold_touch:
  "registry_inv (fold (\<lambda>i. touch_entry (clock i) i) is s) = registry_inv s"
  "view (fold (\<lambda>i. touch_entry (clock i) i) is s) = view s"
  by (induction "is" arbitrary: s) (simp_all add: registry_inv_touch view_touch)

lemma emplace_entries:
  assumes "emplace now key r s = (s', ok_status)"
  defines "e \<equiv> \<lparr>ent_key = key, ent_replica = r, last_access = now,
    artifact_bucket_pos = length (bucket (by_artifact s) (artifact_id key)),
    device_bucket_pos = length (bucket (by_device s) (device key))\<rparr>"
  shows "reg_entries s' = reg_entries s @ [e]" "by_instance s key = None"
    "by_instance s' = (by_instance s)(key \<mapsto> length (reg_entries s))"
    "by_artifact s' = (by_artifact s)(artifact_id key \<mapsto>
       bucket (by_artifact s) (artifact_id key) @ [length (reg_entries s)])"
    "by_device s' = (by_device s)(device key \<mapsto> bucket (by_device s) (device key) @ [length (reg_entries s)])"
  using assms(1) by (auto simp: emplace_def append_to_secondary_indices_def Let_def upd_entry_def e_def
      split: if_splits)

lemma emplace_inv:
  assumes inv: "registry_inv s" and run: "emplace now key r s = (s', ok_status)"
  shows "registry_inv s' \<and> view s' = (view s)(key \<mapsto> r)"
proof -
  let ?n = "length (reg_entries s)"
  note em = emplace_entries [OF run]
  have old: "reg_entries s' ! k = reg_entries s ! k" if "k < ?n" for k
    using that by (simp add: em(1) nth_append)
  have new: "entry_key s' ?n = key" "apos s' ?n = length (bucket (by_artifact s) (artifact_id key))"
    "dpos s' ?n = length (bucket (by_device s) (device key))"
    by (simp_all add: em(1))
  have "exact_index {..<?n} (art_of s') (apos s') (by_artifact s)"
    using inv unfolding registry_inv_def by (auto intro: exact_cong simp: old)
  from exact_append [OF this, of ?n] have art: "exact_index {..<Suc ?n} (art_of s') (apos s') (by_artifact s')"
    by (auto simp: new em(4) lessThan_Suc intro: exact_cong)
  have "exact_index {..<?n} (dev_of s') (dpos s') (by_device s)"
    using inv unfolding registry_inv_def by (auto intro: exact_cong simp: old)
  from exact_append [OF this, of ?n] have dev: "exact_index {..<Suc ?n} (dev_of s') (dpos s') (by_device s')"
    by (auto simp: new em(5) lessThan_Suc intro: exact_cong)
  have inst: "by_instance s' k = Some i \<longleftrightarrow> i < Suc ?n \<and> entry_key s' i = k" for k i
  proof -
    have "by_instance s k = Some i \<longleftrightarrow> i < ?n \<and> entry_key s i = k"
      and "\<not> (i < ?n \<and> entry_key s i = key)"
      using inv em(2) unfolding registry_inv_def by (metis option.distinct(1))+
    then show ?thesis by (auto simp: em(3) less_Suc_eq new(1) old)
  qed
  have inv': "registry_inv s'" using art dev inst by (simp add: registry_inv_def em(1))
  have "view s' k = ((view s)(key \<mapsto> r)) k" for k
  proof (cases "k = key")
    case True
    then show ?thesis by (simp add: view_eq [OF inv'] em)
  next
    case False
    have "i < ?n" if "by_instance s k = Some i" for i using inv that by (simp add: registry_inv_def)
    with False show ?thesis
      by (cases "by_instance s k") (simp_all add: view_eq [OF inv'] view_eq [OF inv] em(3) old)
  qed
  with inv' show ?thesis by auto
qed

lemma registry_keys_distinct:
  assumes "registry_inv s" "i < length (reg_entries s)" "j < length (reg_entries s)"
    "entry_key s i = entry_key s j"
  shows "i = j"
  using assms unfolding registry_inv_def by (metis option.inject)
text \<open>The state after both buckets are patched and before the hole is filled.\<close>

lemma unlink_fields:
  assumes inv: "registry_inv s" and i: "i < length (reg_entries s)"
  defines "s' \<equiv> remove_from_device_bucket i (remove_from_artifact_bucket i s)"
  shows "length (reg_entries s') = length (reg_entries s)" "by_instance s' = by_instance s"
    and "k < length (reg_entries s) \<Longrightarrow> entry_key s' k = entry_key s k \<and>
      ent_replica (reg_entries s' ! k) = ent_replica (reg_entries s ! k)"
    and "exact_index ({..<length (reg_entries s)} - {i}) (art_of s') (apos s') (by_artifact s')"
    and "exact_index ({..<length (reg_entries s)} - {i}) (dev_of s') (dpos s') (by_device s')"
proof -
  let ?n = "length (reg_entries s)" and ?s1 = "remove_from_artifact_bucket i s"
  have ex: "exact_index {..<?n} (art_of s) (apos s) (by_artifact s)"
    "exact_index {..<?n} (dev_of s) (dpos s) (by_device s)"
    using inv by (simp_all add: registry_inv_def)
  note a = remove_artifact_fields [OF ex(1) i]
  have "exact_index {..<?n} (dev_of ?s1) (dpos ?s1) (by_device ?s1)"
    unfolding a(3) by (rule exact_cong [OF ex(2)]) (use a(4) in auto)
  then have "exact_index {..<length (reg_entries ?s1)} (dev_of ?s1) (dpos ?s1) (by_device ?s1)"
    by (simp add: a(1))
  note d = remove_device_fields [OF this, of i, unfolded a(1), OF i]
  show "length (reg_entries s') = ?n" "by_instance s' = by_instance s"
    using d(1,2) a(1,2) by (simp_all add: s'_def)
  show "k < ?n \<Longrightarrow> entry_key s' k = entry_key s k \<and>
      ent_replica (reg_entries s' ! k) = ent_replica (reg_entries s ! k)" for k
    using d(4) [of k] a(4) [of k] by (simp add: s'_def)
  show "exact_index ({..<?n} - {i}) (dev_of s') (dpos s') (by_device s')" using d(5) by (simp add: s'_def)
  have "exact_index ({..<?n} - {i}) (art_of s') (apos s') (by_artifact ?s1)"
    by (rule exact_cong [OF a(5)]) (use d(4) in \<open>auto simp: s'_def\<close>)
  then show "exact_index ({..<?n} - {i}) (art_of s') (apos s') (by_artifact s')"
    using d(3) by (simp add: s'_def)
qed

text \<open>
  Filling the hole: the last entry moves to the hole and the indices follow. This is the
  common shape of both cases of \<open>erase\<close>.
\<close>

definition fill_hole :: "nat \<Rightarrow> ReplicaRegistry \<Rightarrow> ReplicaRegistry" where
  "fill_hole i s =
     (let l = length (reg_entries s) - 1;
          s' = (if i \<noteq> l then patch_moved_entry_indices i (upd_entry i (\<lambda>_. reg_entries s ! l) s) else s)
      in s'\<lparr>reg_entries := butlast (reg_entries s')\<rparr>)"

lemma fill_hole_exact:
  assumes i: "i < length (reg_entries s)"
    and art: "exact_index ({..<length (reg_entries s)} - {i}) (art_of s) (apos s) (by_artifact s)"
    and dev: "exact_index ({..<length (reg_entries s)} - {i}) (dev_of s) (dpos s) (by_device s)"
  defines "s' \<equiv> fill_hole i s" and "l \<equiv> length (reg_entries s) - 1"
  shows "length (reg_entries s') = l"
    and "k < l \<Longrightarrow> reg_entries s' ! k = reg_entries s ! (if k = i then l else k)"
    and "by_instance s' = (if i = l then by_instance s else (by_instance s)(entry_key s l \<mapsto> i))"
    and "exact_index {..<l} (art_of s') (apos s') (by_artifact s')"
    and "exact_index {..<l} (dev_of s') (dpos s') (by_device s')"
proof -
  let ?n = "length (reg_entries s)"
  show len: "length (reg_entries s') = l"
    by (simp add: s'_def l_def fill_hole_def Let_def patch_moved_entry_indices_def)
  show nth: "reg_entries s' ! k = reg_entries s ! (if k = i then l else k)" if "k < l" for k
    using that i by (auto simp: s'_def l_def fill_hole_def Let_def patch_moved_entry_indices_def
        nth_butlast upd_entry_nth)
  show "by_instance s' = (if i = l then by_instance s else (by_instance s)(entry_key s l \<mapsto> i))"
    using i by (simp add: s'_def l_def fill_hole_def Let_def patch_moved_entry_indices_def upd_entry_nth)
  have "exact_index {..<l} (art_of s') (apos s') (by_artifact s') \<and>
      exact_index {..<l} (dev_of s') (dpos s') (by_device s')"
  proof (cases "i = l")
    case True
    then have D: "{..<?n} - {i} = {..<l}" using i by (auto simp: l_def)
    have "by_artifact s' = by_artifact s" "by_device s' = by_device s"
      using True by (simp_all add: s'_def l_def fill_hole_def Let_def)
    then show ?thesis
      using exact_cong [OF art [unfolded D], of "art_of s'" "apos s'"]
        exact_cong [OF dev [unfolded D], of "dev_of s'" "dpos s'"] True nth
      by auto
  next
    case False
    then have l: "l \<in> {..<?n} - {i}" "i \<notin> {..<?n} - {i}" and D: "insert i ({..<?n} - {i} - {l}) = {..<l}"
      using i by (auto simp: l_def)
    have m: "by_artifact s' = (by_artifact s)(art_of s l \<mapsto> (bucket (by_artifact s) (art_of s l))[apos s l := i])"
      "by_device s' = (by_device s)(dev_of s l \<mapsto> (bucket (by_device s) (dev_of s l))[dpos s l := i])"
      using False i by (simp_all add: s'_def l_def fill_hole_def Let_def patch_moved_entry_indices_def upd_entry_nth)
    show ?thesis
      using exact_cong [OF exact_rename [OF art l], of "art_of s'" "apos s'"]
        exact_cong [OF exact_rename [OF dev l], of "dev_of s'" "dpos s'"]
      unfolding D m by (auto simp: nth)
  qed
  then show "exact_index {..<l} (art_of s') (apos s') (by_artifact s')"
    "exact_index {..<l} (dev_of s') (dpos s') (by_device s')" by auto
qed

lemma erase_eq:
  assumes "by_instance s key = Some i" "registry_inv s"
  shows "erase_replica key s =
    (fill_hole i ((remove_from_device_bucket i (remove_from_artifact_bucket i s))
        \<lparr>by_instance := (by_instance s)(key := None)\<rparr>),
     Some (key, ent_replica (reg_entries s ! i)))"
proof -
  have i: "i < length (reg_entries s)" "entry_key s i = key" using assms by (auto simp: registry_inv_def)
  define t where "t = remove_from_device_bucket i (remove_from_artifact_bucket i s)"
  have "length (reg_entries t) = length (reg_entries s)" "by_instance t = by_instance s"
    using unlink_fields(1,2) [OF assms(2) i(1)] by (simp_all add: t_def)
  then show ?thesis
    unfolding erase_replica_def fill_hole_def Let_def assms(1) option.case t_def [symmetric] using i(2) by simp
qed

lemma erase_inv:
  assumes inv: "registry_inv s"
  shows "registry_inv (fst (erase_replica key s)) \<and> view (fst (erase_replica key s)) = (view s)(key := None) \<and>
    snd (erase_replica key s) = map_option (Pair key) (view s key)"
proof (cases "by_instance s key")
  case None
  then have "erase_replica key s = (s, None)" by (simp add: erase_replica_def)
  moreover have "view s key = None" using None by (simp add: view_eq [OF inv])
  ultimately show ?thesis using inv by (simp add: fun_upd_idem)
next
  case (Some i)
  let ?n = "length (reg_entries s)" and ?l = "length (reg_entries s) - 1"
  have i: "i < ?n" "entry_key s i = key" using Some inv by (auto simp: registry_inv_def)
  note u = unlink_fields [OF inv i(1)]
  define u where "u = (remove_from_device_bucket i (remove_from_artifact_bucket i s))
    \<lparr>by_instance := (by_instance s)(key := None)\<rparr>"
  have uf: "length (reg_entries u) = ?n" "\<And>k. k < ?n \<Longrightarrow> entry_key u k = entry_key s k"
    "\<And>k. k < ?n \<Longrightarrow> ent_replica (reg_entries u ! k) = ent_replica (reg_entries s ! k)"
    using u by (simp_all add: u_def)
  let ?s = "fill_hole i u"
  have f: "length (reg_entries ?s) = ?l" "\<And>k. k < ?l \<Longrightarrow> reg_entries ?s ! k = reg_entries u ! (if k = i then ?l else k)"
    "by_instance ?s = (if i = ?l then (by_instance s)(key := None)
       else (by_instance s)(key := None, entry_key s ?l \<mapsto> i))"
    "exact_index {..<?l} (art_of ?s) (apos ?s) (by_artifact ?s)"
    "exact_index {..<?l} (dev_of ?s) (dpos ?s) (by_device ?s)"
    using fill_hole_exact [of i u] i(1) u uf by (auto simp: u_def)
  have key_at: "k < ?l \<Longrightarrow> entry_key ?s k = entry_key s (if k = i then ?l else k)" for k
    using f(2) uf(2) i(1) by auto
  note uniq = registry_keys_distinct [OF inv]
  have I: "by_instance s k = Some j \<longleftrightarrow> j < ?n \<and> entry_key s j = k" for k j
    using inv by (simp add: registry_inv_def)
  have inst: "by_instance ?s k = Some j \<longleftrightarrow> j < ?l \<and> entry_key ?s j = k" for k j
  proof (cases "j < ?l")
    case True
    let ?j = "if j = i then ?l else j"
    have j: "?j < ?n" "?j \<noteq> i" using True i(1) by auto
    have "entry_key s ?j = k \<longleftrightarrow> by_instance s k = Some ?j" using I j by auto
    moreover have "entry_key s ?j \<noteq> key" using uniq [OF j(1) i(1)] j(2) i(2) by auto
    moreover have "?l < ?n" using i(1) by linarith
    moreover have "entry_key s j = entry_key s ?l \<Longrightarrow> j = ?l" using uniq [of j ?l] True calculation(3) by simp
    ultimately show ?thesis using True key_at [OF True] I i by (auto simp: f(3))
  next
    case False
    have "by_instance ?s k \<noteq> Some j"
    proof
      assume a: "by_instance ?s k = Some j"
      with False i(1) have "by_instance s k = Some j" "k \<noteq> key" "i \<noteq> ?l \<Longrightarrow> k \<noteq> entry_key s ?l"
        by (auto simp: f(3) split: if_splits)
      with I False i show False by (cases "j = ?l") auto
    qed
    with False show ?thesis by simp
  qed
  have inv': "registry_inv ?s" using f inst by (simp add: registry_inv_def)
  have "view ?s k = ((view s)(key := None)) k" for k
  proof (cases "by_instance ?s k")
    case None
    then have "by_instance s k = None \<or> k = key" by (auto simp: f(3) split: if_splits)
    with None show ?thesis by (auto simp: view_eq [OF inv'] view_eq [OF inv])
  next
    case (Some j)
    let ?j = "if j = i then ?l else j"
    have j: "j < ?l" "entry_key s ?j = k" using Some inst [of k j] key_at by auto
    then have "?j < ?n" "?j \<noteq> i" using i(1) by auto
    then have "by_instance s k = Some ?j" "k \<noteq> key"
      using I [of k ?j] j(2) uniq [of ?j i] i by auto
    with Some j(1) show ?thesis
      by (simp add: view_eq [OF inv'] view_eq [OF inv] f(2) uf(3) split: if_splits)
  qed
  then show ?thesis
    using inv' erase_eq [OF Some inv] Some by (auto simp: u_def [symmetric] view_eq [OF inv] fun_eq_iff)
qed
section \<open>The interface of the registry\<close>

text \<open>
  The contract a client relies on: the registry is a map from keys to replicas. Times are
  clock readings that only matter for eviction order.
\<close>

datatype registry_op =
    OpEmplace int ReplicaKey replica_ptr
  | OpFind int ReplicaKey
  | OpErase ReplicaKey

datatype registry_result =
    Inserted bool
  | Found "replica_ptr option"
  | Erased "(ReplicaKey \<times> replica_ptr) option"

primrec map_step :: "registry_op \<Rightarrow> (ReplicaKey \<rightharpoonup> replica_ptr) \<Rightarrow> (ReplicaKey \<rightharpoonup> replica_ptr) \<times> registry_result" where
  "map_step (OpEmplace t k r) m = (if m k = None then (m(k \<mapsto> r), Inserted True) else (m, Inserted False))"
| "map_step (OpFind t k) m = (m, Found (m k))"
| "map_step (OpErase k) m = (m(k := None), Erased (map_option (Pair k) (m k)))"

text \<open>Running a sequence of operations and collecting the results.\<close>

primrec run_ops :: "(registry_op \<Rightarrow> 's \<Rightarrow> 's \<times> registry_result) \<Rightarrow> registry_op list \<Rightarrow> 's \<Rightarrow> 's \<times> registry_result list" where
  "run_ops step [] s = (s, [])"
| "run_ops step (op # ops) s = apsnd ((#) (snd (step op s))) (run_ops step ops (fst (step op s)))"

locale replica_store =
  fixes step :: "registry_op \<Rightarrow> 's \<Rightarrow> 's \<times> registry_result"
    and inv :: "'s \<Rightarrow> bool"
    and contents :: "'s \<Rightarrow> ReplicaKey \<rightharpoonup> replica_ptr"
  assumes step_inv: "inv s \<Longrightarrow> inv (fst (step op s))"
    and step_contents: "inv s \<Longrightarrow> contents (fst (step op s)) = fst (map_step op (contents s))"
    and step_result: "inv s \<Longrightarrow> snd (step op s) = snd (map_step op (contents s))"
begin

lemma run_inv: "inv s \<Longrightarrow> inv (fst (run_ops step ops s))"
  by (induction ops arbitrary: s) (simp_all add: step_inv)

lemma run_refines:
  "inv s \<Longrightarrow> contents (fst (run_ops step ops s)) = fst (run_ops map_step ops (contents s)) \<and>
     snd (run_ops step ops s) = snd (run_ops map_step ops (contents s))"
  by (induction ops arbitrary: s) (simp_all add: step_inv step_contents step_result)

end

primrec registry_step :: "registry_op \<Rightarrow> ReplicaRegistry \<Rightarrow> ReplicaRegistry \<times> registry_result" where
  "registry_step (OpEmplace t k r) s = apsnd (\<lambda>st. Inserted (is_ok st)) (emplace t k r s)"
| "registry_step (OpFind t k) s =
     apsnd (\<lambda>res. Found (case res of Inl _ \<Rightarrow> None | Inr r \<Rightarrow> Some r)) (find_replica t k s)"
| "registry_step (OpErase k) s = apsnd Erased (erase_replica k s)"

lemma emplace_cases:
  assumes "registry_inv s"
  shows "(view s k \<noteq> None \<and> fst (emplace t k r s) = s \<and> \<not> is_ok (snd (emplace t k r s))) \<or>
    (view s k = None \<and> (\<exists>s'. emplace t k r s = (s', ok_status)))"
  by (auto simp: emplace_def view_eq [OF assms] Let_def)

interpretation replicas: replica_store registry_step registry_inv view
proof (unfold_locales, goal_cases)
  case (1 s op)
  then show ?case
  proof (cases op)
    case (OpEmplace t k r)
    with emplace_cases [OF 1, of k t r] emplace_inv [OF 1, of t k r] 1 show ?thesis by auto
  next
    case (OpFind t k)
    with 1 show ?thesis by (auto simp: find_replica_def registry_inv_touch split: option.split)
  next
    case (OpErase k)
    with erase_inv [OF 1, of k] show ?thesis by simp
  qed
next
  case (2 s op)
  then show ?case
  proof (cases op)
    case (OpEmplace t k r)
    with emplace_cases [OF 2, of k t r] emplace_inv [OF 2, of t k r] show ?thesis by auto
  next
    case (OpFind t k)
    then show ?thesis by (auto simp: find_replica_def view_touch split: option.split)
  next
    case (OpErase k)
    with erase_inv [OF 2, of k] show ?thesis by simp
  qed
next
  case (3 s op)
  then show ?case
  proof (cases op)
    case (OpEmplace t k r)
    with emplace_cases [OF 3, of k t r] show ?thesis by auto
  next
    case (OpFind t k)
    then show ?thesis by (auto simp: find_replica_def view_eq [OF 3] split: option.split)
  next
    case (OpErase k)
    with erase_inv [OF 3, of k] show ?thesis by simp
  qed
qed

definition registry_after :: "registry_op list \<Rightarrow> ReplicaRegistry" where
  "registry_after ops = fst (run_ops registry_step ops new_replica_registry)"

lemma registry_after_inv: "registry_inv (registry_after ops)"
  unfolding registry_after_def by (rule replicas.run_inv) (rule registry_inv_new)

lemma view_new: "view new_replica_registry = Map.empty"
  by (simp add: view_def new_replica_registry_def)

section \<open>Properties\<close>

text \<open>
  C23. Every sequence of insertions, lookups and removals gives the results a plain map from
  keys to replicas gives: the in-place removal with its moved entries and patched buckets
  never loses, duplicates or confuses a replica.
\<close>

theorem registry_refines_map:
  "snd (run_ops registry_step ops new_replica_registry) = snd (run_ops map_step ops Map.empty) \<and>
   view (registry_after ops) = fst (run_ops map_step ops Map.empty)"
  using replicas.run_refines [OF registry_inv_new, of ops] by (simp add: view_new registry_after_def)

lemma exact_bucket:
  assumes "exact_index {..<n} grp pos m"
  shows "set (bucket m g) = {i. i < n \<and> grp i = g}" "distinct (bucket m g)"
proof -
  show "set (bucket m g) = {i. i < n \<and> grp i = g}"
    using assms unfolding exact_index_def by (fastforce simp: in_set_conv_nth)
  show "distinct (bucket m g)"
    using assms unfolding exact_index_def distinct_conv_nth by metis
qed

lemma view_dom: "registry_inv s \<Longrightarrow> dom (view s) = entry_key s ` {..<length (reg_entries s)}"
  by (force simp: view_def dom_map_of_conv_image_fst in_set_conv_nth)

lemma keys_of_bucket:
  assumes "registry_inv s" "exact_index {..<length (reg_entries s)} (\<lambda>i. g (entry_key s i)) pos m"
  shows "set (map (entry_key s) (bucket m x)) = {k \<in> dom (view s). g k = x} \<and>
    distinct (map (entry_key s) (bucket m x))"
proof -
  note b = exact_bucket [OF assms(2), of x]
  have "inj_on (entry_key s) (set (bucket m x))"
    using registry_keys_distinct [OF assms(1)] by (auto simp: inj_on_def b(1))
  then show ?thesis using b by (auto simp: view_dom [OF assms(1)] distinct_map)
qed

text \<open>
  C24. In every registry that operations can produce, the lookups by artifact and by device
  list each registered key of the artifact or the device exactly once and no other key, and
  they change no registration.
\<close>

theorem secondary_lookups_exact:
  "set (snd (find_by_artifact clock art (registry_after ops))) =
     {k \<in> dom (view (registry_after ops)). artifact_id k = art} \<and>
   distinct (snd (find_by_artifact clock art (registry_after ops))) \<and>
   set (snd (find_by_device clock dev (registry_after ops))) =
     {k \<in> dom (view (registry_after ops)). device k = dev} \<and>
   distinct (snd (find_by_device clock dev (registry_after ops))) \<and>
   view (fst (find_by_artifact clock art (registry_after ops))) = view (registry_after ops) \<and>
   view (fst (find_by_device clock dev (registry_after ops))) = view (registry_after ops)"
proof -
  have inv: "registry_inv (registry_after ops)" by (rule registry_after_inv)
  then have "exact_index {..<length (reg_entries (registry_after ops))} (art_of (registry_after ops))
      (apos (registry_after ops)) (by_artifact (registry_after ops))"
    "exact_index {..<length (reg_entries (registry_after ops))} (dev_of (registry_after ops))
      (dpos (registry_after ops)) (by_device (registry_after ops))"
    by (simp_all add: registry_inv_def)
  from keys_of_bucket [OF inv this(1), of art] keys_of_bucket [OF inv this(2), of dev] show ?thesis
    by (simp add: find_by_artifact_def find_by_device_def fold_touch)
qed
section \<open>Eviction order\<close>

lemma dedup_step_map:
  "map_of (dedup_step e d) =
     (if (case map_of d (ent_replica e) of None \<Rightarrow> True | Some (_, ts) \<Rightarrow> ts < last_access e)
      then (map_of d)(ent_replica e \<mapsto> (ent_key e, last_access e)) else map_of d)"
  by (simp add: dedup_step_def update_conv' split: option.split prod.split)

lemma dedup_distinct: "distinct (map fst d) \<Longrightarrow> distinct (map fst (fold dedup_step es d))"
  by (induction es arbitrary: d)
    (simp_all add: dedup_step_def distinct_update split: option.split prod.split)

text \<open>The entry kept for a replica is one of its entries and none of them is more recent.\<close>

definition best_of :: "Entry list \<Rightarrow> replica_ptr \<Rightarrow> (ReplicaKey \<times> int) option \<Rightarrow> bool" where
  "best_of es r kt =
     (case kt of
        None \<Rightarrow> r \<notin> ent_replica ` set es
      | Some (k, t) \<Rightarrow> (\<exists>e\<in>set es. ent_replica e = r \<and> ent_key e = k \<and> last_access e = t) \<and>
          (\<forall>e\<in>set es. ent_replica e = r \<longrightarrow> last_access e \<le> t))"

lemma dedup_fold: "best_of es r (map_of (fold dedup_step es []) r)"
proof (induction es arbitrary: r rule: rev_induct)
  case (snoc e es)
  show ?case
  proof (cases "ent_replica e = r")
    case True
    show ?thesis
    proof (cases "map_of (fold dedup_step es []) r")
      case None
      with True snoc [of r] show ?thesis by (auto simp: dedup_step_map best_of_def image_iff)
    next
      case (Some kt)
      obtain k t where kt: "kt = (k, t)" by fastforce
      with Some snoc [of r] have old: "\<exists>e\<in>set es. ent_replica e = r \<and> ent_key e = k \<and> last_access e = t"
        "\<forall>e\<in>set es. ent_replica e = r \<longrightarrow> last_access e \<le> t" by (auto simp: best_of_def)
      have "map_of (fold dedup_step (es @ [e]) []) r =
          Some (if t < last_access e then (ent_key e, last_access e) else (k, t))"
        using True Some kt by (simp add: dedup_step_map)
      with True old show ?thesis by (cases "t < last_access e") (auto simp: best_of_def)
    qed
  next
    case False
    then have "map_of (fold dedup_step (es @ [e]) []) r = map_of (fold dedup_step es []) r"
      by (simp add: dedup_step_map)
    with snoc [of r] False show ?thesis by (auto simp: best_of_def split: option.splits prod.splits)
  qed
qed (simp add: best_of_def)

lemma dedup_replicas: "fst ` set (fold dedup_step es []) = ent_replica ` set es"
proof -
  have "r \<in> dom (map_of (fold dedup_step es [])) \<longleftrightarrow> r \<in> ent_replica ` set es" for r
    using dedup_fold [of es r] by (auto simp: best_of_def split: option.splits prod.splits)
  then show ?thesis by (auto simp: dom_map_of_conv_image_fst)
qed

text \<open>The most recent access to a replica through any of its keys.\<close>

definition recency :: "ReplicaRegistry \<Rightarrow> replica_ptr \<Rightarrow> int" where
  "recency s r = Max (last_access ` {e \<in> set (reg_entries s). ent_replica e = r})"

lemma dedup_entry:
  assumes inv: "registry_inv s" and "(r, k, t) \<in> set (fold dedup_step (reg_entries s) [])"
  shows "view s k = Some r \<and> t = recency s r"
proof -
  have d: "map_of (fold dedup_step (reg_entries s) []) r = Some (k, t)"
    using assms(2) dedup_distinct [of "[]" "reg_entries s"] by simp
  then obtain e where e: "e \<in> set (reg_entries s)" "ent_replica e = r" "ent_key e = k" "last_access e = t"
    and mx: "\<forall>e\<in>set (reg_entries s). ent_replica e = r \<longrightarrow> last_access e \<le> t"
    using dedup_fold [of "reg_entries s" r] by (auto simp: best_of_def)
  have "t = recency s r" unfolding recency_def by (rule Max_eqI [symmetric]) (use e mx in auto)
  moreover have "distinct (map ent_key (reg_entries s))" using inv by (rule registry_distinct)
  then have "view s k = Some r"
    using e unfolding view_def by (intro map_of_is_SomeI) (auto simp: comp_def)
  ultimately show ?thesis by simp
qed

lemma lru_instances_sound:
  assumes inv: "registry_inv s" and "std_sort snd srt"
  shows "mset (map (view s) (get_lru_instances srt s)) = mset (map Some (map fst (fold dedup_step (reg_entries s) [])))"
    and "sorted (map (recency s \<circ> the \<circ> view s) (get_lru_instances srt s))"
proof -
  let ?d = "fold dedup_step (reg_entries s) []"
  have ent: "view s (fst (snd x)) = Some (fst x) \<and> snd (snd x) = recency s (fst x)" if "x \<in> set ?d" for x
    using dedup_entry [OF inv, of "fst x" "fst (snd x)" "snd (snd x)"] that by simp
  have perm: "mset (srt (map snd ?d)) = mset (map snd ?d)" and srt: "sorted (map snd (srt (map snd ?d)))"
    using assms(2) by (auto simp: std_sort_def)
  have "mset (map (view s) (get_lru_instances srt s)) = image_mset (view s \<circ> fst) (mset (map snd ?d))"
    unfolding get_lru_instances_def map_map mset_map perm by simp
  also have "\<dots> = mset (map (view s \<circ> fst \<circ> snd) ?d)" by (simp only: mset_map [symmetric] map_map o_assoc)
  also have "map (view s \<circ> fst \<circ> snd) ?d = map Some (map fst ?d)" using ent by simp
  finally show "mset (map (view s) (get_lru_instances srt s)) = mset (map Some (map fst ?d))" .
  have "recency s (the (view s (fst x))) = snd x" if "x \<in> set (srt (map snd ?d))" for x
  proof -
    have "set (srt (map snd ?d)) = set (map snd ?d)" using perm by (rule mset_eq_setD)
    with that obtain y where "y \<in> set ?d" "x = snd y" by auto
    with ent [of y] show ?thesis by simp
  qed
  then have "map (recency s \<circ> the \<circ> view s) (get_lru_instances srt s) = map snd (srt (map snd ?d))"
    by (simp add: get_lru_instances_def)
  with srt show "sorted (map (recency s \<circ> the \<circ> view s) (get_lru_instances srt s))" by simp
qed

lemma view_ran:
  assumes "registry_inv s"
  shows "ran (view s) = ent_replica ` set (reg_entries s)"
proof -
  have "distinct (map ent_key (reg_entries s))" using assms by (rule registry_distinct)
  then show ?thesis unfolding view_def by (subst ran_distinct) (auto simp: comp_def image_image)
qed

text \<open>
  C25. The eviction candidates name every registered replica exactly once, whatever number of
  keys it is registered under, in the order of the most recent access through any of its
  keys; only the order of replicas accessed at the same time depends on the hash table and
  the sorting routine.
\<close>

theorem lru_candidates:
  assumes "std_sort snd srt"
  shows "distinct (map (view (registry_after ops)) (get_lru_instances srt (registry_after ops))) \<and>
    set (map (view (registry_after ops)) (get_lru_instances srt (registry_after ops))) =
      Some ` ran (view (registry_after ops)) \<and>
    sorted (map (recency (registry_after ops) \<circ> the \<circ> view (registry_after ops))
      (get_lru_instances srt (registry_after ops)))"
proof -
  let ?s = "registry_after ops" and ?l = "get_lru_instances srt (registry_after ops)"
  let ?d = "fold dedup_step (reg_entries ?s) []"
  have inv: "registry_inv ?s" by (rule registry_after_inv)
  note lru = lru_instances_sound [OF inv assms]
  have "distinct (map Some (map fst ?d))"
    using dedup_distinct [of "[]" "reg_entries ?s"] by (simp add: distinct_map inj_on_def)
  then have "distinct (map (view ?s) ?l)" using lru(1) mset_eq_imp_distinct_iff by blast
  moreover have "set (map (view ?s) ?l) = set (map Some (map fst ?d))" using lru(1) by (rule mset_eq_setD)
  then have "set (map (view ?s) ?l) = Some ` ran (view ?s)"
    using view_ran [OF inv] dedup_replicas [of "reg_entries ?s"] by (simp add: image_image [symmetric])
  ultimately show ?thesis using lru(2) by blast
qed

definition ex_cpu_key :: "string \<Rightarrow> ReplicaKey" where
  "ex_cpu_key a = \<lparr>artifact_id = a, view_id = None,
     device = \<lparr>dev_type = DeviceCPU, ordinal = 0, uuid = []\<rparr>, replica = 0\<rparr>"

definition ex_ops :: "registry_op list" where
  "ex_ops = [OpEmplace 1 (ex_cpu_key ''a'') 7, OpEmplace 2 (ex_cpu_key ''b'') 8,
     OpEmplace 3 (ex_cpu_key ''alias'') 7]"

theorem lru_candidates_witness:
  "distinct (map (view (registry_after ex_ops)) (get_lru_instances (sort_key snd) (registry_after ex_ops)))"
  using lru_candidates [OF std_sort_sort_key, of ex_ops] by blast

section \<open>The eviction loop\<close>

text \<open>The states after each successful release, were the loop never to stop.\<close>

primrec release_states ::
  "(ReplicaKey \<Rightarrow> 'w \<Rightarrow> 'w \<times> status) \<Rightarrow> ('w \<Rightarrow> 'w) \<Rightarrow> (ReplicaKey \<Rightarrow> 'w \<Rightarrow> 'w) \<Rightarrow> ReplicaKey list \<Rightarrow> 'w \<Rightarrow> 'w list"
where
  "release_states rel note_it on_evicted [] w = []"
| "release_states rel note_it on_evicted (k # ks) w =
     (case rel k w of
        (w1, Inl _) \<Rightarrow> release_states rel note_it on_evicted ks w1
      | (w1, Inr _) \<Rightarrow> on_evicted k (note_it w1) # release_states rel note_it on_evicted ks (on_evicted k (note_it w1)))"

lemma evict_loop_stops_first:
  "case find enough (release_states rel note_it on_evicted ks w) of
     Some w' \<Rightarrow> evict_loop rel note_it enough on_evicted ks w = (w', ok_status)
   | None \<Rightarrow> \<not> is_ok (snd (evict_loop rel note_it enough on_evicted ks w))"
proof (induction ks arbitrary: w)
  case (Cons k ks)
  obtain w1 r where run: "rel k w = (w1, r)" by fastforce
  show ?case
  proof (cases r)
    case (Inl e)
    with run Cons [of w1] show ?thesis by (simp split: option.splits)
  next
    case (Inr u)
    with run Cons [of "on_evicted k (note_it w1)"] show ?thesis by (simp add: Let_def split: option.splits)
  qed
qed simp

text \<open>
  C26. Eviction from the pinned pool succeeds exactly when some release along the candidates
  brings the pool to the required size, and it stops in the state after the first such
  release: no replica past it is released.
\<close>

theorem cpu_eviction_stops_first:
  "case find (\<lambda>w. required \<le> pool_available env (snd w))
      (release_states (release_for_cpu env now) (apsnd (record_memory_eviction env))
         (\<lambda>key. apsnd (on_evicted key)) (get_lru_instances srt (fst w)) w) of
     Some w' \<Rightarrow> evict_for_cpu srt env on_evicted now required w = (w', ok_status)
   | None \<Rightarrow> \<not> is_ok (snd (evict_for_cpu srt env on_evicted now required w))"
  unfolding evict_for_cpu_def evict_core_def by (rule evict_loop_stops_first)

text \<open>
  Eviction from a device compares an unsigned difference of free memory: when other
  allocations took more than the release gave back, the difference wraps around and the
  loop reports success.
\<close>

definition ex_gpu_key :: ReplicaKey where
  "ex_gpu_key = \<lparr>artifact_id = ''a'', view_id = None,
     device = \<lparr>dev_type = DeviceGPU, ordinal = 0, uuid = []\<rparr>, replica = 0\<rparr>"

definition ex_env :: "u64 replica_ops" where
  "ex_env = \<lparr>loaded_at = (\<lambda>_ _ _. True), release_memory = (\<lambda>_ _ x. (x - 10, ok_status)),
     get_free_memory = (\<lambda>_ x. Inr x), pool_available = id, record_memory_eviction = id\<rparr>"

lemma gpu_eviction_wraps:
  "snd (evict_for_gpu (sort_key snd) ex_env 0 0 1000
     (registry_after [OpEmplace 0 ex_gpu_key 1], 50)) = ok_status"
  by (simp add: evict_for_gpu_def evict_core_def ex_env_def get_lru_instances_def registry_after_def
      emplace_def new_replica_registry_def append_to_secondary_indices_def upd_entry_def Let_def
      dedup_step_def release_for_gpu_def find_replica_def touch_entry_def ex_gpu_key_def word_le_nat_alt)

end
