(* ===== verification/Lifecycle_Types.thy ===== *)
theory Lifecycle_Types
  imports TC_Prelude
begin

text \<open>
  Data of the lifecycle kernel (\<open>daemon/state/lifecycle_kernel.h\<close>): capability families,
  addresses, credentials, records and requests. Enumerators keep the order of the source,
  whose numeric values enter the address index. Field names carry a short prefix where
  several structures share one.
\<close>

section \<open>Time\<close>

text \<open>A time point with the two infinite values of the time library.\<close>

datatype abs_time = InfinitePast | At int | InfiniteFuture

fun time_le :: "abs_time \<Rightarrow> abs_time \<Rightarrow> bool" where
  "time_le InfinitePast _ = True"
| "time_le (At a) (At b) = (a \<le> b)"
| "time_le _ InfiniteFuture = True"
| "time_le _ _ = False"

definition time_less :: "abs_time \<Rightarrow> abs_time \<Rightarrow> bool" where
  "time_less a b \<longleftrightarrow> \<not> time_le b a"

section \<open>Enumerations\<close>

datatype LifecycleCapabilityFamily = FamServe | FamExport | FamPlacement | FamRetention | FamPublish | FamInternal

datatype LifecycleFrontDoorKind =
    FdPayloadRef | FdLocalCpuMemfdExport | FdLocalCudaIpcExport | FdPlacementLeaseEnvelope
  | FdPlacementLeaseLocalToken | FdRetentionHandleToken | FdTargetPublicationToken | FdInternalRecord

datatype CredentialCarriageKind = SelfDescribing | OpaqueLocalCompat

datatype LifecycleBindingMode = AddressDerived | BindingRecord

datatype LifecycleBindingSpace =
    SpPayload | SpExportHandle | SpPlacementLease | SpRetentionHandle | SpPublication | SpInternalRecord

datatype BindingKeyKind =
    KkPayloadId | KkLeaseId | KkHandleId | KkPublicationId | KkOpaqueLocalToken | KkInternalRecordId

datatype LifecycleSubjectKind =
    SubBacking | SubPolicySource | SubInlineSnapshot | SubPlacementTarget | SubSelectionTarget
  | SubPublicationTarget | SubCommitTarget

datatype LifecycleRecordState = Minting | Active | Draining | Expired | Released

datatype LifecycleBindingState = BindActive | BindExpired | BindRevoked

datatype WorkflowGateKind = GateNone | GateRequired

datatype LifecycleRoutePrincipalKind = RouteIssuerDaemon | RouteWorkflowOwner | RouteInternalAuthority

datatype FencingPrincipalKind =
    FenceIssuerDaemon | FenceWorkflowOwner | FenceOperation | FenceQueueLeader | FenceBindingRecord
  | FenceInternalAuthority

datatype WorkflowOwnerKind = OwnPublication | OwnOperation | OwnQueue | OwnInternal

text \<open>The numeric values that \<open>static_cast<int>\<close> gives.\<close>

primrec route_kind_code :: "LifecycleRoutePrincipalKind \<Rightarrow> nat" where
  "route_kind_code RouteIssuerDaemon = 0"
| "route_kind_code RouteWorkflowOwner = 1"
| "route_kind_code RouteInternalAuthority = 2"

primrec family_code :: "LifecycleCapabilityFamily \<Rightarrow> nat" where
  "family_code FamServe = 0" | "family_code FamExport = 1" | "family_code FamPlacement = 2"
| "family_code FamRetention = 3" | "family_code FamPublish = 4" | "family_code FamInternal = 5"

primrec space_code :: "LifecycleBindingSpace \<Rightarrow> nat" where
  "space_code SpPayload = 0" | "space_code SpExportHandle = 1" | "space_code SpPlacementLease = 2"
| "space_code SpRetentionHandle = 3" | "space_code SpPublication = 4" | "space_code SpInternalRecord = 5"

primrec key_kind_code :: "BindingKeyKind \<Rightarrow> nat" where
  "key_kind_code KkPayloadId = 0" | "key_kind_code KkLeaseId = 1" | "key_kind_code KkHandleId = 2"
| "key_kind_code KkPublicationId = 3" | "key_kind_code KkOpaqueLocalToken = 4"
| "key_kind_code KkInternalRecordId = 5"

section \<open>Records\<close>

record LifecycleRoutePrincipal =
  route_principal_kind :: LifecycleRoutePrincipalKind
  route_principal_id :: string

record FencingContext =
  fence_principal_kind :: FencingPrincipalKind
  fence_principal_id :: string
  fence_epoch :: u64

record WorkflowCompanionRef =
  wf_owner_kind :: WorkflowOwnerKind
  wf_workflow_id :: string
  wf_currentness_key :: "string option"
  wf_operation_id :: "string option"
  wf_fencing_context :: "FencingContext option"

record LifecycleEpochs =
  subject_generation :: u64
  fencing_context :: "FencingContext option"

record ConstraintClaims =
  cl_artifact_id :: string
  cl_digest_alg :: string
  cl_digest_hex :: string
  cl_direction :: string
  cl_operation_id :: string
  cl_holder_scope :: string
  cl_local_only :: bool

datatype SemanticLayoutKind =
    SlUnspecified | SlNamedLayoutId | SlCanonicalIndexDigest | SlFixedProfileLayout
  | SlCanonicalizedProjectionDigest

record SemanticLayoutIdentity =
  sl_kind :: SemanticLayoutKind
  sl_value :: string

record ContentIdentity =
  ci_semantic_layout_identity :: SemanticLayoutIdentity
  ci_logical_size_bytes :: u64
  ci_digest_alg :: string
  ci_digest_bytes :: string

record VerifiedContentDescriptor =
  content_identity :: ContentIdentity

record LifecycleSubjectRecord =
  subject_id :: string
  sub_epochs :: LifecycleEpochs
  subject_kind :: LifecycleSubjectKind
  created_at :: abs_time
  last_observed_at :: abs_time
  sub_artifact_id :: "string option"
  verified_content_descriptor :: "VerifiedContentDescriptor option"
  semantic_ref_id :: "string option"
  sub_workflow_companion :: "WorkflowCompanionRef option"
  caller_visible :: bool

record LifecycleCapabilityRecord =
  cap_id :: string
  cap_family :: LifecycleCapabilityFamily
  cap_front_door_kind :: LifecycleFrontDoorKind
  cap_subject_id :: string
  cap_epochs :: LifecycleEpochs
  cap_lease_id :: u64
  cap_lease_generation :: "u64 option"
  cap_issuer_daemon_id :: string
  cap_issued_at :: abs_time
  cap_expires_at :: abs_time
  cap_state :: LifecycleRecordState
  cap_workflow_companion :: "WorkflowCompanionRef option"
  cap_holder_scope :: "string option"
  cap_resolution_hints :: "string option"
  cap_direction :: "string option"
  cap_local_only :: bool
  cap_workflow_gate :: WorkflowGateKind
  cap_constraint_claims :: ConstraintClaims

record CapabilityBindingAddress =
  route_principal :: LifecycleRoutePrincipal
  ad_family :: LifecycleCapabilityFamily
  ad_binding_space :: LifecycleBindingSpace
  ad_binding_key_kind :: BindingKeyKind
  ad_binding_key :: string
  ad_epochs :: LifecycleEpochs
  ad_binding_id :: "string option"

record LifecycleBindingRecord =
  bind_id :: string
  bind_capability_id :: string
  bind_address :: CapabilityBindingAddress
  bind_issued_at :: abs_time
  bind_credential_expires_at :: abs_time
  bind_state :: LifecycleBindingState
  bind_fencing_context :: "FencingContext option"

record ParsedCredential =
  cred_address :: CapabilityBindingAddress
  cred_front_door_kind :: LifecycleFrontDoorKind
  cred_expires_at :: abs_time
  cred_carriage_kind :: CredentialCarriageKind
  cred_binding_mode :: LifecycleBindingMode
  cred_constraint_claims :: ConstraintClaims

record LifecycleUseGuard =
  guard_id :: string
  guard_capability_id :: string

record AdmittedCapabilityUse =
  use_capability :: LifecycleCapabilityRecord
  use_subject :: LifecycleSubjectRecord
  use_binding_record :: "LifecycleBindingRecord option"
  use_guard :: LifecycleUseGuard

record MintCapabilityRequest =
  mint_subject :: LifecycleSubjectRecord
  mint_address :: CapabilityBindingAddress
  mint_front_door_kind :: LifecycleFrontDoorKind
  mint_capability_id :: string
  mint_lease_id :: u64
  mint_lease_generation :: "u64 option"
  mint_capability_expires_at :: abs_time
  mint_carriage_kind :: CredentialCarriageKind
  mint_binding_mode :: LifecycleBindingMode
  mint_constraint_claims :: ConstraintClaims
  mint_credential_expires_at :: "abs_time option"
  mint_binding_id :: "string option"
  mint_workflow_companion :: "WorkflowCompanionRef option"
  mint_holder_scope :: "string option"
  mint_resolution_hints :: "string option"
  mint_direction :: "string option"
  mint_local_only :: bool
  mint_workflow_gate :: WorkflowGateKind
  mint_binding_fencing_context :: "FencingContext option"

record RenewCapabilityRequest =
  renew_capability_id :: string
  renew_capability_expires_at :: abs_time
  renew_credential_expires_at :: "abs_time option"
  renew_binding_id :: "string option"

section \<open>Decimal numbers\<close>

definition digit :: "nat \<Rightarrow> char" where
  "digit n = char_of (48 + n)"

function str_nat :: "nat \<Rightarrow> string" where
  "str_nat n = (if n < 10 then [digit n] else str_nat (n div 10) @ [digit (n mod 10)])"
  by pat_completeness auto
termination by (relation "measure id") auto

declare str_nat.simps [simp del]

lemma digit_inj:
  assumes "a < 10" "b < 10"
  shows "digit a = digit b \<longleftrightarrow> a = b"
proof
  assume "digit a = digit b"
  then have "of_char (digit a) = (of_char (digit b) :: nat)" by (rule arg_cong)
  then show "a = b" using assms by (simp add: digit_def)
qed simp

lemma str_nat_small: "n < 10 \<Longrightarrow> str_nat n = [digit n]"
  by (subst str_nat.simps) simp

lemma str_nat_large: "\<not> n < 10 \<Longrightarrow> str_nat n = str_nat (n div 10) @ [digit (n mod 10)]"
  by (subst str_nat.simps) simp

lemma str_nat_nonempty: "str_nat n \<noteq> []"
  by (cases "n < 10") (simp_all add: str_nat_small str_nat_large)

lemma str_nat_inj: "str_nat a = str_nat b \<longleftrightarrow> a = b"
proof (induction a arbitrary: b rule: str_nat.induct)
  case (1 a)
  show ?case
  proof (cases "a < 10"; cases "b < 10")
    assume "\<not> a < 10" "\<not> b < 10"
    then have "str_nat a = str_nat b \<longleftrightarrow> str_nat (a div 10) = str_nat (b div 10) \<and> a mod 10 = b mod 10"
      by (simp add: str_nat_large digit_inj)
    then show ?thesis using 1 [OF \<open>\<not> a < 10\<close>] by (metis div_mult_mod_eq)
  next
    assume "a < 10" "\<not> b < 10"
    then have "length (str_nat a) \<noteq> length (str_nat b)"
      by (simp add: str_nat_small str_nat_large str_nat_nonempty)
    with \<open>a < 10\<close> \<open>\<not> b < 10\<close> show ?thesis by auto
  next
    assume "\<not> a < 10" "b < 10"
    then have "length (str_nat a) \<noteq> length (str_nat b)"
      by (simp add: str_nat_small str_nat_large str_nat_nonempty)
    with \<open>\<not> a < 10\<close> \<open>b < 10\<close> show ?thesis by auto
  qed (simp add: str_nat_small digit_inj)
qed

end
