(* ===== verification/Lifecycle_Kernel.thy ===== *)
theory Lifecycle_Kernel
  imports Lifecycle_Types
begin

text \<open>
  The lifecycle kernel (\<open>daemon/state/lifecycle_kernel.cc\<close>): minting, renewing, redeeming,
  revoking and releasing capabilities. Each reading of the clock is an argument. Operations
  that change state before they fail return the changed state with the error. The theorems
  show which credentials are admitted, that use guards are counted exactly, so that a
  capability is never dropped while in use, and that the address index never names a wrong
  capability.
\<close>

section \<open>State\<close>

record CapabilityEntry =
  capability :: LifecycleCapabilityRecord
  ent_subject :: LifecycleSubjectRecord
  ent_address :: CapabilityBindingAddress
  ent_carriage_kind :: CredentialCarriageKind
  ent_binding_mode :: LifecycleBindingMode
  active_use_count :: u64
  ent_binding_id :: "string option"

record LifecycleKernel =
  issuer_daemon_id :: string
  next_guard_id :: u64
  capabilities_by_id :: "string \<rightharpoonup> CapabilityEntry"
  address_to_capability_id :: "string \<rightharpoonup> string"
  bindings_by_id :: "string \<rightharpoonup> LifecycleBindingRecord"
  use_guard_to_capability_id :: "(string \<times> string) list"

definition new_kernel :: "string \<Rightarrow> LifecycleKernel" where
  "new_kernel issuer = \<lparr>issuer_daemon_id = issuer, next_guard_id = 1, capabilities_by_id = Map.empty,
     address_to_capability_id = Map.empty, bindings_by_id = Map.empty, use_guard_to_capability_id = []\<rparr>"

section \<open>Helpers\<close>

definition route_principal_is_local_issuer :: "LifecycleRoutePrincipal \<Rightarrow> string \<Rightarrow> bool" where
  "route_principal_is_local_issuer rp issuer \<longleftrightarrow>
     route_principal_kind rp = RouteIssuerDaemon \<and> route_principal_id rp = issuer"

definition address_index_key :: "CapabilityBindingAddress \<Rightarrow> string" where
  "address_index_key ad =
     str_nat (route_kind_code (route_principal_kind (route_principal ad))) @ ''|'' @
     route_principal_id (route_principal ad) @ ''|'' @
     str_nat (family_code (ad_family ad)) @ ''|'' @
     str_nat (space_code (ad_binding_space ad)) @ ''|'' @
     str_nat (key_kind_code (ad_binding_key_kind ad)) @ ''|'' @ ad_binding_key ad"

definition or_else :: "'a option \<Rightarrow> 'a option \<Rightarrow> 'a option" where
  "or_else a b = (case a of None \<Rightarrow> b | Some x \<Rightarrow> Some x)"

definition value_or :: "'a option \<Rightarrow> 'a \<Rightarrow> 'a" where
  "value_or a d = (case a of None \<Rightarrow> d | Some x \<Rightarrow> x)"

definition validate_mint_request :: "MintCapabilityRequest \<Rightarrow> LifecycleKernel \<Rightarrow> status" where
  "validate_mint_request rq k =
     (if mint_capability_id rq = [] then Inl (Err InvalidArgument ''capability_id is required'')
      else if subject_id (mint_subject rq) = []
      then Inl (Err InvalidArgument ''subject.subject_id is required'')
      else if route_principal_id (route_principal (mint_address rq)) = []
      then Inl (Err InvalidArgument ''address.route_principal.principal_id is required'')
      else if \<not> route_principal_is_local_issuer (route_principal (mint_address rq)) (issuer_daemon_id k)
      then Inl (Err FailedPrecondition ''lifecycle kernel only mints issuer-local capabilities'')
      else if ad_binding_key (mint_address rq) = []
      then Inl (Err InvalidArgument ''address.binding_key is required'')
      else if sub_epochs (mint_subject rq) \<noteq> ad_epochs (mint_address rq)
      then Inl (Err InvalidArgument ''subject epochs must match binding address epochs'')
      else if mint_capability_expires_at rq = InfinitePast
      then Inl (Err InvalidArgument ''capability_expires_at is required'')
      else if mint_binding_mode rq = BindingRecord then
        (if value_or (or_else (mint_binding_id rq) (ad_binding_id (mint_address rq))) [] = []
         then Inl (Err InvalidArgument ''binding_record mode requires binding_id'')
         else if mint_credential_expires_at rq = None
         then Inl (Err InvalidArgument ''binding_record mode requires credential_expires_at'')
         else ok_status)
      else ok_status)"

section \<open>Minting and renewing\<close>

definition minted_subject :: "int \<Rightarrow> LifecycleSubjectRecord \<Rightarrow> LifecycleSubjectRecord" where
  "minted_subject now sub =
     (let sub1 = (if created_at sub = InfinitePast then sub\<lparr>created_at := At now\<rparr> else sub)
      in sub1\<lparr>last_observed_at := created_at sub1\<rparr>)"

definition minted_entry :: "int \<Rightarrow> int \<Rightarrow> MintCapabilityRequest \<Rightarrow> LifecycleKernel \<Rightarrow> CapabilityEntry" where
  "minted_entry now1 now2 rq k =
     \<lparr>capability =
        \<lparr>cap_id = mint_capability_id rq, cap_family = ad_family (mint_address rq),
         cap_front_door_kind = mint_front_door_kind rq, cap_subject_id = subject_id (mint_subject rq),
         cap_epochs = ad_epochs (mint_address rq), cap_lease_id = mint_lease_id rq,
         cap_lease_generation = mint_lease_generation rq, cap_issuer_daemon_id = issuer_daemon_id k,
         cap_issued_at = At now2, cap_expires_at = mint_capability_expires_at rq, cap_state = Active,
         cap_workflow_companion = mint_workflow_companion rq, cap_holder_scope = mint_holder_scope rq,
         cap_resolution_hints = mint_resolution_hints rq, cap_direction = mint_direction rq,
         cap_local_only = mint_local_only rq, cap_workflow_gate = mint_workflow_gate rq,
         cap_constraint_claims = mint_constraint_claims rq\<rparr>,
      ent_subject = minted_subject now1 (mint_subject rq), ent_address = mint_address rq,
      ent_carriage_kind = mint_carriage_kind rq, ent_binding_mode = mint_binding_mode rq,
      active_use_count = 0, ent_binding_id = or_else (mint_binding_id rq) (ad_binding_id (mint_address rq))\<rparr>"

definition minted_binding :: "int \<Rightarrow> MintCapabilityRequest \<Rightarrow> abs_time \<Rightarrow> LifecycleBindingRecord" where
  "minted_binding now2 rq credential_expiry =
     (let bid = value_or (or_else (mint_binding_id rq) (ad_binding_id (mint_address rq))) []
      in \<lparr>bind_id = bid, bind_capability_id = mint_capability_id rq,
          bind_address = (mint_address rq)\<lparr>ad_binding_id := Some bid\<rparr>, bind_issued_at = At now2,
          bind_credential_expires_at = credential_expiry, bind_state = BindActive,
          bind_fencing_context = mint_binding_fencing_context rq\<rparr>)"

definition mint_capability ::
  "int \<Rightarrow> int \<Rightarrow> MintCapabilityRequest \<Rightarrow> LifecycleKernel \<Rightarrow> LifecycleKernel \<times> LifecycleCapabilityRecord status_or"
where
  "mint_capability now1 now2 rq k =
     (case validate_mint_request rq k of
        Inl e \<Rightarrow> (k, Inl e)
      | Inr _ \<Rightarrow>
        if capabilities_by_id k (mint_capability_id rq) \<noteq> None
        then (k, Inl (Err AlreadyExists ''capability_id already exists''))
        else if mint_binding_mode rq = AddressDerived \<and>
                address_to_capability_id k (address_index_key (mint_address rq)) \<noteq> None
        then (k, Inl (Err AlreadyExists ''binding address already exists''))
        else
          (let entry = minted_entry now1 now2 rq k;
               k1 = k\<lparr>capabilities_by_id := (capabilities_by_id k)(mint_capability_id rq \<mapsto> entry)\<rparr>
           in (case mint_binding_mode rq of
                 AddressDerived \<Rightarrow>
                   k1\<lparr>address_to_capability_id := (address_to_capability_id k1)
                       (address_index_key (mint_address rq) \<mapsto> mint_capability_id rq)\<rparr>
               | BindingRecord \<Rightarrow>
                   (let b = minted_binding now2 rq (value_or (mint_credential_expires_at rq) InfinitePast)
                    in k1\<lparr>bindings_by_id := (bindings_by_id k1)(bind_id b \<mapsto> b)\<rparr>),
               Inr (capability entry))))"

definition put_entry :: "string \<Rightarrow> CapabilityEntry \<Rightarrow> LifecycleKernel \<Rightarrow> LifecycleKernel" where
  "put_entry cid e k = k\<lparr>capabilities_by_id := (capabilities_by_id k)(cid \<mapsto> e)\<rparr>"

definition upd_binding :: "string \<Rightarrow> (LifecycleBindingRecord \<Rightarrow> LifecycleBindingRecord) \<Rightarrow> LifecycleKernel \<Rightarrow> LifecycleKernel" where
  "upd_binding bid f k =
     (case bindings_by_id k bid of
        None \<Rightarrow> k
      | Some b \<Rightarrow> k\<lparr>bindings_by_id := (bindings_by_id k)(bid \<mapsto> f b)\<rparr>)"

definition set_cap_state :: "LifecycleRecordState \<Rightarrow> CapabilityEntry \<Rightarrow> CapabilityEntry" where
  "set_cap_state st e = e\<lparr>capability := (capability e)\<lparr>cap_state := st\<rparr>\<rparr>"

definition renew_capability ::
  "RenewCapabilityRequest \<Rightarrow> LifecycleKernel \<Rightarrow> LifecycleKernel \<times> LifecycleCapabilityRecord status_or"
where
  "renew_capability rq k =
     (case capabilities_by_id k (renew_capability_id rq) of
        None \<Rightarrow> (k, Inl (Err NotFound ''capability_id not found''))
      | Some e \<Rightarrow>
        (let e1 = e\<lparr>capability := (capability e)\<lparr>cap_expires_at := renew_capability_expires_at rq\<rparr>\<rparr>;
             k1 = put_entry (renew_capability_id rq) e1 k;
             e2 = (if cap_state (capability e1) = Expired then set_cap_state Active e1 else e1);
             finish = (\<lambda>k'. (put_entry (renew_capability_id rq) e2 k', Inr (capability e2)))
         in case (ent_binding_mode e1, renew_credential_expires_at rq) of
              (BindingRecord, Some t) \<Rightarrow>
                (let bid = value_or (or_else (renew_binding_id rq) (ent_binding_id e1)) [] in
                 if bindings_by_id k1 bid = None then (k1, Inl (Err NotFound ''binding_id not found''))
                 else finish (upd_binding bid
                        (\<lambda>b. b\<lparr>bind_credential_expires_at := t, bind_state := BindActive\<rparr>) k1))
            | _ \<Rightarrow> finish k1))"

section \<open>Redemption\<close>

definition claim_conflict :: "string \<Rightarrow> string \<Rightarrow> bool" where
  "claim_conflict expected observed \<longleftrightarrow> expected \<noteq> [] \<and> observed \<noteq> [] \<and> expected \<noteq> observed"

definition validate_constraint_claims :: "ConstraintClaims \<Rightarrow> ConstraintClaims \<Rightarrow> status" where
  "validate_constraint_claims expected observed =
     (if claim_conflict (cl_artifact_id expected) (cl_artifact_id observed)
      then Inl (Err FailedPrecondition ''artifact_id constraint mismatch'')
      else if claim_conflict (cl_digest_alg expected) (cl_digest_alg observed)
      then Inl (Err FailedPrecondition ''digest_alg constraint mismatch'')
      else if claim_conflict (cl_digest_hex expected) (cl_digest_hex observed)
      then Inl (Err FailedPrecondition ''digest_hex constraint mismatch'')
      else if claim_conflict (cl_direction expected) (cl_direction observed)
      then Inl (Err FailedPrecondition ''direction constraint mismatch'')
      else if claim_conflict (cl_operation_id expected) (cl_operation_id observed)
      then Inl (Err FailedPrecondition ''operation_id constraint mismatch'')
      else if claim_conflict (cl_holder_scope expected) (cl_holder_scope observed)
      then Inl (Err PermissionDenied ''holder_scope constraint mismatch'')
      else if cl_local_only expected \<and> \<not> cl_local_only observed
      then Inl (Err FailedPrecondition ''local_only constraint mismatch'')
      else ok_status)"

definition same_binding_address :: "CapabilityBindingAddress \<Rightarrow> CapabilityBindingAddress \<Rightarrow> bool" where
  "same_binding_address a b \<longleftrightarrow> ad_family a = ad_family b \<and> ad_binding_space a = ad_binding_space b \<and>
     ad_binding_key_kind a = ad_binding_key_kind b \<and> ad_binding_key a = ad_binding_key b"

text \<open>The entry a credential resolves to, by its capability id; an expired binding is marked on the way.\<close>

definition resolve_entry_for_credential ::
  "int \<Rightarrow> ParsedCredential \<Rightarrow> LifecycleKernel \<Rightarrow> LifecycleKernel \<times> string status_or"
where
  "resolve_entry_for_credential now cr k =
     (if \<not> route_principal_is_local_issuer (route_principal (cred_address cr)) (issuer_daemon_id k)
      then (k, Inl (Err FailedPrecondition ''credential issuer is not local to this lifecycle kernel''))
      else case cred_binding_mode cr of
        BindingRecord \<Rightarrow>
          (let bid = value_or (ad_binding_id (cred_address cr)) [] in
           if bid = [] then (k, Inl (Err InvalidArgument ''binding_record credential missing binding_id''))
           else case bindings_by_id k bid of
             None \<Rightarrow> (k, Inl (Err NotFound ''binding_id not found''))
           | Some b \<Rightarrow>
             if \<not> same_binding_address (bind_address b) (cred_address cr)
             then (k, Inl (Err FailedPrecondition ''binding_id address mismatch''))
             else if bind_state b = BindRevoked
             then (k, Inl (Err PermissionDenied ''binding_id revoked''))
             else if time_le (bind_credential_expires_at b) (At now)
             then (upd_binding bid (\<lambda>b. b\<lparr>bind_state := BindExpired\<rparr>) k,
                   Inl (Err PermissionDenied ''binding_id expired''))
             else if capabilities_by_id k (bind_capability_id b) = None
             then (k, Inl (Err NotFound ''binding capability not found''))
             else (k, Inr (bind_capability_id b)))
      | AddressDerived \<Rightarrow>
          (case address_to_capability_id k (address_index_key (cred_address cr)) of
             None \<Rightarrow> (k, Inl (Err NotFound ''binding address not found''))
           | Some cid \<Rightarrow>
             if capabilities_by_id k cid = None
             then (k, Inl (Err NotFound ''binding capability not found''))
             else (k, Inr cid)))"

definition maybe_expire_entry :: "int \<Rightarrow> string \<Rightarrow> LifecycleKernel \<Rightarrow> LifecycleKernel" where
  "maybe_expire_entry now cid k =
     (case capabilities_by_id k cid of
        None \<Rightarrow> k
      | Some e \<Rightarrow>
        if time_le (cap_expires_at (capability e)) (At now) then
          (let k1 = put_entry cid (set_cap_state Expired e) k in
           case ent_binding_id e of
             None \<Rightarrow> k1
           | Some bid \<Rightarrow> upd_binding bid (\<lambda>b. b\<lparr>bind_state := BindExpired\<rparr>) k1)
        else k)"

definition guard_name :: "u64 \<Rightarrow> string" where
  "guard_name n = ''lkg-'' @ str_nat (unat n)"

definition admit_entry ::
  "int \<Rightarrow> string \<Rightarrow> CapabilityEntry \<Rightarrow> LifecycleKernel \<Rightarrow> LifecycleKernel \<times> AdmittedCapabilityUse"
where
  "admit_entry now cid e k =
     (let g = guard_name (next_guard_id k);
          e1 = e\<lparr>active_use_count := active_use_count e + 1,
                 ent_subject := (ent_subject e)\<lparr>last_observed_at := At now\<rparr>\<rparr>;
          k1 = (put_entry cid e1 k)\<lparr>next_guard_id := next_guard_id k + 1,
                 use_guard_to_capability_id :=
                   AList.update g (cap_id (capability e)) (use_guard_to_capability_id k)\<rparr>
      in (k1, \<lparr>use_capability = capability e1, use_subject = ent_subject e1,
               use_binding_record = (case ent_binding_id e of None \<Rightarrow> None | Some b \<Rightarrow> bindings_by_id k b),
               use_guard = \<lparr>guard_id = g, guard_capability_id = cap_id (capability e)\<rparr>\<rparr>))"

definition admit_redemption ::
  "int \<Rightarrow> int \<Rightarrow> int \<Rightarrow> ParsedCredential \<Rightarrow> LifecycleKernel \<Rightarrow> LifecycleKernel \<times> AdmittedCapabilityUse status_or"
where
  "admit_redemption now1 now2 now3 cr k =
     (case resolve_entry_for_credential now1 cr k of
        (k1, Inl e) \<Rightarrow> (k1, Inl e)
      | (k1, Inr cid) \<Rightarrow>
        (let k2 = maybe_expire_entry now2 cid k1 in
         case capabilities_by_id k2 cid of
           None \<Rightarrow> (k2, Inl (Err NotFound ''binding capability not found''))
         | Some e \<Rightarrow>
           if cap_state (capability e) \<noteq> Active
           then (k2, Inl (Err FailedPrecondition ''capability is not active''))
           else if cap_epochs (capability e) \<noteq> ad_epochs (cred_address cr)
           then (k2, Inl (Err FailedPrecondition ''credential epoch mismatch''))
           else case validate_constraint_claims (cap_constraint_claims (capability e)) (cred_constraint_claims cr) of
             Inl err \<Rightarrow> (k2, Inl err)
           | Inr _ \<Rightarrow> map_prod id Inr (admit_entry now3 cid e k2)))"

section \<open>Release and revocation\<close>

definition erase_entry :: "string \<Rightarrow> LifecycleKernel \<Rightarrow> LifecycleKernel" where
  "erase_entry cid k =
     (case capabilities_by_id k cid of
        None \<Rightarrow> k
      | Some e \<Rightarrow>
        k\<lparr>address_to_capability_id := (address_to_capability_id k)(address_index_key (ent_address e) := None),
          bindings_by_id := (case ent_binding_id e of None \<Rightarrow> bindings_by_id k
                             | Some b \<Rightarrow> (bindings_by_id k)(b := None)),
          capabilities_by_id := (capabilities_by_id k)(cid := None)\<rparr>)"

definition winding_down :: "LifecycleRecordState \<Rightarrow> bool" where
  "winding_down st \<longleftrightarrow> st = Draining \<or> st = Expired \<or> st = Released"

definition drop_use :: "string \<Rightarrow> LifecycleKernel \<Rightarrow> LifecycleKernel" where
  "drop_use cid k =
     (case capabilities_by_id k cid of
        None \<Rightarrow> k
      | Some e \<Rightarrow>
        if 0 < active_use_count e then
          (let e1 = e\<lparr>active_use_count := active_use_count e - 1\<rparr>;
               k1 = put_entry cid e1 k
           in if active_use_count e1 = 0 \<and> winding_down (cap_state (capability e1))
              then erase_entry (cap_id (capability e1)) k1 else k1)
        else k)"

definition release_use_guard :: "LifecycleUseGuard \<Rightarrow> LifecycleKernel \<Rightarrow> LifecycleKernel \<times> status" where
  "release_use_guard g k =
     (case map_of (use_guard_to_capability_id k) (guard_id g) of
        None \<Rightarrow> (k, Inl (Err NotFound ''use_guard not found''))
      | Some cid \<Rightarrow>
        (let k1 = drop_use cid k in
         (k1\<lparr>use_guard_to_capability_id := AList.delete (guard_id g) (use_guard_to_capability_id k1)\<rparr>,
          ok_status)))"

definition revoke_binding_record :: "string \<Rightarrow> LifecycleKernel \<Rightarrow> LifecycleKernel \<times> status" where
  "revoke_binding_record bid k =
     (case bindings_by_id k bid of
        None \<Rightarrow> (k, Inl (Err NotFound ''binding_id not found''))
      | Some _ \<Rightarrow> (upd_binding bid (\<lambda>b. b\<lparr>bind_state := BindRevoked\<rparr>) k, ok_status))"

definition release_capability :: "string \<Rightarrow> LifecycleKernel \<Rightarrow> LifecycleKernel \<times> status" where
  "release_capability cid k =
     (case capabilities_by_id k cid of
        None \<Rightarrow> (k, ok_status)
      | Some e \<Rightarrow>
        (let k1 = put_entry cid (set_cap_state Draining e) k;
             k2 = (case ent_binding_id e of
                     None \<Rightarrow> k1
                   | Some b \<Rightarrow> upd_binding b (\<lambda>b. b\<lparr>bind_state := BindRevoked\<rparr>) k1);
             k3 = k2\<lparr>address_to_capability_id :=
                       (address_to_capability_id k2)(address_index_key (ent_address e) := None)\<rparr>
         in (if active_use_count e = 0 then erase_entry cid k3 else k3, ok_status)))"

definition inspect_capability :: "string \<Rightarrow> LifecycleKernel \<Rightarrow> LifecycleCapabilityRecord status_or" where
  "inspect_capability cid k =
     (case capabilities_by_id k cid of
        None \<Rightarrow> Inl (Err NotFound ''capability_id not found'')
      | Some e \<Rightarrow> Inr (capability e))"

definition inspect_binding :: "string \<Rightarrow> LifecycleKernel \<Rightarrow> LifecycleBindingRecord status_or" where
  "inspect_binding bid k =
     (case bindings_by_id k bid of
        None \<Rightarrow> Inl (Err NotFound ''binding_id not found'')
      | Some b \<Rightarrow> Inr b)"
section \<open>The address index\<close>

lemma code_small [simp]:
  "route_kind_code a < 10" "family_code b < 10" "space_code c < 10" "key_kind_code d < 10"
  by ((cases a; simp), (cases b; simp), (cases c; simp), (cases d; simp))

lemma code_inj [simp]:
  "family_code a = family_code b \<longleftrightarrow> a = b" "space_code c = space_code d \<longleftrightarrow> c = d"
  "key_kind_code e = key_kind_code f \<longleftrightarrow> e = f"
  by ((cases a; cases b; simp), (cases c; cases d; simp), (cases e; cases f; simp))

lemma address_index_key_local:
  assumes "route_principal_is_local_issuer (route_principal a) issuer"
    and "route_principal_is_local_issuer (route_principal b) issuer"
  shows "address_index_key a = address_index_key b \<longleftrightarrow> same_binding_address a b"
  using assms
  by (auto simp: address_index_key_def route_principal_is_local_issuer_def same_binding_address_def
      str_nat_small digit_inj)

section \<open>Invariant\<close>

definition guard_uses :: "string \<Rightarrow> LifecycleKernel \<Rightarrow> nat" where
  "guard_uses cid k = length (filter (\<lambda>p. snd p = cid) (use_guard_to_capability_id k))"

text \<open>Entries stand under their own id and are issuer-local.\<close>

definition caps_ok :: "LifecycleKernel \<Rightarrow> bool" where
  "caps_ok k \<longleftrightarrow> (\<forall>cid e. capabilities_by_id k cid = Some e \<longrightarrow>
     cap_id (capability e) = cid \<and>
     route_principal_is_local_issuer (route_principal (ent_address e)) (issuer_daemon_id k))"

text \<open>The address index names entries of that very address that are not being drained.\<close>

definition index_ok :: "LifecycleKernel \<Rightarrow> bool" where
  "index_ok k \<longleftrightarrow> (\<forall>key cid. address_to_capability_id k key = Some cid \<longrightarrow>
     (\<exists>e. capabilities_by_id k cid = Some e \<and> address_index_key (ent_address e) = key \<and>
        ent_binding_mode e = AddressDerived \<and> cap_state (capability e) \<noteq> Draining))"

text \<open>A binding belongs to a live entry that was minted with it, for the same address.\<close>

definition bindings_ok :: "LifecycleKernel \<Rightarrow> bool" where
  "bindings_ok k \<longleftrightarrow> (\<forall>bid b. bindings_by_id k bid = Some b \<longrightarrow>
     (\<exists>e. capabilities_by_id k (bind_capability_id b) = Some e \<and> ent_binding_id e = Some bid \<and>
        same_binding_address (ent_address e) (bind_address b)))"

text \<open>Guards are numbered below the counter, belong to live entries and are counted there.\<close>

definition guards_ok :: "LifecycleKernel \<Rightarrow> bool" where
  "guards_ok k \<longleftrightarrow> distinct (map fst (use_guard_to_capability_id k)) \<and>
     fst ` set (use_guard_to_capability_id k) \<subseteq> guard_name ` {n. n < next_guard_id k} \<and>
     snd ` set (use_guard_to_capability_id k) \<subseteq> dom (capabilities_by_id k) \<and>
     (\<forall>cid e. capabilities_by_id k cid = Some e \<longrightarrow> unat (active_use_count e) = guard_uses cid k)"

definition kernel_ok :: "LifecycleKernel \<Rightarrow> bool" where
  "kernel_ok k \<longleftrightarrow> caps_ok k \<and> index_ok k \<and> bindings_ok k \<and> guards_ok k"

lemmas kernel_defs = kernel_ok_def caps_ok_def index_ok_def bindings_ok_def guards_ok_def guard_uses_def

lemma kernel_ok_new: "kernel_ok (new_kernel issuer)"
  by (simp add: kernel_defs new_kernel_def)

text \<open>Changing an entry without changing what it stands for.\<close>

definition same_role :: "CapabilityEntry \<Rightarrow> CapabilityEntry \<Rightarrow> bool" where
  "same_role e e' \<longleftrightarrow> cap_id (capability e') = cap_id (capability e) \<and> ent_address e' = ent_address e \<and>
     ent_binding_mode e' = ent_binding_mode e \<and> ent_binding_id e' = ent_binding_id e \<and>
     (cap_state (capability e') = Draining \<longrightarrow> cap_state (capability e) = Draining)"

definition same_standing :: "CapabilityEntry \<Rightarrow> CapabilityEntry \<Rightarrow> bool" where
  "same_standing e e' \<longleftrightarrow> same_role e e' \<and> active_use_count e' = active_use_count e"

lemma put_entry_fields:
  "capabilities_by_id (put_entry cid e' k) = (capabilities_by_id k)(cid \<mapsto> e')"
  "address_to_capability_id (put_entry cid e' k) = address_to_capability_id k"
  "bindings_by_id (put_entry cid e' k) = bindings_by_id k"
  "issuer_daemon_id (put_entry cid e' k) = issuer_daemon_id k"
  "next_guard_id (put_entry cid e' k) = next_guard_id k"
  "use_guard_to_capability_id (put_entry cid e' k) = use_guard_to_capability_id k"
  by (simp_all add: put_entry_def)

lemma tables_frame [simp]:
  "caps_ok (k\<lparr>use_guard_to_capability_id := g\<rparr>) = caps_ok k"
  "index_ok (k\<lparr>use_guard_to_capability_id := g\<rparr>) = index_ok k"
  "bindings_ok (k\<lparr>use_guard_to_capability_id := g\<rparr>) = bindings_ok k"
  "caps_ok (k\<lparr>next_guard_id := n\<rparr>) = caps_ok k"
  "index_ok (k\<lparr>next_guard_id := n\<rparr>) = index_ok k"
  "bindings_ok (k\<lparr>next_guard_id := n\<rparr>) = bindings_ok k"
  "caps_ok (k\<lparr>next_guard_id := n, use_guard_to_capability_id := g\<rparr>) = caps_ok k"
  "index_ok (k\<lparr>next_guard_id := n, use_guard_to_capability_id := g\<rparr>) = index_ok k"
  "bindings_ok (k\<lparr>next_guard_id := n, use_guard_to_capability_id := g\<rparr>) = bindings_ok k"
  by (simp_all add: caps_ok_def index_ok_def bindings_ok_def)

lemma tables_put:
  assumes ok: "kernel_ok k" and e: "capabilities_by_id k cid = Some e" and same: "same_role e e'"
  shows "caps_ok (put_entry cid e' k)" "index_ok (put_entry cid e' k)" "bindings_ok (put_entry cid e' k)"
proof -
  show "caps_ok (put_entry cid e' k)"
    using ok e same by (auto simp: kernel_ok_def caps_ok_def put_entry_fields same_role_def)
  show "index_ok (put_entry cid e' k)"
    unfolding index_ok_def put_entry_fields
  proof (intro allI impI)
    fix key c assume "address_to_capability_id k key = Some c"
    with ok obtain e0 where "capabilities_by_id k c = Some e0" "address_index_key (ent_address e0) = key"
      "ent_binding_mode e0 = AddressDerived" "cap_state (capability e0) \<noteq> Draining"
      unfolding kernel_ok_def index_ok_def by blast
    with e same show "\<exists>e. ((capabilities_by_id k)(cid \<mapsto> e')) c = Some e \<and>
        address_index_key (ent_address e) = key \<and> ent_binding_mode e = AddressDerived \<and>
        cap_state (capability e) \<noteq> Draining"
      by (cases "c = cid") (auto simp: same_role_def)
  qed
  show "bindings_ok (put_entry cid e' k)"
    unfolding bindings_ok_def put_entry_fields
  proof (intro allI impI)
    fix bid b assume "bindings_by_id k bid = Some b"
    with ok obtain e0 where "capabilities_by_id k (bind_capability_id b) = Some e0" "ent_binding_id e0 = Some bid"
      "same_binding_address (ent_address e0) (bind_address b)"
      unfolding kernel_ok_def bindings_ok_def by blast
    with e same show "\<exists>e. ((capabilities_by_id k)(cid \<mapsto> e')) (bind_capability_id b) = Some e \<and>
        ent_binding_id e = Some bid \<and> same_binding_address (ent_address e) (bind_address b)"
      by (cases "bind_capability_id b = cid") (auto simp: same_role_def)
  qed
qed

lemma kernel_ok_put:
  assumes ok: "kernel_ok k" and e: "capabilities_by_id k cid = Some e" and same: "same_standing e e'"
  shows "kernel_ok (put_entry cid e' k)"
proof -
  have "guards_ok (put_entry cid e' k)"
    using ok e same by (auto simp: kernel_ok_def guards_ok_def guard_uses_def put_entry_fields same_standing_def)
  with tables_put [OF ok e, of e'] same show ?thesis by (simp add: kernel_ok_def same_standing_def)
qed

lemma kernel_ok_upd_binding:
  assumes "kernel_ok k" "\<And>b. bind_capability_id (f b) = bind_capability_id b"
    "\<And>b. bind_address (f b) = bind_address b"
  shows "kernel_ok (upd_binding bid f k)"
  using assms by (auto simp: kernel_defs upd_binding_def split: option.splits)

lemma erase_entry_fields:
  assumes "capabilities_by_id k cid = Some e"
  shows "capabilities_by_id (erase_entry cid k) = (capabilities_by_id k)(cid := None)"
    "issuer_daemon_id (erase_entry cid k) = issuer_daemon_id k"
    "next_guard_id (erase_entry cid k) = next_guard_id k"
    "use_guard_to_capability_id (erase_entry cid k) = use_guard_to_capability_id k"
    "address_to_capability_id (erase_entry cid k) = (address_to_capability_id k)(address_index_key (ent_address e) := None)"
  using assms by (simp_all add: erase_entry_def)

lemma erase_entry_bindings:
  assumes "capabilities_by_id k cid = Some e" "bindings_by_id (erase_entry cid k) bid = Some b"
  shows "bindings_by_id k bid = Some b \<and> ent_binding_id e \<noteq> Some bid"
  using assms by (auto simp: erase_entry_def split: option.splits if_splits)

lemma kernel_ok_erase:
  assumes ok: "kernel_ok k" and e: "capabilities_by_id k cid = Some e" and idle: "active_use_count e = 0"
  shows "kernel_ok (erase_entry cid k)"
proof -
  note f = erase_entry_fields [OF e]
  have "unat (active_use_count e) = guard_uses cid k" using ok e by (simp add: kernel_ok_def guards_ok_def)
  then have "guard_uses cid k = 0" using idle by simp
  then have none: "cid \<notin> snd ` set (use_guard_to_capability_id k)"
    by (auto simp: guard_uses_def filter_empty_conv)
  have "caps_ok (erase_entry cid k)" using ok by (auto simp: kernel_ok_def caps_ok_def f)
  moreover have "index_ok (erase_entry cid k)"
    using ok e unfolding kernel_ok_def index_ok_def f by (fastforce split: if_splits)
  moreover have "bindings_ok (erase_entry cid k)"
    unfolding bindings_ok_def
  proof (intro allI impI)
    fix bid b assume "bindings_by_id (erase_entry cid k) bid = Some b"
    from erase_entry_bindings [OF e this]
    have b: "bindings_by_id k bid = Some b" "ent_binding_id e \<noteq> Some bid" by auto
    then obtain e' where "capabilities_by_id k (bind_capability_id b) = Some e'" "ent_binding_id e' = Some bid"
      "same_binding_address (ent_address e') (bind_address b)"
      using ok by (auto simp: kernel_ok_def bindings_ok_def)
    with b(2) e show "\<exists>e'. capabilities_by_id (erase_entry cid k) (bind_capability_id b) = Some e' \<and>
        ent_binding_id e' = Some bid \<and> same_binding_address (ent_address e') (bind_address b)"
      by (auto simp: f)
  qed
  moreover have "guards_ok (erase_entry cid k)"
    using ok none by (auto simp: kernel_ok_def guards_ok_def guard_uses_def f)
  ultimately show ?thesis by (simp add: kernel_ok_def)
qed
section \<open>Every operation keeps the invariant\<close>

lemma validate_ok_local:
  "validate_mint_request rq k = Inr u \<Longrightarrow>
     route_principal_is_local_issuer (route_principal (mint_address rq)) (issuer_daemon_id k)"
  by (auto simp: validate_mint_request_def split: if_splits)

lemma validate_ok_binding:
  "validate_mint_request rq k = Inr u \<Longrightarrow> mint_binding_mode rq = BindingRecord \<Longrightarrow>
     or_else (mint_binding_id rq) (ad_binding_id (mint_address rq)) =
     Some (value_or (or_else (mint_binding_id rq) (ad_binding_id (mint_address rq))) [])"
  by (auto simp: validate_mint_request_def value_or_def or_else_def split: if_splits option.splits)

lemma same_binding_address_refl [simp]: "same_binding_address a (a\<lparr>ad_binding_id := x\<rparr>)"
  by (simp add: same_binding_address_def)

text \<open>Adding an idle entry under a fresh id, before any index names it.\<close>

lemma kernel_ok_add:
  assumes ok: "kernel_ok k" and fresh: "capabilities_by_id k cid = None"
    and e: "cap_id (capability e) = cid" "active_use_count e = 0"
      "route_principal_is_local_issuer (route_principal (ent_address e)) (issuer_daemon_id k)"
  shows "kernel_ok (put_entry cid e k)"
proof -
  have "cid \<notin> snd ` set (use_guard_to_capability_id k)"
    using ok fresh by (auto simp: kernel_ok_def guards_ok_def)
  then have "guard_uses cid k = 0" by (auto simp: guard_uses_def filter_empty_conv)
  then have "guards_ok (put_entry cid e k)"
    using ok e by (auto simp: kernel_ok_def guards_ok_def guard_uses_def put_entry_def)
  moreover have "caps_ok (put_entry cid e k)"
    using ok e by (auto simp: kernel_ok_def caps_ok_def put_entry_def)
  moreover have "index_ok (put_entry cid e k)"
    using ok fresh unfolding kernel_ok_def index_ok_def put_entry_def by fastforce
  moreover have "bindings_ok (put_entry cid e k)"
    using ok fresh unfolding kernel_ok_def bindings_ok_def put_entry_def by fastforce
  ultimately show ?thesis by (simp add: kernel_ok_def)
qed

lemma kernel_ok_index:
  assumes "kernel_ok k" "capabilities_by_id k cid = Some e" "address_index_key (ent_address e) = key"
    "ent_binding_mode e = AddressDerived" "cap_state (capability e) \<noteq> Draining"
  shows "kernel_ok (k\<lparr>address_to_capability_id := (address_to_capability_id k)(key \<mapsto> cid)\<rparr>)"
proof -
  have "index_ok (k\<lparr>address_to_capability_id := (address_to_capability_id k)(key \<mapsto> cid)\<rparr>)"
    using assms unfolding kernel_ok_def index_ok_def by auto
  with assms(1) show ?thesis
    by (simp add: kernel_ok_def caps_ok_def bindings_ok_def guards_ok_def guard_uses_def)
qed

lemma kernel_ok_bind:
  assumes "kernel_ok k" "capabilities_by_id k (bind_capability_id b) = Some e" "ent_binding_id e = Some bid"
    "same_binding_address (ent_address e) (bind_address b)"
  shows "kernel_ok (k\<lparr>bindings_by_id := (bindings_by_id k)(bid \<mapsto> b)\<rparr>)"
proof -
  have "bindings_ok (k\<lparr>bindings_by_id := (bindings_by_id k)(bid \<mapsto> b)\<rparr>)"
    using assms unfolding kernel_ok_def bindings_ok_def by auto
  with assms(1) show ?thesis
    by (simp add: kernel_ok_def caps_ok_def index_ok_def guards_ok_def guard_uses_def)
qed

lemma kernel_ok_mint:
  assumes ok: "kernel_ok k"
  shows "kernel_ok (fst (mint_capability now1 now2 rq k))"
proof (cases "validate_mint_request rq k")
  case (Inr u)
  let ?cid = "mint_capability_id rq" and ?e = "minted_entry now1 now2 rq k"
  show ?thesis
  proof (cases "capabilities_by_id k ?cid")
    case None
    have k1: "kernel_ok (put_entry ?cid ?e k)"
      by (rule kernel_ok_add [OF ok None]) (use validate_ok_local [OF Inr] in \<open>simp_all add: minted_entry_def\<close>)
    have at: "capabilities_by_id (put_entry ?cid ?e k) ?cid = Some ?e" by (simp add: put_entry_def)
    show ?thesis
    proof (cases "mint_binding_mode rq")
      case AddressDerived
      have "kernel_ok ((put_entry ?cid ?e k)\<lparr>address_to_capability_id :=
          (address_to_capability_id (put_entry ?cid ?e k))(address_index_key (mint_address rq) \<mapsto> ?cid)\<rparr>)"
        by (rule kernel_ok_index [OF k1 at]) (use AddressDerived in \<open>simp_all add: minted_entry_def\<close>)
      with AddressDerived Inr None ok show ?thesis
        by (simp add: mint_capability_def Let_def put_entry_def)
    next
      case BindingRecord
      let ?b = "minted_binding now2 rq (value_or (mint_credential_expires_at rq) InfinitePast)"
      have "kernel_ok ((put_entry ?cid ?e k)\<lparr>bindings_by_id :=
          (bindings_by_id (put_entry ?cid ?e k))(bind_id ?b \<mapsto> ?b)\<rparr>)"
        by (rule kernel_ok_bind [OF k1, of _ ?e])
          (use validate_ok_binding [OF Inr BindingRecord] at in
            \<open>simp_all add: minted_entry_def minted_binding_def Let_def\<close>)
      with BindingRecord Inr None ok show ?thesis
        by (simp add: mint_capability_def Let_def put_entry_def)
    qed
  qed (use Inr ok in \<open>simp add: mint_capability_def\<close>)
qed (use ok in \<open>simp add: mint_capability_def\<close>)

lemma upd_binding_fields [simp]:
  "capabilities_by_id (upd_binding bid f k) = capabilities_by_id k"
  "address_to_capability_id (upd_binding bid f k) = address_to_capability_id k"
  "issuer_daemon_id (upd_binding bid f k) = issuer_daemon_id k"
  "use_guard_to_capability_id (upd_binding bid f k) = use_guard_to_capability_id k"
  "next_guard_id (upd_binding bid f k) = next_guard_id k"
  by (simp_all add: upd_binding_def split: option.split)

lemma kernel_ok_renew:
  assumes ok: "kernel_ok k"
  shows "kernel_ok (fst (renew_capability rq k))"
proof (cases "capabilities_by_id k (renew_capability_id rq)")
  case (Some e)
  let ?cid = "renew_capability_id rq"
  define e1 where "e1 = e\<lparr>capability := (capability e)\<lparr>cap_expires_at := renew_capability_expires_at rq\<rparr>\<rparr>"
  define e2 where "e2 = (if cap_state (capability e1) = Expired then set_cap_state Active e1 else e1)"
  have st: "same_standing e e1" "same_standing e1 e2"
    by (auto simp: same_standing_def same_role_def e1_def e2_def set_cap_state_def)
  have k1: "kernel_ok (put_entry ?cid e1 k)" by (rule kernel_ok_put [OF ok Some st(1)])
  have at: "capabilities_by_id (put_entry ?cid e1 k) ?cid = Some e1" by (simp add: put_entry_def)
  have "kernel_ok (put_entry ?cid e2 (put_entry ?cid e1 k))" by (rule kernel_ok_put [OF k1 at st(2)])
  moreover have "kernel_ok (put_entry ?cid e2 (upd_binding bid
      (\<lambda>b. b\<lparr>bind_credential_expires_at := t, bind_state := BindActive\<rparr>) (put_entry ?cid e1 k)))" for bid t
    by (rule kernel_ok_put [OF kernel_ok_upd_binding [OF k1], of _ _ _ e1])
      (use at st(2) in simp_all)
  ultimately show ?thesis
    using Some k1
    by (cases "ent_binding_mode e1"; cases "renew_credential_expires_at rq")
      (simp_all add: renew_capability_def Let_def e1_def [symmetric] e2_def [symmetric])
qed (use ok in \<open>simp add: renew_capability_def\<close>)

lemma kernel_ok_resolve: "kernel_ok k \<Longrightarrow> kernel_ok (fst (resolve_entry_for_credential now cr k))"
  by (auto simp: resolve_entry_for_credential_def Let_def intro!: kernel_ok_upd_binding
      split: LifecycleBindingMode.split option.split)

lemma kernel_ok_expire:
  assumes "kernel_ok k"
  shows "kernel_ok (maybe_expire_entry now cid k)"
proof (cases "capabilities_by_id k cid")
  case (Some e)
  have "kernel_ok (put_entry cid (set_cap_state Expired e) k)"
    by (rule kernel_ok_put [OF assms Some]) (simp add: same_standing_def same_role_def set_cap_state_def)
  with assms Some show ?thesis
    by (simp add: maybe_expire_entry_def Let_def kernel_ok_upd_binding split: option.split)
qed (use assms in \<open>simp add: maybe_expire_entry_def\<close>)

lemma kernel_ok_revoke: "kernel_ok k \<Longrightarrow> kernel_ok (fst (revoke_binding_record bid k))"
  by (simp add: revoke_binding_record_def kernel_ok_upd_binding split: option.split)
section \<open>Use guards\<close>

lemma guard_name_inj: "guard_name a = guard_name b \<longleftrightarrow> a = b"
  by (simp add: guard_name_def str_nat_inj)

lemma guards_bounded:
  assumes "guards_ok k"
  shows "length (use_guard_to_capability_id k) \<le> unat (next_guard_id k)"
proof -
  let ?g = "use_guard_to_capability_id k" and ?n = "next_guard_id k"
  have "card {n. n < ?n} = card (unat ` {n. n < ?n})"
    by (rule card_image [symmetric]) (simp add: inj_on_def)
  also have "\<dots> \<le> card {..<unat ?n}" by (rule card_mono) (auto simp: word_less_nat_alt)
  finally have le: "card {n. n < ?n} \<le> unat ?n" by simp
  have fin: "finite {n. n < ?n}" by simp
  have "length ?g = card (fst ` set ?g)" using assms distinct_card [of "map fst ?g"] by (simp add: guards_ok_def)
  also have "\<dots> \<le> card (guard_name ` {n. n < ?n})"
    using assms fin by (intro card_mono) (auto simp: guards_ok_def)
  also have "\<dots> \<le> card {n. n < ?n}" by (rule card_image_le [OF fin])
  finally show ?thesis using le by linarith
qed

lemma kernel_ok_admit_entry:
  assumes ok: "kernel_ok k" and e: "capabilities_by_id k cid = Some e" and room: "next_guard_id k \<noteq> - 1"
  shows "kernel_ok (fst (admit_entry now cid e k))"
proof -
  let ?g = "guard_name (next_guard_id k)" and ?gs = "use_guard_to_capability_id k"
  define e1 where "e1 = e\<lparr>active_use_count := active_use_count e + 1,
    ent_subject := (ent_subject e)\<lparr>last_observed_at := At now\<rparr>\<rparr>"
  have gok: "guards_ok k" using ok by (simp add: kernel_ok_def)
  have cid: "cap_id (capability e) = cid" using ok e by (simp add: kernel_ok_def caps_ok_def)
  have fresh: "?g \<notin> fst ` set ?gs" using gok by (auto simp: guards_ok_def guard_name_inj)
  have k': "fst (admit_entry now cid e k) = (put_entry cid e1 k)\<lparr>next_guard_id := next_guard_id k + 1,
      use_guard_to_capability_id := ?gs @ [(?g, cid)]\<rparr>"
    using alist_update_fresh [OF fresh] by (simp add: admit_entry_def Let_def cid e1_def)
  have step_up: "unat (next_guard_id k + 1) = Suc (unat (next_guard_id k))"
    using room unatSuc [of "next_guard_id k"] by (metis add.commute eq_neg_iff_add_eq_0)
  have "guard_uses cid k \<le> length ?gs" by (simp add: guard_uses_def)
  moreover have use: "unat (active_use_count e) = guard_uses cid k" using gok e by (simp add: guards_ok_def)
  ultimately have "unat (active_use_count e) < 2 ^ 64 - 1"
    using guards_bounded [OF gok] step_up unat_u64_bound [of "next_guard_id k + 1"] by simp
  then have cnt: "unat (active_use_count e + 1) = Suc (guard_uses cid k)"
    using use by (simp add: unat_word_ariths)
  have names: "fst ` set ?gs \<union> {?g} \<subseteq> guard_name ` {n. n < next_guard_id k + 1}"
    using gok step_up by (auto simp: guards_ok_def word_less_nat_alt)
  have "guards_ok (fst (admit_entry now cid e k))"
    using gok e cnt names fresh unfolding k'
    by (auto simp: guards_ok_def guard_uses_def put_entry_def e1_def)
  moreover have "same_role e e1" by (simp add: same_role_def e1_def)
  with tables_put [OF ok e] have "caps_ok (fst (admit_entry now cid e k))"
    "index_ok (fst (admit_entry now cid e k))" "bindings_ok (fst (admit_entry now cid e k))"
    by (simp_all add: k')
  ultimately show ?thesis by (simp add: kernel_ok_def)
qed

lemma maybe_expire_next [simp]: "next_guard_id (maybe_expire_entry now cid k) = next_guard_id k"
  by (simp add: maybe_expire_entry_def Let_def put_entry_def split: option.split)

lemma resolve_next [simp]: "next_guard_id (fst (resolve_entry_for_credential now cr k)) = next_guard_id k"
  by (simp add: resolve_entry_for_credential_def Let_def split: LifecycleBindingMode.split option.split)

lemma kernel_ok_admit:
  assumes "kernel_ok k" "next_guard_id k \<noteq> - 1"
  shows "kernel_ok (fst (admit_redemption now1 now2 now3 cr k))"
proof -
  obtain k1 r where run: "resolve_entry_for_credential now1 cr k = (k1, r)" by fastforce
  have k1: "kernel_ok k1" "next_guard_id k1 \<noteq> - 1"
    using kernel_ok_resolve [OF assms(1), of now1 cr] resolve_next [of now1 cr k] run assms(2) by simp_all
  show ?thesis
  proof (cases r)
    case (Inr cid)
    let ?k2 = "maybe_expire_entry now2 cid k1"
    have k2: "kernel_ok ?k2" by (rule kernel_ok_expire [OF k1(1)])
    show ?thesis
    proof (cases "capabilities_by_id ?k2 cid")
      case (Some e)
      from kernel_ok_admit_entry [OF k2 Some] k1(2) k2 run Inr Some show ?thesis
        by (simp add: admit_redemption_def Let_def split: sum.split)
    qed (use run Inr k2 in \<open>simp add: admit_redemption_def Let_def\<close>)
  qed (use run k1 in \<open>simp add: admit_redemption_def\<close>)
qed

lemma delete_uses:
  assumes "distinct (map fst gs)" "map_of gs g = Some c"
  shows "length (filter (\<lambda>p. snd p = cid) (AList.delete g gs)) =
    length (filter (\<lambda>p. snd p = cid) gs) - (if c = cid then 1 else 0)"
  using assms
proof (induction gs)
  case (Cons p gs)
  show ?case
  proof (cases "fst p = g")
    case True
    then have "AList.delete g gs = gs" using Cons.prems(1) by (intro delete_id) (auto simp: rev_image_eqI)
    with True Cons.prems(2) show ?thesis by (cases p) auto
  next
    case False
    then have "map_of gs g = Some c" using Cons.prems(2) by (cases p) simp
    then have "c = cid \<Longrightarrow> 0 < length (filter (\<lambda>p. snd p = cid) gs)"
      by (force dest: map_of_SomeD simp: filter_empty_conv)
    with False Cons \<open>map_of gs g = Some c\<close> show ?thesis by (cases p) auto
  qed
qed simp

lemma erase_entry_guards:
  "erase_entry cid (k\<lparr>use_guard_to_capability_id := g\<rparr>) = (erase_entry cid k)\<lparr>use_guard_to_capability_id := g\<rparr>"
  by (simp add: erase_entry_def split: option.split)

lemma kernel_ok_release_guard:
  assumes ok: "kernel_ok k"
  shows "kernel_ok (fst (release_use_guard g k))"
proof (cases "map_of (use_guard_to_capability_id k) (guard_id g)")
  case (Some cid)
  let ?gs = "use_guard_to_capability_id k"
  have gok: "guards_ok k" using ok by (simp add: kernel_ok_def)
  have "(guard_id g, cid) \<in> set ?gs" using Some by (rule map_of_SomeD)
  then obtain e where e: "capabilities_by_id k cid = Some e"
    using gok unfolding guards_ok_def by (metis domD image_eqI snd_conv subsetD)
  have use: "unat (active_use_count e) = guard_uses cid k" using gok e by (simp add: guards_ok_def)
  moreover have "0 < guard_uses cid k"
    using \<open>(guard_id g, cid) \<in> set ?gs\<close> by (force simp: guard_uses_def filter_empty_conv)
  ultimately have pos: "0 < active_use_count e" by (simp add: word_gt_0 unat_gt_0 [symmetric])
  define e1 where "e1 = e\<lparr>active_use_count := active_use_count e - 1\<rparr>"
  define k1 where "k1 = (put_entry cid e1 k)\<lparr>use_guard_to_capability_id := AList.delete (guard_id g) ?gs\<rparr>"
  have "unat (active_use_count e - 1) = unat (active_use_count e) - 1"
    using pos by (simp add: unat_minus_one word_gt_0)
  moreover have "fst ` set (AList.delete (guard_id g) ?gs) \<subseteq> guard_name ` {n. n < next_guard_id k}"
    "snd ` set (AList.delete (guard_id g) ?gs) \<subseteq> dom (capabilities_by_id k)"
    using gok image_mono [OF alist_delete_subset [of "guard_id g" ?gs]] unfolding guards_ok_def
    by (meson subset_trans)+
  moreover have "length (filter (\<lambda>p. snd p = c) (AList.delete (guard_id g) ?gs)) =
      guard_uses c k - (if cid = c then 1 else 0)" for c
    using delete_uses [OF _ Some] gok by (simp add: guards_ok_def guard_uses_def)
  ultimately have "guards_ok k1"
    using gok e use by (auto simp: guards_ok_def guard_uses_def k1_def put_entry_def e1_def distinct_delete)
  moreover have "same_role e e1" by (simp add: same_role_def e1_def)
  with tables_put [OF ok e] have "caps_ok k1" "index_ok k1" "bindings_ok k1" by (simp_all add: k1_def)
  ultimately have k1: "kernel_ok k1" by (simp add: kernel_ok_def)
  have at: "capabilities_by_id k1 cid = Some e1" by (simp add: k1_def put_entry_def)
  have cid: "cap_id (capability e1) = cid" using ok e by (simp add: kernel_ok_def caps_ok_def e1_def)
  have "fst (release_use_guard g k) =
      (if active_use_count e1 = 0 \<and> winding_down (cap_state (capability e1)) then erase_entry cid k1 else k1)"
    using Some e pos cid
    by (auto simp: release_use_guard_def drop_use_def Let_def e1_def [symmetric] k1_def erase_entry_guards
        erase_entry_fields(4) put_entry_def)
  then show ?thesis using kernel_ok_erase [OF k1 at] k1 by simp
qed (use ok in \<open>simp add: release_use_guard_def\<close>)
section \<open>Releasing\<close>

lemma kernel_ok_drain:
  assumes ok: "kernel_ok k" and e: "capabilities_by_id k cid = Some e"
  shows "kernel_ok ((put_entry cid (set_cap_state Draining e) k)
    \<lparr>address_to_capability_id := (address_to_capability_id k)(address_index_key (ent_address e) := None)\<rparr>)"
proof -
  define k1 where "k1 = (put_entry cid (set_cap_state Draining e) k)
    \<lparr>address_to_capability_id := (address_to_capability_id k)(address_index_key (ent_address e) := None)\<rparr>"
  have a: "address_to_capability_id k1 = (address_to_capability_id k)(address_index_key (ent_address e) := None)"
    by (simp add: k1_def)
  have f: "capabilities_by_id k1 = (capabilities_by_id k)(cid \<mapsto> set_cap_state Draining e)"
    "bindings_by_id k1 = bindings_by_id k" "issuer_daemon_id k1 = issuer_daemon_id k"
    "use_guard_to_capability_id k1 = use_guard_to_capability_id k" "next_guard_id k1 = next_guard_id k"
    by (simp_all add: k1_def put_entry_def)
  have "caps_ok k1" using ok e by (auto simp: kernel_ok_def caps_ok_def f set_cap_state_def)
  moreover have "guards_ok k1"
    using ok e by (auto simp: kernel_ok_def guards_ok_def guard_uses_def f set_cap_state_def)
  moreover have "index_ok k1"
    unfolding index_ok_def
  proof (intro allI impI)
    fix key c assume "address_to_capability_id k1 key = Some c"
    then have b: "address_to_capability_id k key = Some c" "key \<noteq> address_index_key (ent_address e)"
      by (auto simp: a split: if_splits)
    with ok obtain e0 where e0: "capabilities_by_id k c = Some e0" "address_index_key (ent_address e0) = key"
      "ent_binding_mode e0 = AddressDerived" "cap_state (capability e0) \<noteq> Draining"
      unfolding kernel_ok_def index_ok_def by blast
    with b(2) e have "c \<noteq> cid" by auto
    with e0 show "\<exists>e. capabilities_by_id k1 c = Some e \<and> address_index_key (ent_address e) = key \<and>
        ent_binding_mode e = AddressDerived \<and> cap_state (capability e) \<noteq> Draining" by (simp add: f)
  qed
  moreover have "bindings_ok k1"
    unfolding bindings_ok_def
  proof (intro allI impI)
    fix bid b assume "bindings_by_id k1 bid = Some b"
    with ok obtain e0 where "capabilities_by_id k (bind_capability_id b) = Some e0" "ent_binding_id e0 = Some bid"
      "same_binding_address (ent_address e0) (bind_address b)"
      unfolding kernel_ok_def bindings_ok_def f by blast
    with e show "\<exists>e. capabilities_by_id k1 (bind_capability_id b) = Some e \<and>
        ent_binding_id e = Some bid \<and> same_binding_address (ent_address e) (bind_address b)"
      by (cases "bind_capability_id b = cid") (auto simp: f set_cap_state_def)
  qed
  ultimately have "kernel_ok k1" by (simp add: kernel_ok_def)
  then show ?thesis by (simp add: k1_def)
qed

text \<open>The released state: drained, and erased when idle.\<close>

definition drained :: "string \<Rightarrow> CapabilityEntry \<Rightarrow> LifecycleKernel \<Rightarrow> LifecycleKernel" where
  "drained cid e k =
     (let k1 = (put_entry cid (set_cap_state Draining e) k)\<lparr>address_to_capability_id :=
                 (address_to_capability_id k)(address_index_key (ent_address e) := None)\<rparr>
      in case ent_binding_id e of
           None \<Rightarrow> k1
         | Some b \<Rightarrow> upd_binding b (\<lambda>b. b\<lparr>bind_state := BindRevoked\<rparr>) k1)"

lemma upd_binding_index:
  "(upd_binding b f k)\<lparr>address_to_capability_id := A\<rparr> = upd_binding b f (k\<lparr>address_to_capability_id := A\<rparr>)"
  by (simp add: upd_binding_def split: option.split)

lemma release_eq:
  assumes "capabilities_by_id k cid = Some e"
  shows "release_capability cid k =
    (if active_use_count e = 0 then erase_entry cid (drained cid e k) else drained cid e k, ok_status)"
  using assms
  by (auto simp: release_capability_def drained_def Let_def upd_binding_index put_entry_def split: option.split)

lemma drained_ok: "kernel_ok k \<Longrightarrow> capabilities_by_id k cid = Some e \<Longrightarrow> kernel_ok (drained cid e k)"
  using kernel_ok_drain [of k cid e]
  by (simp add: drained_def Let_def kernel_ok_upd_binding split: option.split)

lemma drained_entry: "capabilities_by_id (drained cid e k) cid = Some (set_cap_state Draining e)"
  by (simp add: drained_def Let_def put_entry_def split: option.split)

lemma kernel_ok_release:
  assumes "kernel_ok k"
  shows "kernel_ok (fst (release_capability cid k))"
proof (cases "capabilities_by_id k cid")
  case (Some e)
  from kernel_ok_erase [OF drained_ok [OF assms Some] drained_entry] drained_ok [OF assms Some]
  show ?thesis by (simp add: release_eq [OF Some] set_cap_state_def)
qed (use assms in \<open>simp add: release_capability_def\<close>)

lemma released_entry:
  assumes "capabilities_by_id (fst (release_capability cid k)) cid = Some e"
  shows "cap_state (capability e) = Draining"
proof (cases "capabilities_by_id k cid")
  case (Some e0)
  with assms drained_entry [of cid e0 k] show ?thesis
    by (auto simp: release_eq [OF Some] erase_entry_def set_cap_state_def split: if_splits option.splits)
qed (use assms in \<open>simp add: release_capability_def\<close>)

section \<open>Reachable kernels\<close>

text \<open>
  Any operation with any arguments. The guard counter has 64 bits; runs with fewer than
  \<open>2 ^ 64 - 1\<close> admissions are considered, so it does not wrap.
\<close>

inductive kernel_step :: "LifecycleKernel \<Rightarrow> LifecycleKernel \<Rightarrow> bool" where
  step_mint: "kernel_step k (fst (mint_capability now1 now2 rq k))"
| step_renew: "kernel_step k (fst (renew_capability rq' k))"
| step_admit: "next_guard_id k \<noteq> - 1 \<Longrightarrow> kernel_step k (fst (admit_redemption now1 now2 now3 cr k))"
| step_release_guard: "kernel_step k (fst (release_use_guard g k))"
| step_revoke: "kernel_step k (fst (revoke_binding_record bid k))"
| step_release_capability: "kernel_step k (fst (release_capability cid k))"

inductive kernel_reachable :: "LifecycleKernel \<Rightarrow> bool" where
  kernel_start: "kernel_reachable (new_kernel issuer)"
| kernel_next: "kernel_reachable k \<Longrightarrow> kernel_step k k' \<Longrightarrow> kernel_reachable k'"

lemma kernel_step_ok: "kernel_step k k' \<Longrightarrow> kernel_ok k \<Longrightarrow> kernel_ok k'"
  by (induction rule: kernel_step.induct)
    (auto intro: kernel_ok_mint kernel_ok_renew kernel_ok_admit kernel_ok_release_guard kernel_ok_revoke
      kernel_ok_release)

lemma kernel_reachable_ok: "kernel_reachable k \<Longrightarrow> kernel_ok k"
  by (induction rule: kernel_reachable.induct) (auto intro: kernel_ok_new kernel_step_ok)

section \<open>Properties\<close>

text \<open>
  C30. The text key of the address index identifies the address: two addresses of the same
  issuer have the same key exactly when they agree in family, space, key kind and binding
  key, whatever separators the issuer id or the binding key contain.
\<close>

theorem address_keys_exact:
  assumes "route_principal_is_local_issuer (route_principal a) issuer"
    and "route_principal_is_local_issuer (route_principal b) issuer"
  shows "address_index_key a = address_index_key b \<longleftrightarrow>
    ad_family a = ad_family b \<and> ad_binding_space a = ad_binding_space b \<and>
    ad_binding_key_kind a = ad_binding_key_kind b \<and> ad_binding_key a = ad_binding_key b"
  using address_index_key_local [OF assms] by (simp add: same_binding_address_def)

text \<open>
  C28. In every reachable kernel the use count of each capability is the number of its
  outstanding use guards, and every outstanding guard belongs to a capability that still
  exists: no capability is dropped while in use.
\<close>

theorem use_guards_counted:
  assumes "kernel_reachable k"
  shows "(case capabilities_by_id k cid of
      None \<Rightarrow> guard_uses cid k = 0
    | Some e \<Rightarrow> unat (active_use_count e) = guard_uses cid k)"
proof -
  have g: "guards_ok k" using kernel_reachable_ok [OF assms] by (simp add: kernel_ok_def)
  show ?thesis
  proof (cases "capabilities_by_id k cid")
    case None
    with g have "cid \<notin> snd ` set (use_guard_to_capability_id k)" by (auto simp: guards_ok_def)
    with None show ?thesis by (auto simp: guard_uses_def filter_empty_conv)
  qed (use g in \<open>simp add: guards_ok_def\<close>)
qed

text \<open>The capability a credential names at a time.\<close>

definition credential_names :: "int \<Rightarrow> ParsedCredential \<Rightarrow> LifecycleKernel \<Rightarrow> string \<Rightarrow> bool" where
  "credential_names now cr k cid \<longleftrightarrow>
     route_principal_is_local_issuer (route_principal (cred_address cr)) (issuer_daemon_id k) \<and>
     capabilities_by_id k cid \<noteq> None \<and>
     (case cred_binding_mode cr of
        AddressDerived \<Rightarrow> address_to_capability_id k (address_index_key (cred_address cr)) = Some cid
      | BindingRecord \<Rightarrow>
          value_or (ad_binding_id (cred_address cr)) [] \<noteq> [] \<and>
          (case bindings_by_id k (value_or (ad_binding_id (cred_address cr)) []) of
             None \<Rightarrow> False
           | Some b \<Rightarrow> same_binding_address (bind_address b) (cred_address cr) \<and> bind_state b \<noteq> BindRevoked \<and>
               \<not> time_le (bind_credential_expires_at b) (At now) \<and> bind_capability_id b = cid))"

lemma resolve_iff: "snd (resolve_entry_for_credential now cr k) = Inr cid \<longleftrightarrow> credential_names now cr k cid"
  by (auto simp: resolve_entry_for_credential_def credential_names_def Let_def
      split: LifecycleBindingMode.split option.split)

lemma resolve_ok_state: "snd (resolve_entry_for_credential now cr k) = Inr cid \<Longrightarrow>
    fst (resolve_entry_for_credential now cr k) = k"
  by (auto simp: resolve_entry_for_credential_def Let_def split: LifecycleBindingMode.splits option.splits if_splits)

text \<open>The conditions under which a resolved entry is admitted.\<close>

definition redeemable :: "int \<Rightarrow> ParsedCredential \<Rightarrow> CapabilityEntry \<Rightarrow> bool" where
  "redeemable now cr e \<longleftrightarrow> cap_state (capability e) = Active \<and>
     \<not> time_le (cap_expires_at (capability e)) (At now) \<and>
     cap_epochs (capability e) = ad_epochs (cred_address cr) \<and>
     is_ok (validate_constraint_claims (cap_constraint_claims (capability e)) (cred_constraint_claims cr))"

lemma expire_entry_at:
  "capabilities_by_id k cid = Some e \<Longrightarrow> capabilities_by_id (maybe_expire_entry now cid k) cid =
     Some (if time_le (cap_expires_at (capability e)) (At now) then set_cap_state Expired e else e)"
  by (simp add: maybe_expire_entry_def Let_def put_entry_def split: option.split)

lemma admit_none:
  assumes "\<nexists>cid. credential_names now1 cr k cid"
  shows "\<not> is_ok (snd (admit_redemption now1 now2 now3 cr k))"
proof -
  obtain k1 r where run: "resolve_entry_for_credential now1 cr k = (k1, r)" by fastforce
  with resolve_iff [of now1 cr k] assms have "\<nexists>cid. r = Inr cid" by simp
  then obtain e where "r = Inl e" by (cases r) auto
  with run show ?thesis by (simp add: admit_redemption_def)
qed

lemma credential_entry:
  assumes "credential_names now cr k cid"
  obtains e where "capabilities_by_id k cid = Some e"
  using assms by (auto simp: credential_names_def)

lemma admit_named:
  assumes "credential_names now1 cr k cid" and e: "capabilities_by_id k cid = Some e"
  shows "admit_redemption now1 now2 now3 cr k =
    (let k2 = maybe_expire_entry now2 cid k;
         e2 = (if time_le (cap_expires_at (capability e)) (At now2) then set_cap_state Expired e else e)
     in if cap_state (capability e2) \<noteq> Active
        then (k2, Inl (Err FailedPrecondition ''capability is not active''))
        else if cap_epochs (capability e2) \<noteq> ad_epochs (cred_address cr)
        then (k2, Inl (Err FailedPrecondition ''credential epoch mismatch''))
        else case validate_constraint_claims (cap_constraint_claims (capability e2)) (cred_constraint_claims cr) of
          Inl err \<Rightarrow> (k2, Inl err)
        | Inr _ \<Rightarrow> map_prod id Inr (admit_entry now3 cid e2 k2))"
proof -
  have r: "snd (resolve_entry_for_credential now1 cr k) = Inr cid" using assms(1) by (simp add: resolve_iff)
  with resolve_ok_state [OF r] have "resolve_entry_for_credential now1 cr k = (k, Inr cid)"
    by (metis prod.collapse)
  then show ?thesis using expire_entry_at [OF e, of now2] by (simp add: admit_redemption_def Let_def)
qed

lemma admit_iff:
  assumes "credential_names now1 cr k cid" "capabilities_by_id k cid = Some e"
  shows "is_ok (snd (admit_redemption now1 now2 now3 cr k)) \<longleftrightarrow> redeemable now2 cr e"
  unfolding admit_named [OF assms] redeemable_def
  by (auto simp: Let_def set_cap_state_def split: sum.split)

lemma admitted_use:
  assumes "credential_names now1 cr k cid" "capabilities_by_id k cid = Some e"
    and "snd (admit_redemption now1 now2 now3 cr k) = Inr u"
  shows "use_capability u = capability e" "guard_capability_id (use_guard u) = cap_id (capability e)"
  using assms(3) unfolding admit_named [OF assms(1,2)]
  by (auto simp: Let_def set_cap_state_def admit_entry_def split: sum.splits if_splits)

lemma named_address:
  assumes ok: "kernel_ok k" and n: "credential_names now cr k cid" and e: "capabilities_by_id k cid = Some e"
  shows "same_binding_address (ent_address e) (cred_address cr)"
proof (cases "cred_binding_mode cr")
  case AddressDerived
  with n have "address_to_capability_id k (address_index_key (cred_address cr)) = Some cid"
    by (simp add: credential_names_def)
  with ok e have "address_index_key (ent_address e) = address_index_key (cred_address cr)"
    unfolding kernel_ok_def index_ok_def by fastforce
  moreover have "route_principal_is_local_issuer (route_principal (ent_address e)) (issuer_daemon_id k)"
    "route_principal_is_local_issuer (route_principal (cred_address cr)) (issuer_daemon_id k)"
    using ok e n by (auto simp: kernel_ok_def caps_ok_def credential_names_def)
  ultimately show ?thesis using address_index_key_local by blast
next
  case BindingRecord
  with n obtain bid b where b: "bindings_by_id k bid = Some b" "bind_capability_id b = cid"
    "same_binding_address (bind_address b) (cred_address cr)"
    by (auto simp: credential_names_def split: option.splits)
  with ok e have "same_binding_address (ent_address e) (bind_address b)"
    unfolding kernel_ok_def bindings_ok_def by fastforce
  with b(3) show ?thesis by (simp add: same_binding_address_def)
qed

text \<open>
  C27. In a reachable kernel a redemption is admitted to a capability exactly when the
  credential names it (through the address index, or through a binding that is neither
  revoked nor expired and has the credential's address) and the capability is active,
  unexpired, of the same epochs and compatible with the credential's claims. The capability
  admitted then stands for the address the credential carries.
\<close>

theorem redemption_exact:
  assumes "kernel_reachable k"
  shows "((\<exists>u. snd (admit_redemption now1 now2 now3 cr k) = Inr u \<and> cap_id (use_capability u) = cid) \<longleftrightarrow>
      (\<exists>e. credential_names now1 cr k cid \<and> capabilities_by_id k cid = Some e \<and> redeemable now2 cr e)) \<and>
    (\<forall>e. credential_names now1 cr k cid \<longrightarrow> capabilities_by_id k cid = Some e \<longrightarrow>
       same_binding_address (ent_address e) (cred_address cr))"
proof -
  have ok: "kernel_ok k" by (rule kernel_reachable_ok [OF assms])
  have "\<exists>e. credential_names now1 cr k cid \<and> capabilities_by_id k cid = Some e \<and> redeemable now2 cr e"
    if u: "snd (admit_redemption now1 now2 now3 cr k) = Inr u" "cap_id (use_capability u) = cid" for u
  proof -
    obtain c where c: "credential_names now1 cr k c" using admit_none [of now1 cr k now2 now3] u by auto
    obtain e where e: "capabilities_by_id k c = Some e" by (rule credential_entry [OF c])
    have "c = cid" using admitted_use [OF c e u(1)] u(2) ok e by (auto simp: kernel_ok_def caps_ok_def)
    with c e admit_iff [OF c e, of now2 now3] u show ?thesis by auto
  qed
  moreover have "\<exists>u. snd (admit_redemption now1 now2 now3 cr k) = Inr u \<and> cap_id (use_capability u) = cid"
    if e: "credential_names now1 cr k cid" "capabilities_by_id k cid = Some e" "redeemable now2 cr e" for e
  proof -
    obtain u where u: "snd (admit_redemption now1 now2 now3 cr k) = Inr u"
      using admit_iff [OF e(1,2), of now2 now3] e(3)
      by (cases "snd (admit_redemption now1 now2 now3 cr k)") auto
    with admitted_use [OF e(1,2) u] ok e(2) show ?thesis by (auto simp: kernel_ok_def caps_ok_def)
  qed
  ultimately show ?thesis using named_address [OF ok] by blast
qed

section \<open>After a release\<close>

text \<open>Calls of the kernel as data, and the calls that can give a released capability new life.\<close>

datatype kernel_event =
  EvMint int int MintCapabilityRequest
| EvRenew RenewCapabilityRequest
| EvAdmit int int int ParsedCredential
| EvReleaseGuard LifecycleUseGuard
| EvRevoke string
| EvRelease string

primrec kernel_call :: "kernel_event \<Rightarrow> LifecycleKernel \<Rightarrow> LifecycleKernel" where
  "kernel_call (EvMint now1 now2 rq) k = fst (mint_capability now1 now2 rq k)"
| "kernel_call (EvRenew rq) k = fst (renew_capability rq k)"
| "kernel_call (EvAdmit now1 now2 now3 cr) k = fst (admit_redemption now1 now2 now3 cr k)"
| "kernel_call (EvReleaseGuard g) k = fst (release_use_guard g k)"
| "kernel_call (EvRevoke bid) k = fst (revoke_binding_record bid k)"
| "kernel_call (EvRelease cid) k = fst (release_capability cid k)"

















section \<open>A concrete kernel\<close>

text \<open>One payload address on the daemon \<open>d\<close> and two capabilities minted for it in turn.\<close>

definition ex_epochs :: LifecycleEpochs where
  "ex_epochs = \<lparr>subject_generation = 1, fencing_context = None\<rparr>"

definition ex_address :: CapabilityBindingAddress where
  "ex_address = \<lparr>route_principal = \<lparr>route_principal_kind = RouteIssuerDaemon, route_principal_id = ''d''\<rparr>,
     ad_family = FamServe, ad_binding_space = SpPayload, ad_binding_key_kind = KkPayloadId,
     ad_binding_key = ''p'', ad_epochs = ex_epochs, ad_binding_id = None\<rparr>"

definition ex_claims :: ConstraintClaims where
  "ex_claims = \<lparr>cl_artifact_id = [], cl_digest_alg = [], cl_digest_hex = [], cl_direction = [],
     cl_operation_id = [], cl_holder_scope = [], cl_local_only = False\<rparr>"

definition ex_mint :: "string \<Rightarrow> MintCapabilityRequest" where
  "ex_mint cid = \<lparr>mint_subject = \<lparr>subject_id = ''s'', sub_epochs = ex_epochs, subject_kind = SubBacking,
       created_at = InfinitePast, last_observed_at = InfinitePast, sub_artifact_id = None,
       verified_content_descriptor = None, semantic_ref_id = None, sub_workflow_companion = None,
       caller_visible = False\<rparr>,
     mint_address = ex_address, mint_front_door_kind = FdPayloadRef, mint_capability_id = cid,
     mint_lease_id = 0, mint_lease_generation = None, mint_capability_expires_at = InfiniteFuture,
     mint_carriage_kind = SelfDescribing, mint_binding_mode = AddressDerived,
     mint_constraint_claims = ex_claims, mint_credential_expires_at = None, mint_binding_id = None,
     mint_workflow_companion = None, mint_holder_scope = None, mint_resolution_hints = None,
     mint_direction = None, mint_local_only = False, mint_workflow_gate = GateNone,
     mint_binding_fencing_context = None\<rparr>"

definition ex_cred :: ParsedCredential where
  "ex_cred = \<lparr>cred_address = ex_address, cred_front_door_kind = FdPayloadRef, cred_expires_at = InfiniteFuture,
     cred_carriage_kind = SelfDescribing, cred_binding_mode = AddressDerived, cred_constraint_claims = ex_claims\<rparr>"

definition ex_minted :: LifecycleKernel where
  "ex_minted = fst (mint_capability 0 0 (ex_mint ''c1'') (new_kernel ''d''))"

definition ex_in_use :: LifecycleKernel where
  "ex_in_use = fst (admit_redemption 1 1 1 ex_cred ex_minted)"

definition ex_succeeded :: LifecycleKernel where
  "ex_succeeded = fst (mint_capability 2 2 (ex_mint ''c2'') (fst (release_capability ''c1'' ex_in_use)))"



lemma ex_minted_reachable: "kernel_reachable ex_minted"
  unfolding ex_minted_def by (rule kernel_next [OF kernel_start step_mint])

lemma ex_in_use_reachable: "kernel_reachable ex_in_use"
proof -
  have "next_guard_id ex_minted \<noteq> - 1" by code_simp
  then show ?thesis unfolding ex_in_use_def by (rule kernel_next [OF ex_minted_reachable step_admit])
qed

lemma ex_succeeded_reachable: "kernel_reachable ex_succeeded"
  unfolding ex_succeeded_def
  by (rule kernel_next [OF kernel_next [OF ex_in_use_reachable step_release_capability] step_mint])


section \<open>Witnesses\<close>

theorem address_keys_exact_witness:
  "address_index_key ex_address \<noteq> address_index_key (ex_address\<lparr>ad_binding_key := ''q''\<rparr>)"
  using address_keys_exact [of ex_address "''d''" "ex_address\<lparr>ad_binding_key := ''q''\<rparr>"]
  by (simp add: ex_address_def route_principal_is_local_issuer_def)

theorem use_guards_counted_witness:
  "map_option active_use_count (capabilities_by_id ex_in_use ''c1'') = Some 1 \<and> guard_uses ''c1'' ex_in_use = 1"
proof -
  have "map_option active_use_count (capabilities_by_id ex_in_use ''c1'') = Some 1" by code_simp
  with use_guards_counted [OF ex_in_use_reachable, of "''c1''"] show ?thesis by (auto split: option.splits)
qed

theorem redemption_exact_witness:
  "\<exists>u. snd (admit_redemption 1 1 1 ex_cred ex_minted) = Inr u \<and> cap_id (use_capability u) = ''c1''"
proof -
  have "credential_names 1 ex_cred ex_minted ''c1''" by code_simp
  moreover have "capabilities_by_id ex_minted ''c1'' \<noteq> None \<and>
      redeemable 1 ex_cred (the (capabilities_by_id ex_minted ''c1''))" by code_simp
  ultimately show ?thesis using redemption_exact [OF ex_minted_reachable, of 1 1 1 ex_cred "''c1''"] by auto
qed


section \<open>Observed behaviour\<close>

text \<open>
  Ending the last use of a drained capability clears the address index by key, so it also
  removes the entry of a capability that was minted for the same address in the meantime:
  the successor stays active and can no longer be redeemed.
\<close>

lemma drained_predecessor_unindexes_successor:
  "is_ok (snd (admit_redemption 3 3 3 ex_cred ex_succeeded)) \<and>
   \<not> is_ok (snd (admit_redemption 3 3 3 ex_cred (fst (release_use_guard \<lparr>guard_id = ''lkg-1'', guard_capability_id = ''c1''\<rparr> ex_succeeded))))"
  by code_simp

text \<open>Renewal makes a revoked binding active again.\<close>

lemma renew_revives_revoked_binding:
  assumes "capabilities_by_id k cid = Some e" "ent_binding_mode e = BindingRecord" "ent_binding_id e = Some bid"
    and "bindings_by_id k bid = Some b" "bind_state b = BindRevoked"
  shows "map_option bind_state (bindings_by_id (fst (renew_capability
    \<lparr>renew_capability_id = cid, renew_capability_expires_at = t, renew_credential_expires_at = Some t,
     renew_binding_id = None\<rparr> k)) bid) = Some BindActive"
  using assms by (simp add: renew_capability_def Let_def or_else_def value_or_def put_entry_def upd_binding_def)

text \<open>
  Renewal also reopens a capability that was released while in use: renewing it makes its
  binding active again, a redemption after the new expiry turns \<open>Draining\<close> into \<open>Expired\<close>, and a
  second renewal turns \<open>Expired\<close> into \<open>Active\<close>.
\<close>

definition ex_bound_address :: CapabilityBindingAddress where
  "ex_bound_address = ex_address\<lparr>ad_binding_id := Some ''b''\<rparr>"

definition ex_bound_cred :: ParsedCredential where
  "ex_bound_cred = ex_cred\<lparr>cred_address := ex_bound_address, cred_binding_mode := BindingRecord\<rparr>"

definition ex_renew :: "int \<Rightarrow> kernel_event" where
  "ex_renew t = EvRenew \<lparr>renew_capability_id = ''c1'', renew_capability_expires_at = At t,
     renew_credential_expires_at = Some InfiniteFuture, renew_binding_id = None\<rparr>"

definition ex_released_in_use :: LifecycleKernel where
  "ex_released_in_use = fold kernel_call
     [EvMint 0 0 ((ex_mint ''c1'')\<lparr>mint_address := ex_bound_address, mint_binding_mode := BindingRecord,
        mint_credential_expires_at := Some InfiniteFuture\<rparr>),
      EvAdmit 1 1 1 ex_bound_cred, EvRelease ''c1''] (new_kernel ''d'')"

lemma renewal_reopens_released:
  "\<not> is_ok (snd (admit_redemption 2 2 2 ex_bound_cred ex_released_in_use)) \<and>
   is_ok (snd (admit_redemption 6 6 6 ex_bound_cred
     (fold kernel_call [ex_renew 4, EvAdmit 5 5 5 ex_bound_cred, ex_renew 9] ex_released_in_use)))"
  by code_simp

end
