(* ===== verification/Sources_Sinks.thy ===== *)
theory Sources_Sinks
  imports UMA_Sessions
begin

text \<open>
  The endpoints of the data plane
  (\<open>core/store/materialization/dataplane/{contracts,sources,sinks}\<close>): seekable sources that
  read a byte range and positioned sinks that write one. The two interfaces are locales; the
  host memory source, the device memory source and the source with a fallback provide the
  first, the sink over a target layout in host memory provides the second. The lemmas show that
  a write reaches exactly the bytes of its range, however the target is cut into storages, and
  that the windows of a direct-write grant name the same bytes as \<open>write_at\<close>.
\<close>

section \<open>Memory\<close>

text \<open>Process memory as a function of addresses; \<open>memcpy\<close> reads and writes runs of it.\<close>

type_synonym memory = "nat \<Rightarrow> u8"

definition mem_read :: "memory \<Rightarrow> nat \<Rightarrow> nat \<Rightarrow> u8 list" where
  "mem_read mem a n = map mem [a..<a + n]"

definition mem_write :: "memory \<Rightarrow> nat \<Rightarrow> u8 list \<Rightarrow> memory" where
  "mem_write mem a bs = (\<lambda>x. if a \<le> x \<and> x < a + length bs then bs ! (x - a) else mem x)"

lemma length_mem_read [simp]: "length (mem_read mem a n) = n"
  by (simp add: mem_read_def)

lemma mem_write_Nil [simp]: "mem_write mem a [] = mem"
  by (rule ext) (auto simp: mem_write_def)

lemma mem_write_in: "i < length bs \<Longrightarrow> mem_write mem a bs (a + i) = bs ! i"
  by (simp add: mem_write_def)

section \<open>Interfaces\<close>

text \<open>
  A seekable source has a size and a \<open>read_at\<close>. What a read returns is a run of the source's
  bytes, possibly a short one; a source that is complete also returns all the bytes of every
  range it contains.
\<close>

record SeekableSource =
  src_total :: u64
  src_read_at :: "u64 \<Rightarrow> u64 \<Rightarrow> u8 list status_or"

locale prefix_source =
  fixes src :: SeekableSource
    and content :: "nat \<Rightarrow> u8"
  assumes read_prefix: "src_read_at src off n = Inr bs \<Longrightarrow>
    length bs \<le> unat n \<and> bs = map content [unat off..<unat off + length bs]"

locale seekable_source = prefix_source +
  assumes read_exact: "unat off + unat n \<le> unat (src_total src) \<Longrightarrow>
    src_read_at src off n = Inr (map content [unat off..<unat off + unat n])"

locale positioned_sink =
  fixes write_at :: "'s \<Rightarrow> u64 \<Rightarrow> u8 list \<Rightarrow> 's \<times> status"
    and sink_size :: "'s \<Rightarrow> u64"
    and sink_byte :: "'s \<Rightarrow> nat \<Rightarrow> u8"
    and healthy :: "'s \<Rightarrow> bool"
  assumes write_in_range: "healthy s \<Longrightarrow> unat off + length bs \<le> unat (sink_size s) \<Longrightarrow>
    \<exists>s'. write_at s off bs = (s', ok_status) \<and> healthy s' \<and> sink_size s' = sink_size s \<and>
      (\<forall>d < unat (sink_size s). sink_byte s' d =
        (if unat off \<le> d \<and> d < unat off + length bs then bs ! (d - unat off) else sink_byte s d))"

section \<open>Memory sources\<close>

record MemorySource =
  ms_base_ptr :: u64
  ms_total_size :: u64
  ms_current_offset :: u64

definition cpu_read_at :: "memory \<Rightarrow> MemorySource \<Rightarrow> u64 \<Rightarrow> u64 \<Rightarrow> u8 list status_or" where
  "cpu_read_at mem s off bytes =
     (if ms_total_size s \<le> off \<or> bytes = 0 then Inr []
      else let to_copy = min bytes (ms_total_size s - off)
           in Inr (mem_read mem (unat (ms_base_ptr s) + unat off) (unat to_copy)))"

definition cpu_read :: "memory \<Rightarrow> MemorySource \<Rightarrow> u64 \<Rightarrow> MemorySource \<times> u8 list status_or" where
  "cpu_read mem s max_bytes =
     (case cpu_read_at mem s (ms_current_offset s) max_bytes of
        Inl e \<Rightarrow> (s, Inl e)
      | Inr bs \<Rightarrow> (s\<lparr>ms_current_offset := ms_current_offset s + of_nat (length bs)\<rparr>, Inr bs))"

definition cpu_source :: "memory \<Rightarrow> MemorySource \<Rightarrow> SeekableSource" where
  "cpu_source mem s = \<lparr>src_total = ms_total_size s, src_read_at = cpu_read_at mem s\<rparr>"

text \<open>
  The device source copies through three driver calls, whose results are arguments; device
  memory is a memory of its own.
\<close>

record cuda_results =
  set_device_result :: status
  memcpy_result :: status
  synchronize_result :: status

definition gpu_read_at :: "cuda_results \<Rightarrow> memory \<Rightarrow> MemorySource \<Rightarrow> u64 \<Rightarrow> u64 \<Rightarrow> u8 list status_or" where
  "gpu_read_at cr mem s off bytes =
     (if ms_total_size s \<le> off \<or> bytes = 0 then Inr []
      else let to_copy = min bytes (ms_total_size s - off)
           in case set_device_result cr of
                Inl e \<Rightarrow> Inl e
              | Inr _ \<Rightarrow>
                (case memcpy_result cr of
                   Inl e \<Rightarrow> Inl e
                 | Inr _ \<Rightarrow>
                   (case synchronize_result cr of
                      Inl e \<Rightarrow> Inl e
                    | Inr _ \<Rightarrow> Inr (mem_read mem (unat (ms_base_ptr s) + unat off) (unat to_copy)))))"

definition gpu_source :: "cuda_results \<Rightarrow> memory \<Rightarrow> MemorySource \<Rightarrow> SeekableSource" where
  "gpu_source cr mem s = \<lparr>src_total = ms_total_size s, src_read_at = gpu_read_at cr mem s\<rparr>"

definition gpu_read :: "cuda_results \<Rightarrow> memory \<Rightarrow> MemorySource \<Rightarrow> u64 \<Rightarrow> MemorySource \<times> u8 list status_or" where
  "gpu_read cr mem s max_bytes =
     (case gpu_read_at cr mem s (ms_current_offset s) max_bytes of
        Inl e \<Rightarrow> (s, Inl e)
      | Inr bs \<Rightarrow> (s\<lparr>ms_current_offset := ms_current_offset s + of_nat (length bs)\<rparr>, Inr bs))"

section \<open>Source with a fallback\<close>

definition mux_total :: "SeekableSource \<Rightarrow> SeekableSource \<Rightarrow> u64" where
  "mux_total primary fallback = max (src_total primary) (src_total fallback)"

text \<open>What the primary delivers; an error counts as nothing.\<close>

definition delivered :: "SeekableSource \<Rightarrow> u64 \<Rightarrow> u64 \<Rightarrow> u8 list" where
  "delivered src off n = (case src_read_at src off n of Inl _ \<Rightarrow> [] | Inr bs \<Rightarrow> bs)"

definition mux_read_at :: "SeekableSource \<Rightarrow> SeekableSource \<Rightarrow> u64 \<Rightarrow> u64 \<Rightarrow> u8 list status_or" where
  "mux_read_at primary fallback off bytes =
     (let tot = mux_total primary fallback in
      if tot \<le> off \<or> bytes = 0 then Inr []
      else
        (let bytes_to_read = min bytes (tot - off);
             first_part = delivered primary off bytes_to_read
         in if length first_part < unat bytes_to_read then
              (case src_read_at fallback (off + of_nat (length first_part))
                      (bytes_to_read - of_nat (length first_part)) of
                 Inl e \<Rightarrow> if first_part = [] then Inl e else Inr first_part
               | Inr rest \<Rightarrow>
                   if length (first_part @ rest) \<noteq> unat bytes_to_read
                   then Inl (Err DataLoss ''MuxSeekableSource short read before expected EOF'')
                   else Inr (first_part @ rest))
            else if length first_part \<noteq> unat bytes_to_read
            then Inl (Err DataLoss ''MuxSeekableSource short read before expected EOF'')
            else Inr first_part))"

definition mux_source :: "SeekableSource \<Rightarrow> SeekableSource \<Rightarrow> SeekableSource" where
  "mux_source primary fallback =
     \<lparr>src_total = mux_total primary fallback, src_read_at = mux_read_at primary fallback\<rparr>"

definition mux_read :: "SeekableSource \<Rightarrow> SeekableSource \<Rightarrow> u64 \<Rightarrow> u64 \<Rightarrow> u64 \<times> u8 list status_or" where
  "mux_read primary fallback offset max_bytes =
     (case mux_read_at primary fallback offset max_bytes of
        Inl e \<Rightarrow> (offset, Inl e)
      | Inr bs \<Rightarrow> (offset + of_nat (length bs), Inr bs))"

text \<open>
  Direct writes of a source into a granted destination \<open>'s\<close>: the two capability flags, the
  single write and the batch of writes, and the choice the source with a fallback makes.
\<close>

record DirectWriteOp =
  op_src_offset :: u64
  op_dest_va_offset :: u64
  op_bytes :: u64

record 's DirectSource =
  supports_direct_write_at :: bool
  supports_batched_direct_write_at :: bool
  read_into_at :: "u64 \<Rightarrow> u64 \<Rightarrow> u64 \<Rightarrow> 's \<Rightarrow> 's \<times> u64 status_or"
  readv_into_at :: "DirectWriteOp list \<Rightarrow> 's \<Rightarrow> 's \<times> u64 status_or"

fun default_readv :: "(u64 \<Rightarrow> u64 \<Rightarrow> u64 \<Rightarrow> 's \<Rightarrow> 's \<times> u64 status_or) \<Rightarrow> u64 \<Rightarrow> DirectWriteOp list \<Rightarrow> 's \<Rightarrow> 's \<times> u64 status_or" where
  "default_readv rd tot [] d = (d, Inr tot)"
| "default_readv rd tot (op # ops) d =
     (if op_bytes op = 0 then default_readv rd tot ops d
      else case rd (op_src_offset op) (op_dest_va_offset op) (op_bytes op) d of
             (d', Inl e) \<Rightarrow> (d', Inl e)
           | (d', Inr wrote) \<Rightarrow>
               if wrote \<noteq> op_bytes op then (d', Inl (Err DataLoss ''direct write batch short write''))
               else default_readv rd (tot + wrote) ops d')"

definition freeze_direct_branch :: "'s DirectSource \<Rightarrow> 's DirectSource \<Rightarrow> 's DirectSource status_or" where
  "freeze_direct_branch primary fallback =
     (if supports_direct_write_at primary then Inr primary
      else if supports_direct_write_at fallback then Inr fallback
      else Inl (Err Unimplemented ''direct write not supported by mux sources''))"

definition freeze_batched_direct_branch :: "'s DirectSource \<Rightarrow> 's DirectSource \<Rightarrow> 's DirectSource status_or" where
  "freeze_batched_direct_branch primary fallback =
     (if supports_batched_direct_write_at primary then Inr primary
      else if supports_batched_direct_write_at fallback then Inr fallback
      else Inl (Err Unimplemented ''batched direct write not supported by mux sources''))"

definition mux_direct :: "'s DirectSource \<Rightarrow> 's DirectSource \<Rightarrow> 's DirectSource" where
  "mux_direct primary fallback =
     \<lparr>supports_direct_write_at = supports_direct_write_at primary \<or> supports_direct_write_at fallback,
      supports_batched_direct_write_at =
        supports_batched_direct_write_at primary \<or> supports_batched_direct_write_at fallback,
      read_into_at = (\<lambda>src dst n d.
        case freeze_direct_branch primary fallback of Inl e \<Rightarrow> (d, Inl e) | Inr s \<Rightarrow> read_into_at s src dst n d),
      readv_into_at = (\<lambda>ops d. if ops = [] then (d, Inr 0) else
        case freeze_batched_direct_branch primary fallback of
          Inl e \<Rightarrow> (d, Inl e) | Inr s \<Rightarrow> readv_into_at s ops d)\<rparr>"

lemma default_readv_total:
  assumes "default_readv rd tot ops d = (d', Inr n)"
  shows "n = tot + sum_list (map op_bytes ops)"
  using assms by (induction rd tot ops d rule: default_readv.induct)
    (auto simp: add.assoc split: if_splits prod.splits sum.splits)

text \<open>A flag the source with a fallback shows is backed by a source that has it.\<close>

lemma mux_direct_selects:
  "supports_direct_write_at (mux_direct p f) \<longleftrightarrow>
     (\<exists>s. freeze_direct_branch p f = Inr s \<and> supports_direct_write_at s)"
  "supports_batched_direct_write_at (mux_direct p f) \<longleftrightarrow>
     (\<exists>s. freeze_batched_direct_branch p f = Inr s \<and> supports_batched_direct_write_at s)"
  by (auto simp: mux_direct_def freeze_direct_branch_def freeze_batched_direct_branch_def)

lemma mem_read_eq: "mem_read mem (b + off) n = map (\<lambda>d. mem (b + d)) [off..<off + n]"
proof (rule nth_equalityI)
  fix i assume "i < length (mem_read mem (b + off) n)"
  then show "mem_read mem (b + off) n ! i = map (\<lambda>d. mem (b + d)) [off..<off + n] ! i"
    by (simp add: mem_read_def add.assoc)
qed simp

lemma unat_min: "unat (min a b) = min (unat a) (unat (b :: u64))"
  by (simp add: min_def word_le_nat_alt)

lemma clamp_exact:
  fixes off n t :: u64
  assumes "unat off + unat n \<le> unat t"
  shows "min n (t - off) = n"
proof (rule min_absorb1)
  have "unat (t - off) = unat t - unat off" using assms by (intro unat_u64_sub) (simp add: u64_simps)
  then show "n \<le> t - off" using assms by (simp add: u64_simps)
qed

interpretation cpu: seekable_source "cpu_source mem s" "\<lambda>d. mem (unat (ms_base_ptr s) + d)" for mem s
proof
  show "length bs \<le> unat n \<and> bs = map (\<lambda>d. mem (unat (ms_base_ptr s) + d)) [unat off..<unat off + length bs]"
    if "src_read_at (cpu_source mem s) off n = Inr bs" for off n bs
    using that by (auto simp: cpu_source_def cpu_read_at_def Let_def mem_read_eq unat_min split: if_splits)
  show "src_read_at (cpu_source mem s) off n =
      Inr (map (\<lambda>d. mem (unat (ms_base_ptr s) + d)) [unat off..<unat off + unat n])"
    if "unat off + unat n \<le> unat (src_total (cpu_source mem s))" for off n
    using that clamp_exact [of off n "ms_total_size s"]
    by (auto simp: cpu_source_def cpu_read_at_def Let_def mem_read_eq u64_simps)
qed

interpretation gpu: prefix_source "gpu_source cr mem s" "\<lambda>d. mem (unat (ms_base_ptr s) + d)" for cr mem s
  by unfold_locales
    (auto simp: gpu_source_def gpu_read_at_def Let_def mem_read_eq unat_min split: if_splits sum.splits)

lemma gpu_read_ok:
  assumes "is_ok (set_device_result cr)" "is_ok (memcpy_result cr)" "is_ok (synchronize_result cr)"
  shows "gpu_read_at cr mem s = cpu_read_at mem s"
  using assms by (intro ext) (auto simp: gpu_read_at_def cpu_read_at_def is_ok_iff)

text \<open>
  A source that reads from its primary and completes short or failed reads from the fallback
  is complete whenever the fallback is complete and holds the bytes the primary holds.
\<close>

locale fallback_pair = p: prefix_source primary content + f: seekable_source fallback content
  for primary fallback content +
  assumes primary_not_longer: "src_total primary \<le> src_total fallback"
begin

lemma mux_total_eq: "mux_total primary fallback = src_total fallback"
  using primary_not_longer by (simp add: mux_total_def max_def)

lemma part_prefix: "length (delivered primary off n) \<le> unat n" "delivered primary off n = map content [unat off..<unat off + length (delivered primary off n)]"
  using p.read_prefix [of off n] by (auto simp: delivered_def split: sum.split)

lemma completed:
  assumes "unat off + unat n \<le> unat (src_total fallback)" "length (delivered primary off n) < unat n"
  shows "src_read_at fallback (off + of_nat (length (delivered primary off n))) (n - of_nat (length (delivered primary off n))) =
    Inr (map content [unat off + length (delivered primary off n)..<unat off + unat n])"
proof -
  let ?k = "length (delivered primary off n)"
  have k: "unat (of_nat ?k :: u64) = ?k" using assms unat_u64_bound [of n] by (intro unat_of_nat_u64) simp
  have off: "unat (off + of_nat ?k) = unat off + ?k"
    using assms k unat_u64_add_le [of off "of_nat ?k" "src_total fallback"] by simp
  have n: "unat (n - of_nat ?k) = unat n - ?k"
    using assms k unat_u64_sub [of "of_nat ?k" n] by (simp add: u64_simps)
  have "unat (off + of_nat ?k) + unat (n - of_nat ?k) = unat off + unat n" using off n assms by simp
  with f.read_exact [of "off + of_nat ?k" "n - of_nat ?k"] assms show ?thesis by (metis off)
qed

lemma map_content_join: "a \<le> b \<Longrightarrow> b \<le> c \<Longrightarrow> map content [a..<b] @ map content [b..<c] = map content [a..<c]"
  by (metis map_append upt_add_eq_append le_add_diff_inverse)

lemma mux_complete:
  assumes "unat off + unat n \<le> unat (src_total fallback)"
  shows "mux_read_at primary fallback off n = Inr (map content [unat off..<unat off + unat n])"
proof (cases "n = 0")
  case False
  then have in_range: "\<not> src_total fallback \<le> off"
    using assms by (auto simp: u64_simps simp flip: unat_eq_0)
  note clamp = clamp_exact [OF assms]
  show ?thesis
  proof (cases "length (delivered primary off n) < unat n")
    case True
    have "delivered primary off n @ map content [unat off + length (delivered primary off n)..<unat off + unat n] =
        map content [unat off..<unat off + unat n]"
      using part_prefix(2) [of off n] map_content_join [of "unat off" "unat off + length (delivered primary off n)" "unat off + unat n"] True
      by simp
    with True False in_range clamp completed [OF assms True] show ?thesis
      by (simp add: mux_read_at_def mux_total_eq Let_def)
  next
    case whole: False
    with part_prefix(1) [of off n] have "length (delivered primary off n) = unat n" by simp
    with whole False in_range clamp part_prefix(2) [of off n] show ?thesis
      by (simp add: mux_read_at_def mux_total_eq Let_def)
  qed
qed (simp add: mux_read_at_def Let_def)

lemma mux_prefix:
  assumes "mux_read_at primary fallback off n = Inr bs"
  shows "length bs \<le> unat n \<and> bs = map content [unat off..<unat off + length bs]"
proof (cases "src_total fallback \<le> off \<or> n = 0")
  case False
  define m where "m = min n (src_total fallback - off)"
  have "unat (src_total fallback - off) = unat (src_total fallback) - unat off"
    using False by (intro unat_u64_sub) auto
  then have m: "unat off + unat m \<le> unat (src_total fallback)" "unat m \<le> unat n"
    using False by (auto simp: m_def unat_min u64_simps)
  have "mux_read_at primary fallback off n = mux_read_at primary fallback off m"
    using False m clamp_exact [OF m(1)] unfolding mux_read_at_def
    by (auto simp: mux_total_eq Let_def m_def unat_eq_0 min_def split: if_splits)
  with assms mux_complete [OF m(1)] have "bs = map content [unat off..<unat off + unat m]" by simp
  with m(2) show ?thesis by simp
qed (use assms in \<open>auto simp: mux_read_at_def mux_total_eq\<close>)

end

sublocale fallback_pair \<subseteq> mux: seekable_source "mux_source primary fallback" content
  using mux_prefix mux_complete by unfold_locales (simp_all add: mux_source_def mux_total_eq)

interpretation gpu_cpu: fallback_pair "gpu_source cr mem s" "cpu_source mem s"
  "\<lambda>d. mem (unat (ms_base_ptr s) + d)" for cr mem s
  by unfold_locales (simp add: gpu_source_def cpu_source_def)

section \<open>Sink over a target layout in host memory\<close>

datatype StableLocalBackingKind = BackingNone | BackingHostSharedRegion

record StableLocalBackingRef =
  backing_kind :: StableLocalBackingKind
  backing_id :: string
  backing_base_addr :: u64
  backing_bytes :: u64
  slot_bytes :: u64
  dev_type :: int
  dev_id :: int

record HostTargetStorage =
  hs_base_ptr :: u64
  hs_length :: u64
  hs_stable_backing :: "StableLocalBackingRef option"

record StorageState =
  st_base_offset :: u64
  st_length :: u64
  st_base_ptr :: u64
  st_stable_backing :: "StableLocalBackingRef option"

record TargetLayoutHostSink =
  storage_states :: "StorageState list"
  total_size :: u64
  current_offset :: u64
  overall_status :: status
  sink_memory :: memory

fun place_storages :: "u64 \<Rightarrow> HostTargetStorage list \<Rightarrow> StorageState list \<times> u64 status_or" where
  "place_storages cursor [] = ([], Inr cursor)"
| "place_storages cursor (s # rest) =
     (let st = \<lparr>st_base_offset = cursor, st_length = hs_length s, st_base_ptr = hs_base_ptr s,
                st_stable_backing = hs_stable_backing s\<rparr>
      in if - 1 - cursor < hs_length s
         then ([st], Inl (Err OutOfRange ''target layout size overflow''))
         else map_prod ((#) st) id (place_storages (cursor + hs_length s) rest))"

definition new_host_sink :: "memory \<Rightarrow> HostTargetStorage list \<Rightarrow> TargetLayoutHostSink" where
  "new_host_sink mem storages =
     (case place_storages 0 storages of
        (sts, Inl e) \<Rightarrow> \<lparr>storage_states = sts, total_size = 0, current_offset = 0,
                         overall_status = Inl e, sink_memory = mem\<rparr>
      | (sts, Inr cursor) \<Rightarrow> \<lparr>storage_states = sts, total_size = cursor, current_offset = 0,
                         overall_status = ok_status, sink_memory = mem\<rparr>)"

definition in_storage :: "u64 \<Rightarrow> StorageState \<Rightarrow> bool" where
  "in_storage off st \<longleftrightarrow> st_base_offset st \<le> off \<and> off < st_base_offset st + st_length st"

definition find_storage :: "StorageState list \<Rightarrow> u64 \<Rightarrow> StorageState option" where
  "find_storage sts off = List.find (in_storage off) sts"

lemma in_storage_room:
  assumes "in_storage off st"
  shows "unat (off - st_base_offset st) = unat off - unat (st_base_offset st)"
    and "unat (st_length st - (off - st_base_offset st)) =
      unat (st_base_offset st) + unat (st_length st) - unat off"
    and "unat off < unat (st_base_offset st) + unat (st_length st)"
    and "unat (st_base_offset st) \<le> unat off"
proof -
  have le: "st_base_offset st \<le> off" and less: "off < st_base_offset st + st_length st"
    using assms by (auto simp: in_storage_def)
  have "st_base_offset st \<le> st_base_offset st + st_length st" using le less by simp
  then have sum: "unat (st_base_offset st + st_length st) = unat (st_base_offset st) + unat (st_length st)"
    by (simp add: unat_plus_simple)
  show a: "unat (off - st_base_offset st) = unat off - unat (st_base_offset st)" by (rule unat_u64_sub [OF le])
  show b: "unat off < unat (st_base_offset st) + unat (st_length st)" using less sum by (simp add: u64_simps)
  show c: "unat (st_base_offset st) \<le> unat off" using le by (simp add: u64_simps)
  have "off - st_base_offset st \<le> st_length st" using a b c by (simp add: u64_simps)
  from unat_u64_sub [OF this] a b c
  show "unat (st_length st - (off - st_base_offset st)) =
      unat (st_base_offset st) + unat (st_length st) - unat off" by simp
qed

lemma find_storage_in: "find_storage sts off = Some st \<Longrightarrow> st \<in> set sts \<and> in_storage off st"
  by (auto simp: find_storage_def find_Some_iff)

text \<open>The copy loop of \<open>write_at\<close>: what remains of the source buffer is the list argument.\<close>

function copy_loop :: "StorageState list \<Rightarrow> memory \<Rightarrow> u64 \<Rightarrow> u8 list \<Rightarrow> memory \<times> status" where
  "copy_loop sts mem cursor bs =
     (if bs = [] then (mem, ok_status)
      else case find_storage sts cursor of
        None \<Rightarrow> (mem, Inl (Err InvalidArgument ''write_at targets an unmapped storage range''))
      | Some st \<Rightarrow>
        (let local_offset = cursor - st_base_offset st;
             available = st_length st - local_offset;
             n = min (length bs) (unat available)
         in copy_loop sts (mem_write mem (unat (st_base_ptr st) + unat local_offset) (take n bs))
              (cursor + of_nat n) (drop n bs)))"
  by pat_completeness auto
termination
proof (relation "measure (\<lambda>(sts, mem, cursor, bs). length bs)")
  fix sts mem cursor and bs :: "u8 list" and st x xa xb
  assume "bs \<noteq> []" "find_storage sts cursor = Some st" "x = cursor - st_base_offset st"
    "xa = st_length st - x" "xb = min (length bs) (unat xa)"
  then have "0 < unat xa" using find_storage_in [of sts cursor st] in_storage_room [of cursor st] by simp
  then show "((sts, mem_write mem (unat (st_base_ptr st) + unat x) (take xb bs), cursor + of_nat xb, drop xb bs),
      sts, mem, cursor, bs) \<in> measure (\<lambda>(sts, mem, cursor, bs). length bs)"
    using \<open>bs \<noteq> []\<close> \<open>xb = _\<close> by simp
qed simp

declare copy_loop.simps [simp del]

definition host_write_at :: "TargetLayoutHostSink \<Rightarrow> u64 \<Rightarrow> u8 list \<Rightarrow> TargetLayoutHostSink \<times> status" where
  "host_write_at s off bs =
     (let bytes = of_nat (length bs) :: u64;
          fail = (\<lambda>e. (s\<lparr>overall_status := Inl e\<rparr>, Inl e))
      in case overall_status s of
           Inl e \<Rightarrow> (s, Inl e)
         | Inr _ \<Rightarrow>
           if bytes = 0 then (s, ok_status)
           else if - 1 - bytes < off then fail (Err OutOfRange ''write_at offset overflows target layout'')
           else if total_size s < off + bytes
           then fail (Err InvalidArgument ''write_at exceeds target layout size'')
           else (case copy_loop (storage_states s) (sink_memory s) off bs of
                   (mem, Inl e) \<Rightarrow> (s\<lparr>sink_memory := mem, overall_status := Inl e\<rparr>, Inl e)
                 | (mem, Inr _) \<Rightarrow> (s\<lparr>sink_memory := mem\<rparr>, ok_status)))"

definition host_write :: "TargetLayoutHostSink \<Rightarrow> u8 list \<Rightarrow> TargetLayoutHostSink \<times> status" where
  "host_write s bs =
     (case overall_status s of
        Inl e \<Rightarrow> (s, Inl e)
      | Inr _ \<Rightarrow>
        (case host_write_at s (current_offset s) bs of
           (s', Inl e) \<Rightarrow> (s', Inl e)
         | (s', Inr _) \<Rightarrow> (s'\<lparr>current_offset := current_offset s' + of_nat (length bs)\<rparr>, ok_status)))"

definition host_close :: "TargetLayoutHostSink \<Rightarrow> status" where
  "host_close s = overall_status s"

text \<open>Direct writes: the grant lists the storage pieces of every requested range.\<close>

record BackedWindow = Window +
  win_stable_backing :: "StableLocalBackingRef option"

function grant_windows :: "StorageState list \<Rightarrow> u64 \<Rightarrow> u64 \<Rightarrow> BackedWindow list status_or" where
  "grant_windows sts cursor remaining =
     (if remaining = 0 then Inr []
      else case find_storage sts cursor of
        None \<Rightarrow> Inl (Err InvalidArgument ''plan_direct_write targets an unmapped storage range'')
      | Some st \<Rightarrow>
        (let local_offset = cursor - st_base_offset st;
             available = st_length st - local_offset;
             n = min remaining available
         in map_sum id ((#) \<lparr>win_va_offset = cursor, win_local_addr = st_base_ptr st + local_offset,
                             win_length = n, win_stable_backing = st_stable_backing st\<rparr>)
              (grant_windows sts (cursor + n) (remaining - n))))"
  by pat_completeness auto
termination
proof (relation "measure (\<lambda>(sts, cursor, remaining). unat remaining)")
  fix sts cursor and remaining :: u64 and st x xa xb
  assume a: "remaining \<noteq> 0" "find_storage sts cursor = Some st" "x = cursor - st_base_offset st"
    "xa = st_length st - x" "xb = min remaining xa"
  then have "0 < unat xa" using find_storage_in [of sts cursor st] in_storage_room [of cursor st] by simp
  with a have "0 < unat xb" "xb \<le> remaining" by (auto simp: unat_min unat_gt_0)
  then show "((sts, cursor + xb, remaining - xb), sts, cursor, remaining)
      \<in> measure (\<lambda>(sts, cursor, remaining). unat remaining)"
    using unat_u64_sub [of xb remaining] by (simp add: u64_simps)
qed simp

declare grant_windows.simps [simp del]

fun plan_ranges_loop :: "TargetLayoutHostSink \<Rightarrow> u64 \<Rightarrow> VaRange list \<Rightarrow> BackedWindow list status_or" where
  "plan_ranges_loop s requested [] = Inr []"
| "plan_ranges_loop s requested (r # rest) =
     (if va_length r = 0 then plan_ranges_loop s requested rest
      else if - 1 - requested < va_length r
      then Inl (Err OutOfRange ''plan_direct_write total requested bytes overflow'')
      else if - 1 - va_length r < va_offset r
      then Inl (Err OutOfRange ''plan_direct_write offset overflows target layout'')
      else if total_size s < va_offset r + va_length r
      then Inl (Err OutOfRange ''plan_direct_write exceeds target layout size'')
      else case grant_windows (storage_states s) (va_offset r) (va_length r) of
        Inl e \<Rightarrow> Inl e
      | Inr ws \<Rightarrow> map_sum id ((@) ws) (plan_ranges_loop s (requested + va_length r) rest))"

definition host_plan_direct_write :: "TargetLayoutHostSink \<Rightarrow> VaRange list \<Rightarrow> BackedWindow list status_or" where
  "host_plan_direct_write s ranges =
     (case overall_status s of Inl e \<Rightarrow> Inl e | Inr _ \<Rightarrow> plan_ranges_loop s 0 ranges)"

section \<open>Where a byte of the target lives\<close>

primrec states_tile :: "nat \<Rightarrow> nat \<Rightarrow> StorageState list \<Rightarrow> bool" where
  "states_tile a b [] \<longleftrightarrow> a = b"
| "states_tile a b (st # rest) \<longleftrightarrow>
     unat (st_base_offset st) = a \<and> states_tile (a + unat (st_length st)) b rest"

definition sink_addr :: "StorageState list \<Rightarrow> nat \<Rightarrow> nat" where
  "sink_addr sts d =
     (case find_storage sts (of_nat d) of
        None \<Rightarrow> 0
      | Some st \<Rightarrow> unat (st_base_ptr st) + (d - unat (st_base_offset st)))"

lemma states_tile_le: "states_tile a b sts \<Longrightarrow> a \<le> b"
  by (induction sts arbitrary: a) fastforce+

lemma states_tile_bounds:
  "states_tile a b sts \<Longrightarrow> st \<in> set sts \<Longrightarrow>
     a \<le> unat (st_base_offset st) \<and> unat (st_base_offset st) + unat (st_length st) \<le> b"
  by (induction sts arbitrary: a) (fastforce dest: states_tile_le)+

lemma in_storage_iff:
  assumes "unat (st_base_offset st) + unat (st_length st) < 2 ^ 64"
  shows "in_storage off st \<longleftrightarrow>
    unat (st_base_offset st) \<le> unat off \<and> unat off < unat (st_base_offset st) + unat (st_length st)"
  using unat_u64_add [OF assms] by (simp add: in_storage_def u64_simps)

lemma states_tile_unique:
  assumes "states_tile a b sts" "b < 2 ^ 64" "st \<in> set sts" "st' \<in> set sts"
    and "in_storage off st" "in_storage off st'"
  shows "st = st'"
  using assms
proof (induction sts arbitrary: a)
  case (Cons x rest)
  have room: "unat (st_base_offset y) + unat (st_length y) < 2 ^ 64" if "y \<in> set (x # rest)" for y
    using states_tile_bounds [OF Cons.prems(1) that] Cons.prems(2) by simp
  have after: "unat (st_base_offset x) + unat (st_length x) \<le> unat (st_base_offset y)" if "y \<in> set rest" for y
    using states_tile_bounds [of _ b rest y] that Cons.prems(1) by auto
  show ?case
    using Cons.IH [of "a + unat (st_length x)"] Cons.prems after [of st] after [of st'] room [of st] room [of st']
    by (auto simp: in_storage_iff)
qed simp

lemma states_tile_find:
  assumes "states_tile a b sts" "b < 2 ^ 64" "a \<le> unat off" "unat off < b"
  shows "\<exists>st. find_storage sts off = Some st"
  using assms
proof (induction sts arbitrary: a)
  case (Cons x rest)
  have "unat (st_base_offset x) + unat (st_length x) < 2 ^ 64"
    using states_tile_bounds [OF Cons.prems(1), of x] Cons.prems(2) by simp
  then show ?case
    using Cons.IH [of "a + unat (st_length x)"] Cons.prems
    by (cases "in_storage off x") (auto simp: find_storage_def in_storage_iff)
qed simp

lemma find_storage_same:
  assumes "states_tile 0 b sts" "b < 2 ^ 64" "find_storage sts off = Some st"
    and "unat (st_base_offset st) \<le> d" "d < unat (st_base_offset st) + unat (st_length st)"
  shows "find_storage sts (of_nat d) = Some st"
proof -
  have st: "st \<in> set sts" using find_storage_in [OF assms(3)] by simp
  with states_tile_bounds [OF assms(1) st] assms(2,5) have d: "d < b" "d < 2 ^ 64" by auto
  then have u: "unat (of_nat d :: u64) = d" by (intro unat_of_nat_u64)
  with d states_tile_find [OF assms(1,2), of "of_nat d"]
  obtain st' where st': "find_storage sts (of_nat d) = Some st'" by auto
  have "in_storage (of_nat d) st"
    using assms(2,4,5) u states_tile_bounds [OF assms(1) st] by (simp add: in_storage_iff)
  with states_tile_unique [OF assms(1,2) st] find_storage_in [OF st'] show ?thesis using st' by blast
qed

lemma sink_addr_run:
  assumes "states_tile 0 b sts" "b < 2 ^ 64" "find_storage sts off = Some st"
    and "unat (st_base_offset st) \<le> d" "d < unat (st_base_offset st) + unat (st_length st)"
  shows "sink_addr sts d = unat (st_base_ptr st) + (d - unat (st_base_offset st))"
  using find_storage_same [OF assms] by (simp add: sink_addr_def)

section \<open>Writing\<close>

lemma copy_loop_correct:
  assumes "states_tile 0 b sts" "b < 2 ^ 64" "inj_on (sink_addr sts) {..<b}" "unat cursor + length bs \<le> b"
  shows "\<exists>mem'. copy_loop sts mem cursor bs = (mem', ok_status) \<and>
    (\<forall>d<b. mem' (sink_addr sts d) =
      (if unat cursor \<le> d \<and> d < unat cursor + length bs then bs ! (d - unat cursor) else mem (sink_addr sts d)))"
  using assms
proof (induction sts mem cursor bs rule: copy_loop.induct)
  case (1 sts mem cursor bs)
  show ?case
  proof (cases "bs = []")
    case False
    then have "unat cursor < b" using "1.prems"(4) by (cases bs) auto
    with states_tile_find [OF "1.prems"(1,2), of cursor]
    obtain st where st: "find_storage sts cursor = Some st" by auto
    define lo n where "lo = cursor - st_base_offset st" and "n = min (length bs) (unat (st_length st - lo))"
    note room = in_storage_room [OF conjunct2 [OF find_storage_in [OF st]], folded lo_def]
    have n: "0 < n" "n \<le> length bs" "unat cursor + n \<le> unat (st_base_offset st) + unat (st_length st)"
      using False room by (auto simp: n_def)
    have cur: "unat (cursor + of_nat n) = unat cursor + n"
      using n "1.prems"(2,4) unat_of_nat_u64 [of n] unat_u64_add [of cursor "of_nat n"] by simp
    define mem1 where "mem1 = mem_write mem (unat (st_base_ptr st) + unat lo) (take n bs)"
    have addr: "sink_addr sts d = unat (st_base_ptr st) + unat lo + (d - unat cursor)"
      if "unat cursor \<le> d" "d < unat cursor + n" for d
      using sink_addr_run [OF "1.prems"(1,2) st, of d] that n room by simp
    have step: "mem1 (sink_addr sts d) =
        (if unat cursor \<le> d \<and> d < unat cursor + n then bs ! (d - unat cursor) else mem (sink_addr sts d))"
      if d: "d < b" for d
    proof (cases "unat cursor \<le> d \<and> d < unat cursor + n")
      case True
      then have i: "d - unat cursor < n" "d - unat cursor < length (take n bs)" using n by auto
      from mem_write_in [OF i(2)] addr [of d] True i(1) show ?thesis by (simp add: mem1_def)
    next
      case out: False
      have "sink_addr sts d \<notin> {unat (st_base_ptr st) + unat lo..<unat (st_base_ptr st) + unat lo + n}"
      proof
        assume hit: "sink_addr sts d \<in> {unat (st_base_ptr st) + unat lo..<unat (st_base_ptr st) + unat lo + n}"
        define d' where "d' = unat cursor + (sink_addr sts d - (unat (st_base_ptr st) + unat lo))"
        have d': "unat cursor \<le> d'" "d' < unat cursor + n" using hit by (auto simp: d'_def)
        with addr [of d'] hit have "sink_addr sts d' = sink_addr sts d" by (auto simp: d'_def)
        moreover have "d' < b" using d' n "1.prems"(4) by simp
        ultimately have "d' = d" using "1.prems"(3) d by (auto dest: inj_onD)
        with d' out show False by simp
      qed
      with out n show ?thesis by (auto simp: mem1_def mem_write_def)
    qed
    have "unat (cursor + of_nat n) + length (drop n bs) \<le> b" using cur n "1.prems"(4) by simp
    from "1.IH" [OF False st lo_def refl n_def "1.prems"(1-3), folded mem1_def] this
    obtain mem' where mem': "copy_loop sts mem1 (cursor + of_nat n) (drop n bs) = (mem', ok_status)"
      "\<And>d. d < b \<Longrightarrow> mem' (sink_addr sts d) =
        (if unat cursor + n \<le> d \<and> d < unat cursor + length bs then drop n bs ! (d - (unat cursor + n))
         else mem1 (sink_addr sts d))"
      using cur n by auto
    have "copy_loop sts mem cursor bs = (mem', ok_status)"
      using False st mem'(1) by (simp add: copy_loop.simps [of sts mem cursor bs] Let_def flip: lo_def n_def mem1_def)
    moreover have "mem' (sink_addr sts d) =
        (if unat cursor \<le> d \<and> d < unat cursor + length bs then bs ! (d - unat cursor) else mem (sink_addr sts d))"
      if "d < b" for d
      using mem'(2) [OF that] step [OF that] n by auto
    ultimately show ?thesis by blast
  qed (auto simp: copy_loop.simps)
qed
text \<open>Outside the addresses of the range the loop leaves memory alone.\<close>

lemma copy_loop_frame:
  assumes "states_tile 0 b sts" "b < 2 ^ 64" "unat cursor + length bs \<le> b"
    and "a \<notin> sink_addr sts ` {unat cursor..<unat cursor + length bs}"
  shows "fst (copy_loop sts mem cursor bs) a = mem a"
  using assms
proof (induction sts mem cursor bs rule: copy_loop.induct)
  case (1 sts mem cursor bs)
  show ?case
  proof (cases "bs = []")
    case False
    then have "unat cursor < b" using "1.prems"(3) by (cases bs) auto
    with states_tile_find [OF "1.prems"(1,2), of cursor]
    obtain st where st: "find_storage sts cursor = Some st" by auto
    define lo n where "lo = cursor - st_base_offset st" and "n = min (length bs) (unat (st_length st - lo))"
    note room = in_storage_room [OF conjunct2 [OF find_storage_in [OF st]], folded lo_def]
    have n: "n \<le> length bs" "unat cursor + n \<le> unat (st_base_offset st) + unat (st_length st)"
      using room by (auto simp: n_def)
    have cur: "unat (cursor + of_nat n) = unat cursor + n"
      using n "1.prems"(2,3) unat_of_nat_u64 [of n] unat_u64_add [of cursor "of_nat n"] by simp
    define mem1 where "mem1 = mem_write mem (unat (st_base_ptr st) + unat lo) (take n bs)"
    have out: "a \<noteq> unat (st_base_ptr st) + unat lo + i" if "i < n" for i
    proof -
      have "sink_addr sts (unat cursor + i) = unat (st_base_ptr st) + unat lo + i"
        using sink_addr_run [OF "1.prems"(1,2) st, of "unat cursor + i"] that n room by simp
      moreover have "unat cursor + i \<in> {unat cursor..<unat cursor + length bs}" using that n by simp
      then have "sink_addr sts (unat cursor + i) \<in> sink_addr sts ` {unat cursor..<unat cursor + length bs}" by (rule imageI)
      ultimately show ?thesis using "1.prems"(4) by (simp only:) blast
    qed
    have "\<not> (unat (st_base_ptr st) + unat lo \<le> a \<and> a < unat (st_base_ptr st) + unat lo + n)"
      using out [of "a - (unat (st_base_ptr st) + unat lo)"] by linarith
    moreover have "length (take n bs) = n" using n(1) by simp
    ultimately have "mem1 a = mem a" unfolding mem1_def mem_write_def by (simp only: if_False)
    moreover have "fst (copy_loop sts mem1 (cursor + of_nat n) (drop n bs)) a = mem1 a"
    proof (rule "1.IH" [OF False st lo_def refl n_def "1.prems"(1,2), folded mem1_def])
      show "unat (cursor + of_nat n) + length (drop n bs) \<le> b" using "1.prems"(3) n(1) by (simp add: cur)
      have "{unat cursor + n..<unat cursor + n + length (drop n bs)} \<subseteq> {unat cursor..<unat cursor + length bs}"
        using n(1) by auto
      with "1.prems"(4) show "a \<notin> sink_addr sts ` {unat (cursor + of_nat n)..<unat (cursor + of_nat n) + length (drop n bs)}"
        unfolding cur by blast
    qed
    moreover have "copy_loop sts mem cursor bs = copy_loop sts mem1 (cursor + of_nat n) (drop n bs)"
      using False st by (subst copy_loop.simps) (simp add: Let_def flip: lo_def n_def mem1_def)
    ultimately show ?thesis by (simp only:)
  qed (auto simp: copy_loop.simps)
qed

text \<open>
  A sink in working order: no error recorded, the storages follow each other from offset 0 to
  the total size, no two bytes of the target share an address, and no storage reaches the end
  of the address space.
\<close>

definition host_sink_ok :: "TargetLayoutHostSink \<Rightarrow> bool" where
  "host_sink_ok s \<longleftrightarrow> overall_status s = ok_status \<and>
     states_tile 0 (unat (total_size s)) (storage_states s) \<and>
     inj_on (sink_addr (storage_states s)) {..<unat (total_size s)} \<and>
     (\<forall>st\<in>set (storage_states s). unat (st_base_ptr st) + unat (st_length st) < 2 ^ 64)"

definition host_byte :: "TargetLayoutHostSink \<Rightarrow> nat \<Rightarrow> u8" where
  "host_byte s d = sink_memory s (sink_addr (storage_states s) d)"

lemma host_write_at_in_range:
  assumes ok: "host_sink_ok s" and fits: "unat off + length bs \<le> unat (total_size s)"
  shows "\<exists>s'. host_write_at s off bs = (s', ok_status) \<and> host_sink_ok s' \<and> total_size s' = total_size s \<and>
    (\<forall>d < unat (total_size s). host_byte s' d =
      (if unat off \<le> d \<and> d < unat off + length bs then bs ! (d - unat off) else host_byte s d))"
proof -
  have len: "unat (of_nat (length bs) :: u64) = length bs"
    using fits unat_u64_bound [of "total_size s"] by (intro unat_of_nat_u64) linarith
  have sum: "unat (off + of_nat (length bs)) = unat off + length bs"
    using fits len unat_u64_add_le [of off "of_nat (length bs)" "total_size s"] by simp
  have no_wrap: "\<not> - 1 - of_nat (length bs) < off"
    using fits len unat_u64_bound [of "total_size s"] by (simp add: u64_overflow_check)
  from ok copy_loop_correct [of "unat (total_size s)" "storage_states s" off bs "sink_memory s"] fits
  obtain mem' where mem': "copy_loop (storage_states s) (sink_memory s) off bs = (mem', ok_status)"
    "\<forall>d<unat (total_size s). mem' (sink_addr (storage_states s) d) =
      (if unat off \<le> d \<and> d < unat off + length bs then bs ! (d - unat off)
       else sink_memory s (sink_addr (storage_states s) d))"
    using unat_u64_bound [of "total_size s"] by (auto simp: host_sink_ok_def)
  show ?thesis
  proof (cases "bs = []")
    case False
    then have "of_nat (length bs) \<noteq> (0 :: u64)" using len by (metis length_0_conv unat_0)
    then have "host_write_at s off bs = (s\<lparr>sink_memory := mem'\<rparr>, ok_status)"
      using ok no_wrap sum fits mem'(1) by (simp add: host_write_at_def host_sink_ok_def Let_def u64_simps)
    with ok mem'(2) show ?thesis by (auto simp: host_sink_ok_def host_byte_def)
  qed (use ok in \<open>auto simp: host_write_at_def host_sink_ok_def Let_def\<close>)
qed

lemma host_write_at_frame:
  assumes "states_tile 0 (unat (total_size s)) (storage_states s)" "unat off + length bs \<le> unat (total_size s)"
    and "host_write_at s off bs = (s', st)"
  shows "{a. sink_memory s' a \<noteq> sink_memory s a} \<subseteq> sink_addr (storage_states s) ` {unat off..<unat off + length bs}"
proof -
  have s': "s' = fst (host_write_at s off bs)" using assms(3) by simp
  have "sink_memory s' = sink_memory s \<or> sink_memory s' = fst (copy_loop (storage_states s) (sink_memory s) off bs)"
    unfolding s' by (simp add: host_write_at_def Let_def split: sum.split prod.split)
  then show ?thesis
  proof
    assume "sink_memory s' = fst (copy_loop (storage_states s) (sink_memory s) off bs)"
    with copy_loop_frame [OF assms(1) unat_u64_bound assms(2), of _ "sink_memory s"] show ?thesis by auto
  qed simp
qed

lemma host_write_at_refused:
  assumes "overall_status s = ok_status" "bs \<noteq> []" "length bs < 2 ^ 64"
    and "\<not> unat off + length bs \<le> unat (total_size s)"
  shows "\<exists>e. host_write_at s off bs = (s\<lparr>overall_status := Inl e\<rparr>, Inl e)"
proof -
  have len: "unat (of_nat (length bs) :: u64) = length bs" by (rule unat_of_nat_u64 [OF assms(3)])
  then have nz: "of_nat (length bs) \<noteq> (0 :: u64)" using assms(2) by (metis length_0_conv unat_0)
  show ?thesis
  proof (cases "- 1 - of_nat (length bs) < off")
    case False
    then have "unat (off + of_nat (length bs)) = unat off + length bs"
      using len by (subst unat_u64_add) (simp_all add: u64_overflow_check)
    then have "total_size s < off + of_nat (length bs)" using assms(4) by (simp add: u64_simps)
    with False nz assms(1) show ?thesis by (simp add: host_write_at_def Let_def)
  qed (use nz assms(1) in \<open>simp add: host_write_at_def Let_def\<close>)
qed

lemma run_bytes:
  assumes "a + length bs \<le> n"
    and "\<And>d. d < n \<Longrightarrow> g d = (if a \<le> d \<and> d < a + length bs then bs ! (d - a) else f d)"
  shows "map g [0..<n] = map f [0..<a] @ bs @ map f [a + length bs..<n]" (is "?l = ?r")
proof (rule nth_equalityI)
  show "length ?l = length ?r" using assms(1) by simp
  fix i assume "i < length ?l"
  then show "?l ! i = ?r ! i" using assms(2) [of i] by (auto simp: nth_append)
qed

interpretation host_sink: positioned_sink host_write_at total_size host_byte host_sink_ok
  by unfold_locales (rule host_write_at_in_range)

section \<open>The sink a layout gives\<close>

definition storage_span :: "HostTargetStorage \<Rightarrow> nat set" where
  "storage_span s = {unat (hs_base_ptr s)..<unat (hs_base_ptr s) + unat (hs_length s)}"

definition state_span :: "StorageState \<Rightarrow> nat set" where
  "state_span st = {unat (st_base_ptr st)..<unat (st_base_ptr st) + unat (st_length st)}"

definition layout_ok :: "HostTargetStorage list \<Rightarrow> bool" where
  "layout_ok storages \<longleftrightarrow> (\<Sum>s\<leftarrow>storages. unat (hs_length s)) < 2 ^ 64 \<and>
     sorted_wrt (\<lambda>s t. storage_span s \<inter> storage_span t = {}) storages \<and>
     (\<forall>s\<in>set storages. unat (hs_base_ptr s) + unat (hs_length s) < 2 ^ 64)"

lemma place_storages_ok:
  assumes "unat cursor + (\<Sum>s\<leftarrow>storages. unat (hs_length s)) < 2 ^ 64"
  shows "\<exists>sts. place_storages cursor storages = (sts, Inr (cursor + of_nat (\<Sum>s\<leftarrow>storages. unat (hs_length s)))) \<and>
    states_tile (unat cursor) (unat cursor + (\<Sum>s\<leftarrow>storages. unat (hs_length s))) sts \<and>
    map state_span sts = map storage_span storages \<and>
    map (\<lambda>st. unat (st_base_ptr st) + unat (st_length st)) sts =
      map (\<lambda>s. unat (hs_base_ptr s) + unat (hs_length s)) storages"
  using assms
proof (induction storages arbitrary: cursor)
  case (Cons s rest)
  have sum: "unat (cursor + hs_length s) = unat cursor + unat (hs_length s)"
    using Cons.prems by (intro unat_u64_add) simp
  have "\<not> - 1 - cursor < hs_length s" using Cons.prems by (simp add: u64_overflow_check)
  moreover from Cons.IH [of "cursor + hs_length s"] sum Cons.prems
  obtain sts where "place_storages (cursor + hs_length s) rest =
      (sts, Inr (cursor + hs_length s + of_nat (\<Sum>s\<leftarrow>rest. unat (hs_length s))))"
    "states_tile (unat cursor + unat (hs_length s))
      (unat cursor + unat (hs_length s) + (\<Sum>s\<leftarrow>rest. unat (hs_length s))) sts"
    "map state_span sts = map storage_span rest"
    "map (\<lambda>st. unat (st_base_ptr st) + unat (st_length st)) sts =
      map (\<lambda>s. unat (hs_base_ptr s) + unat (hs_length s)) rest"
    by (auto simp: add.assoc)
  ultimately show ?case
    by (auto simp: Let_def state_span_def [of "\<lparr>st_base_offset = cursor, st_length = hs_length s,
          st_base_ptr = hs_base_ptr s, st_stable_backing = hs_stable_backing s\<rparr>"]
        storage_span_def [of s] add.assoc)
qed simp

lemma spans_inj:
  assumes "states_tile 0 b sts" "b < 2 ^ 64" "sorted_wrt (\<lambda>s t. s \<inter> t = {}) (map state_span sts)"
  shows "inj_on (sink_addr sts) {..<b}"
proof (rule inj_onI)
  fix d e assume de: "d \<in> {..<b}" "e \<in> {..<b}" "sink_addr sts d = sink_addr sts e"
  have addr: "\<exists>st \<in> set sts. find_storage sts (of_nat x) = Some st \<and> unat (st_base_offset st) \<le> x \<and>
      x < unat (st_base_offset st) + unat (st_length st) \<and>
      sink_addr sts x = unat (st_base_ptr st) + (x - unat (st_base_offset st)) \<and> sink_addr sts x \<in> state_span st"
    if "x < b" for x
  proof -
    have u: "unat (of_nat x :: u64) = x" using that assms(2) by (intro unat_of_nat_u64) simp
    with states_tile_find [OF assms(1,2), of "of_nat x"] that
    obtain st where st: "find_storage sts (of_nat x) = Some st" by auto
    with find_storage_in [OF st] in_storage_room(3,4) [of "of_nat x" st] u
    show ?thesis by (auto simp: sink_addr_def state_span_def)
  qed
  from addr [of d] de obtain s where s: "s \<in> set sts" "unat (st_base_offset s) \<le> d"
    "sink_addr sts d = unat (st_base_ptr s) + (d - unat (st_base_offset s))" "sink_addr sts d \<in> state_span s" by auto
  from addr [of e] de obtain t where t: "t \<in> set sts" "unat (st_base_offset t) \<le> e"
    "sink_addr sts e = unat (st_base_ptr t) + (e - unat (st_base_offset t))" "sink_addr sts e \<in> state_span t" by auto
  from s(1) t(1) obtain i j where ij: "i < length sts" "j < length sts" "sts ! i = s" "sts ! j = t"
    by (auto simp: in_set_conv_nth)
  have "state_span s \<inter> state_span t \<noteq> {}" using s(4) t(4) de(3) by auto
  then have "i = j"
    using assms(3) ij by (cases i j rule: linorder_cases) (auto simp: sorted_wrt_iff_nth_less)
  with ij s t de(3) show "d = e" by simp
qed

lemma new_host_sink_ok:
  assumes "layout_ok storages"
  shows "host_sink_ok (new_host_sink mem storages)"
    and "unat (total_size (new_host_sink mem storages)) = (\<Sum>s\<leftarrow>storages. unat (hs_length s))"
proof -
  let ?n = "\<Sum>s\<leftarrow>storages. unat (hs_length s)"
  have n: "?n < 2 ^ 64" using assms by (simp add: layout_ok_def)
  with place_storages_ok [of 0 storages]
  obtain sts where sts: "place_storages 0 storages = (sts, Inr (of_nat ?n))" "states_tile 0 ?n sts"
    "map state_span sts = map storage_span storages"
    "map (\<lambda>st. unat (st_base_ptr st) + unat (st_length st)) sts =
      map (\<lambda>s. unat (hs_base_ptr s) + unat (hs_length s)) storages" by auto
  have u: "unat (of_nat ?n :: u64) = ?n" by (rule unat_of_nat_u64 [OF n])
  from assms sts(3) have "sorted_wrt (\<lambda>s t. s \<inter> t = {}) (map state_span sts)"
    by (simp add: layout_ok_def sorted_wrt_map)
  moreover have "\<forall>x\<in>set (map (\<lambda>st. unat (st_base_ptr st) + unat (st_length st)) sts). x < 2 ^ 64"
    using assms unfolding sts(4) by (auto simp: layout_ok_def)
  ultimately show "host_sink_ok (new_host_sink mem storages)" "unat (total_size (new_host_sink mem storages)) = ?n"
    using spans_inj [OF sts(2) n] sts(1,2) u by (auto simp: new_host_sink_def host_sink_ok_def)
qed
section \<open>Direct writes\<close>

definition window_bytes :: "BackedWindow \<Rightarrow> nat list" where
  "window_bytes w = [unat (win_va_offset w)..<unat (win_va_offset w) + unat (win_length w)]"

definition range_bytes :: "VaRange \<Rightarrow> nat list" where
  "range_bytes r = [unat (va_offset r)..<unat (va_offset r) + unat (va_length r)]"

definition window_addrs :: "BackedWindow \<Rightarrow> nat list" where
  "window_addrs w = [unat (win_local_addr w)..<unat (win_local_addr w) + unat (win_length w)]"

lemma grant_windows_exact:
  assumes "states_tile 0 b sts" "b < 2 ^ 64" "unat cursor + unat remaining \<le> b"
    and "\<forall>st\<in>set sts. unat (st_base_ptr st) + unat (st_length st) < 2 ^ 64"
  shows "\<exists>ws. grant_windows sts cursor remaining = Inr ws \<and>
    concat (map window_bytes ws) = [unat cursor..<unat cursor + unat remaining] \<and>
    concat (map window_addrs ws) = map (sink_addr sts) [unat cursor..<unat cursor + unat remaining] \<and>
    (\<forall>w\<in>set ws. win_length w \<noteq> 0)"
  using assms
proof (induction sts cursor remaining rule: grant_windows.induct)
  case (1 sts cursor remaining)
  show ?case
  proof (cases "remaining = 0")
    case False
    then have "unat cursor < b" using "1.prems"(3) by (simp flip: unat_gt_0)
    with states_tile_find [OF "1.prems"(1,2), of cursor]
    obtain st where st: "find_storage sts cursor = Some st" by auto
    define lo where "lo = cursor - st_base_offset st"
    define n where "n = min remaining (st_length st - lo)"
    have mem: "st \<in> set sts" using find_storage_in [OF st] by simp
    note room = in_storage_room [OF conjunct2 [OF find_storage_in [OF st]], folded lo_def]
    have n: "0 < unat n" "unat n \<le> unat remaining" "n \<le> remaining"
      "unat cursor + unat n \<le> unat (st_base_offset st) + unat (st_length st)"
      using False room by (auto simp: n_def unat_min unat_gt_0)
    have cur: "unat (cursor + n) = unat cursor + unat n"
      using n "1.prems"(2,3) by (intro unat_u64_add) simp
    have rest: "unat (remaining - n) = unat remaining - unat n" using n by (intro unat_u64_sub)
    have addr0: "unat (st_base_ptr st + lo) = unat (st_base_ptr st) + unat lo"
      using "1.prems"(4) mem room n by (intro unat_u64_add) force
    have "unat (cursor + n) + unat (remaining - n) \<le> b" using cur rest n "1.prems"(3) by simp
    from "1.IH" [OF False st lo_def refl n_def "1.prems"(1,2) this "1.prems"(4)]
    obtain ws where ws: "grant_windows sts (cursor + n) (remaining - n) = Inr ws"
      "concat (map window_bytes ws) = [unat cursor + unat n..<unat cursor + unat remaining]"
      "concat (map window_addrs ws) = map (sink_addr sts) [unat cursor + unat n..<unat cursor + unat remaining]"
      "\<forall>w\<in>set ws. win_length w \<noteq> 0"
      using cur rest n by auto
    let ?w = "\<lparr>win_va_offset = cursor, win_local_addr = st_base_ptr st + lo, win_length = n,
      win_stable_backing = st_stable_backing st\<rparr>"
    have join: "[unat cursor..<unat cursor + unat n] @ [unat cursor + unat n..<unat cursor + unat remaining] =
        [unat cursor..<unat cursor + unat remaining]"
      using n by (metis le_add1 le_add_diff_inverse nat_add_left_cancel_le upt_add_eq_append)
    have "[unat (st_base_ptr st + lo)..<unat (st_base_ptr st + lo) + unat n] =
        map (sink_addr sts) [unat cursor..<unat cursor + unat n]"
    proof (rule nth_equalityI)
      fix i assume "i < length [unat (st_base_ptr st + lo)..<unat (st_base_ptr st + lo) + unat n]"
      then have i: "i < unat n" by simp
      with sink_addr_run [OF "1.prems"(1,2) st, of "unat cursor + i"] n room addr0
      show "[unat (st_base_ptr st + lo)..<unat (st_base_ptr st + lo) + unat n] ! i =
          map (sink_addr sts) [unat cursor..<unat cursor + unat n] ! i" by simp
    qed simp
    then have "concat (map window_bytes (?w # ws)) = [unat cursor..<unat cursor + unat remaining]"
      "concat (map window_addrs (?w # ws)) = map (sink_addr sts) [unat cursor..<unat cursor + unat remaining]"
      using ws(2,3) join by (simp_all add: window_bytes_def window_addrs_def flip: map_append)
    moreover have "grant_windows sts cursor remaining = Inr (?w # ws)"
      using False st ws(1) by (simp add: grant_windows.simps [of sts cursor remaining] Let_def flip: lo_def n_def)
    ultimately show ?thesis using ws(4) n by (intro exI [of _ "?w # ws"]) auto
  qed (simp add: grant_windows.simps)
qed

definition grantable :: "TargetLayoutHostSink \<Rightarrow> VaRange list \<Rightarrow> bool" where
  "grantable s ranges \<longleftrightarrow> (\<Sum>r\<leftarrow>ranges. unat (va_length r)) < 2 ^ 64 \<and>
     list_all (\<lambda>r. va_length r = 0 \<or> unat (va_offset r) + unat (va_length r) \<le> unat (total_size s)) ranges"

lemma plan_ranges_loop_exact:
  assumes "host_sink_ok s"
  shows "(case plan_ranges_loop s requested ranges of
      Inl _ \<Rightarrow> \<not> (unat requested + (\<Sum>r\<leftarrow>ranges. unat (va_length r)) < 2 ^ 64 \<and>
        list_all (\<lambda>r. va_length r = 0 \<or> unat (va_offset r) + unat (va_length r) \<le> unat (total_size s)) ranges)
    | Inr ws \<Rightarrow> unat requested + (\<Sum>r\<leftarrow>ranges. unat (va_length r)) < 2 ^ 64 \<and>
        list_all (\<lambda>r. va_length r = 0 \<or> unat (va_offset r) + unat (va_length r) \<le> unat (total_size s)) ranges \<and>
        concat (map window_bytes ws) = concat (map range_bytes ranges) \<and>
        concat (map window_addrs ws) = map (sink_addr (storage_states s)) (concat (map range_bytes ranges)))"
  using assms
proof (induction s requested ranges rule: plan_ranges_loop.induct)
  case (1 s requested)
  show ?case using unat_u64_bound [of requested] by simp
next
  case (2 s requested r rest)
  let ?len = "unat (va_length r)" and ?off = "unat (va_offset r)" and ?req = "unat requested"
  note t = unat_u64_bound [of "total_size s"]
  show ?case
  proof (cases "va_length r = 0 \<or> 2 ^ 64 \<le> ?req + ?len \<or> unat (total_size s) < ?off + ?len")
    case True
    then consider "va_length r = 0" | "va_length r \<noteq> 0" "2 ^ 64 \<le> ?req + ?len"
      | "va_length r \<noteq> 0" "?req + ?len < 2 ^ 64" "unat (total_size s) < ?off + ?len" by linarith
    then show ?thesis
    proof cases
      case 1
      with "2.IH"(1) "2.prems" show ?thesis by (simp add: range_bytes_def [of r] split: sum.splits)
    next
      case 2
      then show ?thesis by (simp add: u64_overflow_check)
    next
      case 3
      have "- 1 - va_length r < va_offset r \<or> total_size s < va_offset r + va_length r"
      proof (cases "?off + ?len < 2 ^ 64")
        case True
        with 3 show ?thesis using unat_u64_add [OF True] by (simp add: u64_simps)
      qed (simp add: u64_overflow_check add.commute)
      with 3 show ?thesis by (auto simp: u64_overflow_check)
    qed
  next
    case False
    then have ok: "va_length r \<noteq> 0" "?req + ?len < 2 ^ 64" "?off + ?len \<le> unat (total_size s)" by auto
    have "\<not> - 1 - requested < va_length r" "\<not> - 1 - va_length r < va_offset r"
      using ok t by (simp_all add: u64_overflow_check)
    moreover have "\<not> total_size s < va_offset r + va_length r"
      using ok unat_u64_add_le [OF ok(3)] by (simp add: u64_simps)
    ultimately have checks: "\<not> - 1 - requested < va_length r" "\<not> - 1 - va_length r < va_offset r"
      "\<not> total_size s < va_offset r + va_length r" by blast+
    have req: "unat (requested + va_length r) = ?req + ?len" by (rule unat_u64_add [OF ok(2)])
    from "2.prems" ok(3) grant_windows_exact [of "unat (total_size s)" "storage_states s" "va_offset r" "va_length r"] t
    obtain ws where ws: "grant_windows (storage_states s) (va_offset r) (va_length r) = Inr ws"
      "concat (map window_bytes ws) = range_bytes r"
      "concat (map window_addrs ws) = map (sink_addr (storage_states s)) (range_bytes r)"
      by (auto simp: host_sink_ok_def range_bytes_def)
    from "2.IH"(2) [OF ok(1) checks ws(1) "2.prems"] ok(1,3) checks ws req show ?thesis
      by (auto simp: add.assoc split: sum.splits)
  qed
qed

section \<open>Properties\<close>

text \<open>
  C33. What a positioned write does to a usable host sink, for every range: a write of no bytes
  does nothing; a range inside the target is written, changing exactly the bytes of that range
  to the bytes given, whatever storages the range crosses, and no address outside it, and the
  sink stays usable; any other range (past the end of the target, or wrapping around 64 bits) is
  refused before a byte is copied, and the sink refuses every later write with the same error.
\<close>

theorem host_write_exact:
  assumes "host_sink_ok s" "length bs < 2 ^ 64"
  shows "if bs = [] then host_write_at s off bs = (s, ok_status)
    else if unat off + length bs \<le> unat (total_size s)
    then \<exists>s'. host_write_at s off bs = (s', ok_status) \<and> host_sink_ok s' \<and>
      map (host_byte s') [0..<unat (total_size s)] =
        map (host_byte s) [0..<unat off] @ bs @ map (host_byte s) [unat off + length bs..<unat (total_size s)] \<and>
      {a. sink_memory s' a \<noteq> sink_memory s a} \<subseteq> sink_addr (storage_states s) ` {unat off..<unat off + length bs}
    else \<exists>e. host_write_at s off bs = (s\<lparr>overall_status := Inl e\<rparr>, Inl e) \<and>
      host_write_at (s\<lparr>overall_status := Inl e\<rparr>) off' bs' = (s\<lparr>overall_status := Inl e\<rparr>, Inl e)"
proof -
  have ok: "overall_status s = ok_status" "states_tile 0 (unat (total_size s)) (storage_states s)"
    using assms(1) by (simp_all add: host_sink_ok_def)
  consider "bs = []" | "bs \<noteq> []" "unat off + length bs \<le> unat (total_size s)"
    | "bs \<noteq> []" "\<not> unat off + length bs \<le> unat (total_size s)" by blast
  then show ?thesis
  proof cases
    case 1
    with ok show ?thesis by (simp add: host_write_at_def)
  next
    case 2
    from host_write_at_in_range [OF assms(1) 2(2)] obtain s' where s': "host_write_at s off bs = (s', ok_status)"
      "host_sink_ok s'" "\<And>d. d < unat (total_size s) \<Longrightarrow> host_byte s' d =
        (if unat off \<le> d \<and> d < unat off + length bs then bs ! (d - unat off) else host_byte s d)" by blast
    with run_bytes [OF 2(2) s'(3)] host_write_at_frame [OF ok(2) 2(2) s'(1)] show ?thesis
      unfolding if_not_P [OF 2(1)] if_P [OF 2(2)] by blast
  next
    case 3
    from host_write_at_refused [OF ok(1) 3(1) assms(2) 3(2)]
    obtain e where "host_write_at s off bs = (s\<lparr>overall_status := Inl e\<rparr>, Inl e)" by blast
    moreover have "host_write_at (s\<lparr>overall_status := Inl e\<rparr>) off' bs' = (s\<lparr>overall_status := Inl e\<rparr>, Inl e)"
      by (simp add: host_write_at_def)
    ultimately show ?thesis unfolding if_not_P [OF 3(1)] if_not_P [OF 3(2)] by blast
  qed
qed

text \<open>
  C34. A direct-write grant is given exactly when every non-empty range lies inside the target
  and the requested bytes do not overflow; its windows then list the requested bytes in order,
  each at the address where \<open>write_at\<close> stores it.
\<close>

theorem direct_write_grant_exact:
  assumes "host_sink_ok s"
  shows "case host_plan_direct_write s ranges of
      Inl _ \<Rightarrow> \<not> grantable s ranges
    | Inr ws \<Rightarrow> grantable s ranges \<and>
        concat (map window_bytes ws) = concat (map range_bytes ranges) \<and>
        concat (map window_addrs ws) = map (sink_addr (storage_states s)) (concat (map range_bytes ranges))"
  using assms plan_ranges_loop_exact [OF assms, of 0 ranges]
  by (simp add: host_plan_direct_write_def host_sink_ok_def grantable_def split: sum.splits)

definition ex_storages :: "HostTargetStorage list" where
  "ex_storages = [\<lparr>hs_base_ptr = 100, hs_length = 2, hs_stable_backing = None\<rparr>,
     \<lparr>hs_base_ptr = 40, hs_length = 0, hs_stable_backing = None\<rparr>,
     \<lparr>hs_base_ptr = 50, hs_length = 3, hs_stable_backing = None\<rparr>]"

lemma ex_storages_ok: "layout_ok ex_storages"
  by (auto simp: layout_ok_def ex_storages_def storage_span_def)

theorem host_write_exact_witness:
  "(\<exists>s'. host_write_at (new_host_sink (\<lambda>_. 0) ex_storages) 1 [7, 8] = (s', ok_status) \<and>
      map (host_byte s') [0..<5] = [0, 7, 8, 0, 0]) \<and>
   (\<exists>e. host_write_at (new_host_sink (\<lambda>_. 0) ex_storages) 4 [7, 8] =
      ((new_host_sink (\<lambda>_. 0) ex_storages)\<lparr>overall_status := Inl e\<rparr>, Inl e))"
proof -
  let ?s = "new_host_sink (\<lambda>_. 0) ex_storages"
  have ok: "host_sink_ok ?s" by (rule new_host_sink_ok(1) [OF ex_storages_ok])
  have five: "unat (total_size ?s) = 5" unfolding new_host_sink_ok(2) [OF ex_storages_ok] by (simp add: ex_storages_def)
  have zero: "host_byte ?s d = 0" for d
    by (simp add: host_byte_def new_host_sink_def split: prod.split sum.split)
  have len: "length [7 :: u8, 8] < 2 ^ 64" by simp
  have fits: "unat (1 :: u64) + length [7 :: u8, 8] \<le> unat (total_size ?s)" by (simp add: five)
  obtain s' where s': "host_write_at ?s 1 [7, 8] = (s', ok_status)"
    "map (host_byte s') [0..<unat (total_size ?s)] = map (host_byte ?s) [0..<unat (1 :: u64)] @ [7, 8] @
      map (host_byte ?s) [unat (1 :: u64) + length [7 :: u8, 8]..<unat (total_size ?s)]"
    using host_write_exact [OF ok len, of 1, unfolded if_not_P [OF list.distinct(2)] if_P [OF fits]] by blast
  from s'(2) have bytes: "map (host_byte s') [0..<5] = [0, 7, 8, 0, 0]" unfolding five by (simp add: zero upt_rec)
  have high: "\<not> unat (4 :: u64) + length [7 :: u8, 8] \<le> unat (total_size ?s)" by (simp add: five)
  have "\<exists>e. host_write_at ?s 4 [7, 8] = (?s\<lparr>overall_status := Inl e\<rparr>, Inl e)"
    using host_write_exact [OF ok len, of 4, unfolded if_not_P [OF list.distinct(2)] if_not_P [OF high]] by blast
  with s'(1) bytes show ?thesis by (intro conjI exI [of _ s'])
qed

theorem direct_write_grant_exact_witness:
  "case host_plan_direct_write (new_host_sink (\<lambda>_. 0) ex_storages) [\<lparr>va_offset = 1, va_length = 2\<rparr>] of
     Inl _ \<Rightarrow> False
   | Inr ws \<Rightarrow> concat (map window_bytes ws) = [1, 2] \<and> concat (map window_addrs ws) = [101, 50]"
proof -
  let ?s = "new_host_sink (\<lambda>_. 0) ex_storages" and ?r = "[\<lparr>va_offset = 1, va_length = 2\<rparr> :: VaRange]"
  have ok: "host_sink_ok ?s" by (rule new_host_sink_ok(1) [OF ex_storages_ok])
  have "total_size ?s = 5" by code_simp
  then have g: "grantable ?s ?r" by (simp add: grantable_def)
  have r: "concat (map range_bytes ?r) = [1, 2]" by (simp add: range_bytes_def upt_rec)
  have a: "map (sink_addr (storage_states ?s)) [1, 2] = [101, 50]" by code_simp
  from direct_write_grant_exact [OF ok, of ?r] g show ?thesis unfolding r a by (auto split: sum.splits)
qed

end
