(* ===== verification/Window_Scheduler.thy ===== *)
theory Window_Scheduler
  imports Byte_Range_Map Sources_Sinks "HOL-Library.Product_Lexorder"
begin

text \<open>
  Source-ordered execution of a byte-range map
  (\<open>core/store/materialization/dataplane/sources/source_window_scheduler.cc\<close>): the data
  segments are sorted by source position, merged into windows, cut to the window cap, read
  window by window and written slice by slice; padding is written as zeros. The unpinned path
  is modelled whole; the pinned path up to its preconditions, its transfer is an argument that
  \<open>Pinned_Scheduler\<close> fills in. The theorems show that a run over
  complete sources and a working sink leaves exactly the bytes the map means, and how much it
  reads for that.
\<close>

section \<open>Data\<close>

record WindowSlice =
  sl_src_offset :: u64
  sl_dst_offset :: u64
  sl_length :: u64

record SourceWindow =
  w_source_index :: u32
  w_src_offset :: u64
  w_length :: u64
  w_payload_bytes :: u64
  w_slices :: "WindowSlice list"

record SourceSegment =
  ss_source_index :: u32
  ss_src_offset :: u64
  ss_dst_offset :: u64
  ss_length :: u64

record Options =
  merge_max_gap_bytes :: u64
  merge_max_amplification :: u32
  prefetch_depth :: u32
  window_cap_bytes :: u64

definition source_window_scheduler :: "Options \<Rightarrow> Options" where
  "source_window_scheduler opts = (if prefetch_depth opts = 0 then opts\<lparr>prefetch_depth := 1\<rparr> else opts)"

section \<open>Windows\<close>

definition amplification_within_limit :: "u64 \<Rightarrow> u64 \<Rightarrow> u32 \<Rightarrow> bool" where
  "amplification_within_limit win_bytes payload_bytes max_amplification \<longleftrightarrow>
     payload_bytes \<noteq> 0 \<and> max_amplification \<noteq> 0 \<and>
     payload_bytes \<le> - 1 div ucast max_amplification \<and>
     win_bytes \<le> ucast max_amplification * payload_bytes"

primrec validate_sources :: "SourceSegment list \<Rightarrow> SeekableSource list \<Rightarrow> status" where
  "validate_sources [] sources = ok_status"
| "validate_sources (seg # rest) sources =
     (if ss_length seg = 0 then validate_sources rest sources
      else if length sources \<le> unat (ss_source_index seg)
      then Inl (Err InvalidArgument ''source index out of range for source-ordered scheduler'')
      else let tot = src_total (sources ! unat (ss_source_index seg)) in
           if tot < ss_src_offset seg \<or> tot - ss_src_offset seg < ss_length seg
           then Inl (Err InvalidArgument ''source-ordered scheduler segment out of bounds'')
           else validate_sources rest sources)"

definition slice_of :: "SourceSegment \<Rightarrow> WindowSlice" where
  "slice_of seg = \<lparr>sl_src_offset = ss_src_offset seg, sl_dst_offset = ss_dst_offset seg, sl_length = ss_length seg\<rparr>"

definition start_window :: "SourceSegment \<Rightarrow> SourceWindow" where
  "start_window seg = \<lparr>w_source_index = ss_source_index seg, w_src_offset = ss_src_offset seg,
     w_length = ss_length seg, w_payload_bytes = ss_length seg, w_slices = [slice_of seg]\<rparr>"

definition window_end :: "SourceWindow \<Rightarrow> u64" where
  "window_end w = w_src_offset w + w_length w"

definition extend_window :: "SourceWindow \<Rightarrow> SourceSegment \<Rightarrow> SourceWindow" where
  "extend_window w seg = w\<lparr>w_length := ss_src_offset seg + ss_length seg - w_src_offset w,
     w_payload_bytes := w_payload_bytes w + ss_length seg, w_slices := w_slices w @ [slice_of seg]\<rparr>"

definition window_accepts :: "Options \<Rightarrow> SourceWindow \<Rightarrow> SourceSegment \<Rightarrow> bool" where
  "window_accepts opts w seg \<longleftrightarrow>
     ss_src_offset seg - window_end w \<le> merge_max_gap_bytes opts \<and>
     amplification_within_limit (ss_src_offset seg + ss_length seg - w_src_offset w)
       (w_payload_bytes w + ss_length seg) (merge_max_amplification opts)"

text \<open>
  The merging loop. \<open>current_end\<close> of the code is \<open>src_offset + length\<close> of the current window
  throughout. Windows already flushed come back in order.
\<close>

fun build_windows :: "Options \<Rightarrow> SourceWindow option \<Rightarrow> SourceSegment list \<Rightarrow> SourceWindow list status_or" where
  "build_windows opts None [] = Inr []"
| "build_windows opts (Some w) [] = Inr [w]"
| "build_windows opts None (seg # rest) = build_windows opts (Some (start_window seg)) rest"
| "build_windows opts (Some w) (seg # rest) =
     (if ss_source_index seg \<noteq> w_source_index w
      then map_sum id ((#) w) (build_windows opts (Some (start_window seg)) rest)
      else if ss_src_offset seg < window_end w
      then Inl (Err InvalidArgument ''source-ordered scheduler found overlapping segments'')
      else if window_accepts opts w seg
      then build_windows opts (Some (extend_window w seg)) rest
      else map_sum id ((#) w) (build_windows opts (Some (start_window seg)) rest))"

section \<open>Cutting windows to the cap\<close>

definition cut_slice :: "u64 \<Rightarrow> u64 \<Rightarrow> WindowSlice \<Rightarrow> WindowSlice list" where
  "cut_slice chunk_start chunk_end sl =
     (let overlap_start = max (sl_src_offset sl) chunk_start;
          overlap_end = min (sl_src_offset sl + sl_length sl) chunk_end
      in if overlap_end \<le> overlap_start then []
         else [\<lparr>sl_src_offset = overlap_start,
                sl_dst_offset = sl_dst_offset sl + (overlap_start - sl_src_offset sl),
                sl_length = overlap_end - overlap_start\<rparr>])"

definition cut_chunk :: "u64 \<Rightarrow> SourceWindow \<Rightarrow> u64 \<Rightarrow> SourceWindow" where
  "cut_chunk cap win chunk_start =
     (let chunk_end = min (chunk_start + cap) (window_end win);
          slices = concat (map (cut_slice chunk_start chunk_end) (w_slices win))
      in \<lparr>w_source_index = w_source_index win, w_src_offset = chunk_start,
          w_length = chunk_end - chunk_start,
          w_payload_bytes = sum_list (map sl_length slices), w_slices = slices\<rparr>)"

text \<open>
  The loop of \<open>split_windows\<close>. \<open>chunk_start += cap_bytes\<close> wraps, so the loop need not end:
  not ending is \<open>None\<close>.
\<close>

partial_function (option) split_loop :: "u64 \<Rightarrow> SourceWindow \<Rightarrow> u64 \<Rightarrow> SourceWindow list option" where [code]:
  "split_loop cap win chunk_start =
     (if chunk_start < window_end win then
        Option.bind (split_loop cap win (chunk_start + cap))
          (\<lambda>rest. let chunk = cut_chunk cap win chunk_start
                  in Some (if 0 < w_payload_bytes chunk then chunk # rest else rest))
      else Some [])"

fun split_windows :: "u64 \<Rightarrow> SourceWindow list \<Rightarrow> SourceWindow list option" where
  "split_windows cap [] = Some []"
| "split_windows cap (win # rest) =
     (case (if cap = 0 \<or> w_length win \<le> cap then Some [win] else split_loop cap win (w_src_offset win)) of
        None \<Rightarrow> None
      | Some ws \<Rightarrow> map_option ((@) ws) (split_windows cap rest))"

section \<open>Execution\<close>

text \<open>Padding: zeros in chunks of at most \<open>zero_chunk_bytes\<close>, which is never 0.\<close>

function write_zeros :: "('s \<Rightarrow> u64 \<Rightarrow> u8 list \<Rightarrow> 's \<times> status) \<Rightarrow> u64 \<Rightarrow> u64 \<Rightarrow> u64 \<Rightarrow> 's \<Rightarrow> 's \<times> status" where
  "write_zeros write_at zero_chunk cursor remaining s =
     (if remaining = 0 \<or> zero_chunk = 0 then (s, ok_status)
      else let chunk = min remaining zero_chunk in
        (case write_at s cursor (replicate (unat chunk) 0) of
           (s', Inl e) \<Rightarrow> (s', Inl e)
         | (s', Inr _) \<Rightarrow> write_zeros write_at zero_chunk (cursor + chunk) (remaining - chunk) s'))"
  by pat_completeness auto
termination
proof (relation "measure (\<lambda>(w, z, c, r, s). unat r)")
  fix w :: "'s \<Rightarrow> u64 \<Rightarrow> u8 list \<Rightarrow> 's \<times> status" and z c r :: u64 and s s' :: 's and x y xb
  assume a: "\<not> (r = 0 \<or> z = 0)" "x = min r z" "(xb, y) = w s c (replicate (unat x) 0)"
  then have "x \<le> r" "0 < unat x" by (auto simp: unat_min unat_gt_0)
  then show "((w, z, c + x, r - x, xb), w, z, c, r, s) \<in> measure (\<lambda>(w, z, c, r, s). unat r)"
    using unat_u64_sub [of x r] by (simp add: u64_simps)
qed simp

declare write_zeros.simps [simp del]

definition zero_chunk_bytes :: "Options \<Rightarrow> u64" where
  "zero_chunk_bytes opts = (if 0 < window_cap_bytes opts then window_cap_bytes opts else push_bit 20 1)"

primrec write_pads :: "('s \<Rightarrow> u64 \<Rightarrow> u8 list \<Rightarrow> 's \<times> status) \<Rightarrow> u64 \<Rightarrow> ByteRangeSegment list \<Rightarrow> 's \<Rightarrow> 's \<times> status" where
  "write_pads write_at zero_chunk [] s = (s, ok_status)"
| "write_pads write_at zero_chunk (pad # rest) s =
     (case write_zeros write_at zero_chunk (dst_offset pad) (seg_length pad) s of
        (s', Inl e) \<Rightarrow> (s', Inl e)
      | (s', Inr _) \<Rightarrow> write_pads write_at zero_chunk rest s')"

primrec write_slices ::
  "('s \<Rightarrow> u64 \<Rightarrow> u8 list \<Rightarrow> 's \<times> status) \<Rightarrow> u64 \<Rightarrow> u8 list \<Rightarrow> WindowSlice list \<Rightarrow> 's \<Rightarrow> 's \<times> status"
where
  "write_slices write_at base buf [] s = (s, ok_status)"
| "write_slices write_at base buf (sl # rest) s =
     (case write_at s (sl_dst_offset sl)
             (take (unat (sl_length sl)) (drop (unat (sl_src_offset sl - base)) buf)) of
        (s', Inl e) \<Rightarrow> (s', Inl e)
      | (s', Inr _) \<Rightarrow> write_slices write_at base buf rest s')"

primrec run_windows ::
  "('s \<Rightarrow> u64 \<Rightarrow> u8 list \<Rightarrow> 's \<times> status) \<Rightarrow> SeekableSource list \<Rightarrow> SourceWindow list \<Rightarrow> 's \<Rightarrow> 's \<times> status"
where
  "run_windows write_at sources [] s = (s, ok_status)"
| "run_windows write_at sources (w # rest) s =
     (case src_read_at (sources ! unat (w_source_index w)) (w_src_offset w) (w_length w) of
        Inl e \<Rightarrow> (s, Inl e)
      | Inr buf \<Rightarrow>
        if length buf \<noteq> unat (w_length w)
        then (s, Inl (Err DataLoss ''short read while executing source-ordered window''))
        else (case write_slices write_at (w_src_offset w) buf (w_slices w) s of
                (s', Inl e) \<Rightarrow> (s', Inl e)
              | (s', Inr _) \<Rightarrow> run_windows write_at sources rest s'))"

definition data_segments :: "ByteRangeSegment list \<Rightarrow> SourceSegment list" where
  "data_segments segs =
     map (\<lambda>seg. \<lparr>ss_source_index = source_index seg, ss_src_offset = src_offset seg,
                 ss_dst_offset = dst_offset seg, ss_length = seg_length seg\<rparr>)
       (filter (\<lambda>seg. seg_length seg \<noteq> 0 \<and> kind seg \<noteq> kPad) segs)"

definition pad_segments :: "ByteRangeSegment list \<Rightarrow> ByteRangeSegment list" where
  "pad_segments segs = filter (\<lambda>seg. seg_length seg \<noteq> 0 \<and> kind seg = kPad) segs"

text \<open>The comparison of the sort: source index first, then source offset.\<close>

definition source_order :: "SourceSegment \<Rightarrow> u32 \<times> u64" where
  "source_order seg = (ss_source_index seg, ss_src_offset seg)"

text \<open>
  \<open>Execute\<close>, over the sort it calls. The pinned path fails on its preconditions before any
  window is read; the transfer beyond them is the argument \<open>pinned\<close>. \<open>None\<close> is a call that does not
  return.
\<close>

record pinned_request =
  use_pinned_buffers :: bool
  has_pinned_pool :: bool
  pool_slice_bytes :: u64

definition pinned_precondition :: "Options \<Rightarrow> pinned_request \<Rightarrow> status" where
  "pinned_precondition opts pr =
     (if \<not> has_pinned_pool pr
      then Inl (Err FailedPrecondition ''pinned_pool is required for pinned source-ordered scheduling'')
      else if window_cap_bytes opts = 0
      then Inl (Err FailedPrecondition ''window_cap_bytes must be > 0 for pinned source-ordered scheduling'')
      else if pool_slice_bytes pr = 0
      then Inl (Err FailedPrecondition ''pinned_pool slice_bytes is zero'')
      else if pool_slice_bytes pr < window_cap_bytes opts
      then Inl (Err FailedPrecondition ''window_cap_bytes exceeds pinned_pool slice_bytes'')
      else ok_status)"

definition plan_windows ::
  "(SourceSegment list \<Rightarrow> SourceSegment list) \<Rightarrow> Options \<Rightarrow> SeekableSource list \<Rightarrow> ByteRangeSegment list \<Rightarrow>
   SourceWindow list status_or option"
where
  "plan_windows srt opts sources segs =
     (let sorted_segs = srt (data_segments segs) in
      case validate_sources sorted_segs sources of
        Inl e \<Rightarrow> Some (Inl e)
      | Inr _ \<Rightarrow>
        (case build_windows opts None sorted_segs of
           Inl e \<Rightarrow> Some (Inl e)
         | Inr ws \<Rightarrow> map_option Inr (split_windows (window_cap_bytes opts) ws)))"

definition execute_map ::
  "(SourceSegment list \<Rightarrow> SourceSegment list) \<Rightarrow> ('s \<Rightarrow> u64 \<Rightarrow> u8 list \<Rightarrow> 's \<times> status) \<Rightarrow>
   (SourceWindow list \<Rightarrow> 's \<Rightarrow> ('s \<times> status) option) \<Rightarrow> Options \<Rightarrow> pinned_request \<Rightarrow>
   ByteRangeMap \<Rightarrow> SeekableSource list \<Rightarrow> 's \<Rightarrow> ('s \<times> status) option"
where
  "execute_map srt write_at pinned opts pr m sources s =
     (case normalize_byte_range_map m of
        Inl e \<Rightarrow> Some (s, Inl e)
      | Inr normalized \<Rightarrow>
        (case plan_windows srt opts sources (segments normalized) of
           None \<Rightarrow> None
         | Some (Inl e) \<Rightarrow> Some (s, Inl e)
         | Some (Inr windows) \<Rightarrow>
           (case write_pads write_at (zero_chunk_bytes opts) (pad_segments (segments normalized)) s of
              (s1, Inl e) \<Rightarrow> Some (s1, Inl e)
            | (s1, Inr _) \<Rightarrow>
                if use_pinned_buffers pr then
                  (case pinned_precondition opts pr of
                     Inl e \<Rightarrow> Some (s1, Inl e)
                   | Inr _ \<Rightarrow> pinned windows s1)
                else Some (run_windows write_at sources windows s1))))"
section \<open>Slices of a window\<close>

text \<open>Slices in order, without overlap, between two source positions.\<close>

primrec slices_in :: "nat \<Rightarrow> nat \<Rightarrow> WindowSlice list \<Rightarrow> bool" where
  "slices_in lo hi [] \<longleftrightarrow> lo \<le> hi"
| "slices_in lo hi (sl # rest) \<longleftrightarrow> lo \<le> unat (sl_src_offset sl) \<and> 0 < unat (sl_length sl) \<and>
     slices_in (unat (sl_src_offset sl) + unat (sl_length sl)) hi rest"

lemma slices_in_le: "slices_in lo hi sls \<Longrightarrow> lo \<le> hi"
  by (induction sls arbitrary: lo) fastforce+

lemma slices_in_weaken: "slices_in lo hi sls \<Longrightarrow> lo' \<le> lo \<Longrightarrow> hi \<le> hi' \<Longrightarrow> slices_in lo' hi' sls"
  by (induction sls arbitrary: lo lo') auto

lemma slices_in_bounds:
  "slices_in lo hi sls \<Longrightarrow> sl \<in> set sls \<Longrightarrow>
     lo \<le> unat (sl_src_offset sl) \<and> 0 < unat (sl_length sl) \<and> unat (sl_src_offset sl) + unat (sl_length sl) \<le> hi"
  by (induction sls arbitrary: lo) (fastforce dest: slices_in_le)+

lemma slices_in_sum: "slices_in lo hi sls \<Longrightarrow> lo + (\<Sum>sl\<leftarrow>sls. unat (sl_length sl)) \<le> hi"
  by (induction sls arbitrary: lo) fastforce+

lemma slices_in_snoc:
  "slices_in lo mid sls \<Longrightarrow> mid \<le> unat (sl_src_offset sl) \<Longrightarrow> 0 < unat (sl_length sl) \<Longrightarrow>
     slices_in lo (unat (sl_src_offset sl) + unat (sl_length sl)) (sls @ [sl])"
  by (induction sls arbitrary: lo) auto

lemma unat_sum_list_u64:
  "(\<Sum>x\<leftarrow>xs. unat (f x)) < 2 ^ 64 \<Longrightarrow> unat (\<Sum>x\<leftarrow>xs. f x :: u64) = (\<Sum>x\<leftarrow>xs. unat (f x))"
  by (induction xs) (auto simp: unat_u64_add)

text \<open>
  A window in order: its slices lie in it, its payload is their total length, and it was merged
  within the amplification limit.
\<close>

definition window_ok :: "Options \<Rightarrow> SeekableSource list \<Rightarrow> SourceWindow \<Rightarrow> bool" where
  "window_ok opts sources w \<longleftrightarrow>
     unat (w_source_index w) < length sources \<and>
     unat (w_src_offset w) + unat (w_length w) \<le> unat (src_total (sources ! unat (w_source_index w))) \<and>
     slices_in (unat (w_src_offset w)) (unat (w_src_offset w) + unat (w_length w)) (w_slices w) \<and>
     unat (w_payload_bytes w) = (\<Sum>sl\<leftarrow>w_slices w. unat (sl_length sl)) \<and>
     unat (w_length w) \<le> max 1 (unat (merge_max_amplification opts)) * unat (w_payload_bytes w)"

lemma window_end_unat: "window_ok opts sources w \<Longrightarrow> unat (window_end w) = unat (w_src_offset w) + unat (w_length w)"
  unfolding window_end_def window_ok_def by (blast intro: unat_u64_add_le)

definition segment_in_source :: "SeekableSource list \<Rightarrow> SourceSegment \<Rightarrow> bool" where
  "segment_in_source sources seg \<longleftrightarrow> unat (ss_source_index seg) < length sources \<and>
     unat (ss_src_offset seg) + unat (ss_length seg) \<le> unat (src_total (sources ! unat (ss_source_index seg)))"

lemma validate_sources_iff:
  assumes "\<forall>seg\<in>set segs. ss_length seg \<noteq> 0"
  shows "is_ok (validate_sources segs sources) \<longleftrightarrow> (\<forall>seg\<in>set segs. segment_in_source sources seg)"
  using assms
proof (induction segs)
  case (Cons seg rest)
  let ?t = "src_total (sources ! unat (ss_source_index seg))"
  have "(?t < ss_src_offset seg \<or> ?t - ss_src_offset seg < ss_length seg) \<longleftrightarrow>
      unat ?t < unat (ss_src_offset seg) + unat (ss_length seg)"
  proof (cases "ss_src_offset seg \<le> ?t")
    case True
    from unat_u64_sub [OF this] True show ?thesis by (auto simp: u64_simps)
  qed (auto simp: u64_simps)
  with Cons show ?case by (auto simp: segment_in_source_def Let_def not_less not_le)
qed simp

lemma start_window_ok:
  assumes "segment_in_source sources seg" "ss_length seg \<noteq> 0"
  shows "window_ok opts sources (start_window seg)"
  using assms
  by (auto simp: window_ok_def start_window_def slice_of_def segment_in_source_def unat_gt_0 max_def)

lemma div_limit:
  fixes p :: u64 and a :: u32
  assumes "a \<noteq> 0" "p \<le> - 1 div ucast a"
  shows "unat (ucast a * p :: u64) = unat a * unat p"
proof -
  have "unat p \<le> unat (- 1 div (ucast a :: u64))" using assms(2) by (simp only: word_le_nat_alt)
  also have "\<dots> = unat (- 1 :: u64) div unat a" by (simp only: unat_div unat_ucast_u32)
  finally have "unat a * unat p \<le> unat a * (unat (- 1 :: u64) div unat a)" by (rule mult_le_mono2)
  also have "\<dots> \<le> unat (- 1 :: u64)" by (rule times_div_less_eq_dividend)
  also have "\<dots> < 2 ^ 64" by (rule unat_u64_bound)
  finally show ?thesis using unat_u64_mult [of "ucast a" p] by (simp only: unat_ucast_u32)
qed

lemma amplification_bound:
  assumes "amplification_within_limit n p a"
  shows "unat n \<le> max 1 (unat a) * unat p"
proof -
  have a: "a \<noteq> 0" "p \<le> - 1 div ucast a" "n \<le> ucast a * p"
    using assms unfolding amplification_within_limit_def by blast+
  have "unat n \<le> unat (ucast a * p :: u64)" using a(3) by (simp only: word_le_nat_alt)
  also have "\<dots> = unat a * unat p" by (rule div_limit [OF a(1,2)])
  also have "\<dots> \<le> max 1 (unat a) * unat p" by simp
  finally show ?thesis .
qed

lemma extend_window_ok:
  assumes ok: "window_ok opts sources w" and seg: "segment_in_source sources seg" "ss_length seg \<noteq> 0"
    and same: "ss_source_index seg = w_source_index w" and after: "\<not> ss_src_offset seg < window_end w"
    and accepts: "window_accepts opts w seg"
  shows "window_ok opts sources (extend_window w seg)"
proof -
  note we = window_end_unat [OF ok]
  have le: "unat (w_src_offset w) + unat (w_length w) \<le> unat (ss_src_offset seg)"
    using after we by (simp add: u64_simps)
  have seg_end: "unat (ss_src_offset seg + ss_length seg) = unat (ss_src_offset seg) + unat (ss_length seg)"
    using seg(1) by (auto simp: segment_in_source_def intro: unat_u64_add_le)
  have len: "unat (ss_src_offset seg + ss_length seg - w_src_offset w) =
      unat (ss_src_offset seg) + unat (ss_length seg) - unat (w_src_offset w)"
    using le seg_end by (subst unat_u64_sub) (auto simp: u64_simps)
  have sl: "slices_in (unat (w_src_offset w)) (unat (ss_src_offset seg) + unat (ss_length seg))
      (w_slices w @ [slice_of seg])"
    using ok slices_in_snoc [of "unat (w_src_offset w)" _ "w_slices w" "slice_of seg"] le seg(2)
    by (fastforce simp: window_ok_def slice_of_def unat_gt_0)
  have total: "unat (w_payload_bytes w) + unat (ss_length seg) \<le>
      unat (ss_src_offset seg) + unat (ss_length seg) - unat (w_src_offset w)"
    using slices_in_sum [OF sl] ok by (simp add: window_ok_def slice_of_def)
  then have pay: "unat (w_payload_bytes w + ss_length seg) = unat (w_payload_bytes w) + unat (ss_length seg)"
    using len by (intro unat_u64_add_le [of _ _ "ss_src_offset seg + ss_length seg - w_src_offset w"]) simp
  have "unat (ss_src_offset seg + ss_length seg - w_src_offset w) \<le>
      max 1 (unat (merge_max_amplification opts)) * unat (w_payload_bytes w + ss_length seg)"
    using accepts by (intro amplification_bound) (simp add: window_accepts_def)
  with ok seg same sl le len pay show ?thesis
    by (auto simp: window_ok_def extend_window_def segment_in_source_def slice_of_def)
qed

section \<open>The windows built\<close>

definition tagged :: "SourceWindow list \<Rightarrow> (u32 \<times> WindowSlice) list" where
  "tagged ws = concat (map (\<lambda>w. map (Pair (w_source_index w)) (w_slices w)) ws)"

lemma tagged_simps [simp]:
  "tagged [] = []"
  "tagged (w # ws) = map (Pair (w_source_index w)) (w_slices w) @ tagged ws"
  "tagged (ws @ vs) = tagged ws @ tagged vs"
  by (simp_all add: tagged_def)

lemma tagged_start: "tagged [start_window seg] = [(ss_source_index seg, slice_of seg)]"
  by (simp add: start_window_def)

lemma tagged_extend:
  "ss_source_index seg = w_source_index w \<Longrightarrow>
     tagged [extend_window w seg] = tagged [w] @ [(ss_source_index seg, slice_of seg)]"
  by (simp add: extend_window_def)

lemma build_windows_some:
  assumes "build_windows opts (Some w) segs = Inr ws" "window_ok opts sources w"
    and "\<forall>seg\<in>set segs. segment_in_source sources seg \<and> ss_length seg \<noteq> 0"
  shows "(\<forall>w\<in>set ws. window_ok opts sources w) \<and>
    tagged ws = tagged [w] @ map (\<lambda>seg. (ss_source_index seg, slice_of seg)) segs"
  using assms
proof (induction segs arbitrary: w ws)
  case (Cons seg rest)
  have good: "\<forall>seg\<in>set rest. segment_in_source sources seg \<and> ss_length seg \<noteq> 0" using Cons.prems(3) by simp
  consider (new) ws' where "ws = w # ws'" "build_windows opts (Some (start_window seg)) rest = Inr ws'"
    | (merge) "build_windows opts (Some (extend_window w seg)) rest = Inr ws" "ss_source_index seg = w_source_index w"
      "\<not> ss_src_offset seg < window_end w" "window_accepts opts w seg"
    using Cons.prems(1) by (auto simp: map_sum_eq_Inr split: if_splits)
  then show ?case
  proof cases
    case new
    have "window_ok opts sources (start_window seg)" using Cons.prems(3) by (intro start_window_ok) auto
    from Cons.IH [OF new(2) this good] new(1) Cons.prems(2) tagged_start [of seg] show ?thesis by simp
  next
    case merge
    have "window_ok opts sources (extend_window w seg)"
      using merge Cons.prems(2,3) by (intro extend_window_ok) auto
    from Cons.IH [OF merge(1) this good] tagged_extend [OF merge(2)] show ?thesis by simp
  qed
qed simp

lemma build_windows_ok:
  assumes "build_windows opts None segs = Inr ws"
    and "\<forall>seg\<in>set segs. segment_in_source sources seg \<and> ss_length seg \<noteq> 0"
  shows "(\<forall>w\<in>set ws. window_ok opts sources w) \<and>
    tagged ws = map (\<lambda>seg. (ss_source_index seg, slice_of seg)) segs"
proof (cases segs)
  case (Cons seg rest)
  have "window_ok opts sources (start_window seg)" using assms(2) Cons by (intro start_window_ok) auto
  with build_windows_some [of opts "start_window seg" rest ws sources] assms Cons tagged_start [of seg]
  show ?thesis by simp
qed (use assms in simp)
section \<open>The windows cut\<close>

text \<open>A part of a slice: the same shift in the source and in the destination.\<close>

definition sub_slice :: "WindowSlice \<Rightarrow> WindowSlice \<Rightarrow> bool" where
  "sub_slice sl sl0 \<longleftrightarrow> (\<exists>k. unat (sl_src_offset sl) = unat (sl_src_offset sl0) + k \<and>
     unat (sl_dst_offset sl) = unat (sl_dst_offset sl0) + k \<and> k + unat (sl_length sl) \<le> unat (sl_length sl0))"

definition slice_span :: "WindowSlice \<Rightarrow> nat set" where
  "slice_span sl = {unat (sl_src_offset sl)..<unat (sl_src_offset sl) + unat (sl_length sl)}"

definition slice_fits :: "WindowSlice \<Rightarrow> bool" where
  "slice_fits sl \<longleftrightarrow> unat (sl_src_offset sl) + unat (sl_length sl) < 2 ^ 64 \<and>
     unat (sl_dst_offset sl) + unat (sl_length sl) < 2 ^ 64"

lemma sub_slice_refl [simp]: "sub_slice sl sl"
  by (simp add: sub_slice_def)

lemma unat_max: "unat (max a b) = max (unat a) (unat (b :: u64))"
  by (simp add: max_def word_le_nat_alt)

lemma cut_slice_cases:
  fixes cs ce :: u64
  assumes "slice_fits sl"
  defines "a \<equiv> max (unat (sl_src_offset sl)) (unat cs)"
    and "b \<equiv> min (unat (sl_src_offset sl) + unat (sl_length sl)) (unat ce)"
  shows "b \<le> a \<and> cut_slice cs ce sl = [] \<or>
    a < b \<and> (\<exists>p. cut_slice cs ce sl = [p] \<and> unat (sl_src_offset p) = a \<and>
      unat (sl_dst_offset p) = unat (sl_dst_offset sl) + (a - unat (sl_src_offset sl)) \<and>
      unat (sl_length p) = b - a)"
proof -
  let ?s = "max (sl_src_offset sl) cs" and ?e = "min (sl_src_offset sl + sl_length sl) ce"
  have s: "unat ?s = a" by (simp add: a_def unat_max)
  have e: "unat ?e = b" using assms(1) by (simp add: b_def slice_fits_def unat_min unat_u64_add)
  show ?thesis
  proof (cases "b \<le> a")
    case False
    have len: "unat (?e - ?s) = b - a" using False s e unat_u64_sub [of ?s ?e] by (simp add: u64_simps)
    have "unat (?s - sl_src_offset sl) = a - unat (sl_src_offset sl)" using s unat_u64_sub [of "sl_src_offset sl" ?s] by simp
    moreover have "unat (sl_dst_offset sl) + (a - unat (sl_src_offset sl)) < 2 ^ 64"
      using assms(1) False by (auto simp: slice_fits_def a_def b_def)
    ultimately have dst: "unat (sl_dst_offset sl + (?s - sl_src_offset sl)) =
        unat (sl_dst_offset sl) + (a - unat (sl_src_offset sl))"
      using unat_u64_add [of "sl_dst_offset sl" "?s - sl_src_offset sl"] by simp
    have "\<not> ?e \<le> ?s" using False s e by (simp add: u64_simps)
    then have "cut_slice cs ce sl = [\<lparr>sl_src_offset = ?s, sl_dst_offset = sl_dst_offset sl + (?s - sl_src_offset sl),
        sl_length = ?e - ?s\<rparr>]" by (simp add: cut_slice_def Let_def)
    with False s len dst show ?thesis by simp
  next
    case True
    then have "?e \<le> ?s" using s e by (simp add: u64_simps)
    with True show ?thesis by (simp add: cut_slice_def Let_def)
  qed
qed

lemma cut_slice_sound:
  assumes "slice_fits sl" "p \<in> set (cut_slice cs ce sl)"
  shows "sub_slice p sl" "0 < unat (sl_length p)"
    "unat (sl_src_offset p) = max (unat (sl_src_offset sl)) (unat cs)"
    "unat (sl_src_offset p) + unat (sl_length p) = min (unat (sl_src_offset sl) + unat (sl_length sl)) (unat ce)"
proof -
  let ?a = "max (unat (sl_src_offset sl)) (unat cs)"
  let ?b = "min (unat (sl_src_offset sl) + unat (sl_length sl)) (unat ce)"
  have f: "?a < ?b" "unat (sl_src_offset p) = ?a" "unat (sl_length p) = ?b - ?a"
    "unat (sl_dst_offset p) = unat (sl_dst_offset sl) + (?a - unat (sl_src_offset sl))"
    using cut_slice_cases [OF assms(1), where cs = cs and ce = ce] assms(2) by auto
  show "sub_slice p sl" unfolding sub_slice_def f
    using f(1) by (intro exI [of _ "?a - unat (sl_src_offset sl)"]) auto
  show "0 < unat (sl_length p)" "unat (sl_src_offset p) = ?a" "unat (sl_src_offset p) + unat (sl_length p) = ?b"
    using f(1-3) by simp_all
qed

lemma cut_slice_cover:
  assumes "slice_fits sl" "x \<in> slice_span sl" "unat cs \<le> x" "x < unat ce"
  shows "\<exists>p. cut_slice cs ce sl = [p] \<and> x \<in> slice_span p \<and> sub_slice p sl"
proof -
  obtain p where p: "cut_slice cs ce sl = [p]"
    using cut_slice_cases [OF assms(1), where cs = cs and ce = ce] assms(2-4) by (auto simp: slice_span_def)
  with cut_slice_sound [OF assms(1), of p cs ce] assms(2-4) show ?thesis by (auto simp: slice_span_def)
qed

lemma cut_slices_in:
  assumes "slices_in lo hi sls" "\<forall>sl\<in>set sls. slice_fits sl" "unat cs \<le> unat ce"
  shows "slices_in (max (unat cs) (min lo (unat ce))) (unat ce) (concat (map (cut_slice cs ce) sls))"
  using assms
proof (induction sls arbitrary: lo)
  case (Cons sl rest)
  let ?e = "unat (sl_src_offset sl) + unat (sl_length sl)"
  have IH: "slices_in (max (unat cs) (min ?e (unat ce))) (unat ce) (concat (map (cut_slice cs ce) rest))"
    using Cons by simp
  show ?case
  proof (cases "cut_slice cs ce sl")
    case Nil
    with IH Cons.prems show ?thesis by (auto elim!: slices_in_weaken)
  next
    case (Cons p ps)
    then have p: "cut_slice cs ce sl = [p]" "p \<in> set (cut_slice cs ce sl)"
      by (auto simp: cut_slice_def Let_def split: if_splits)
    have fits: "slice_fits sl" using Cons.prems by simp
    note sound = cut_slice_sound [OF fits p(2)]
    with p sound(2) IH Cons.prems(1) show ?thesis by (auto simp: max_def min_def sound(3,4) split: if_splits)
  qed
qed simp

text \<open>A window cut from another: inside it, on the same source, its slices parts of the other's.\<close>

definition piece_of :: "SourceWindow \<Rightarrow> SourceWindow \<Rightarrow> bool" where
  "piece_of win w \<longleftrightarrow> w_source_index w = w_source_index win \<and>
     unat (w_src_offset win) \<le> unat (w_src_offset w) \<and>
     unat (w_src_offset w) + unat (w_length w) \<le> unat (w_src_offset win) + unat (w_length win) \<and>
     slices_in (unat (w_src_offset w)) (unat (w_src_offset w) + unat (w_length w)) (w_slices w) \<and>
     (\<forall>sl\<in>set (w_slices w). \<exists>sl0\<in>set (w_slices win). sub_slice sl sl0)"

definition covers_slices :: "SourceWindow \<Rightarrow> nat \<Rightarrow> SourceWindow list \<Rightarrow> bool" where
  "covers_slices win from ws \<longleftrightarrow> (\<forall>sl0\<in>set (w_slices win). \<forall>x\<in>slice_span sl0. from \<le> x \<longrightarrow>
     (\<exists>w\<in>set ws. \<exists>sl\<in>set (w_slices w). x \<in> slice_span sl \<and> sub_slice sl sl0))"

lemma cut_chunk_piece:
  assumes "slices_in (unat (w_src_offset win)) (unat (window_end win)) (w_slices win)"
    and "\<forall>sl\<in>set (w_slices win). slice_fits sl"
    and "unat (window_end win) = unat (w_src_offset win) + unat (w_length win)"
    and "unat (window_end win) + unat cap < 2 ^ 64"
    and "unat (w_src_offset win) \<le> unat cs" "unat cs < unat (window_end win)"
  shows "piece_of win (cut_chunk cap win cs)"
    and "unat (w_src_offset (cut_chunk cap win cs)) = unat cs"
    and "unat (w_length (cut_chunk cap win cs)) = min (unat cs + unat cap) (unat (window_end win)) - unat cs"
    and "0 < w_payload_bytes (cut_chunk cap win cs) \<longleftrightarrow> w_slices (cut_chunk cap win cs) \<noteq> []"
    and "\<And>sl0 x. sl0 \<in> set (w_slices win) \<Longrightarrow> x \<in> slice_span sl0 \<Longrightarrow> unat cs \<le> x \<Longrightarrow> x < unat cs + unat cap \<Longrightarrow>
      \<exists>sl\<in>set (w_slices (cut_chunk cap win cs)). x \<in> slice_span sl \<and> sub_slice sl sl0"
proof -
  let ?ce = "min (cs + cap) (window_end win)" and ?c = "cut_chunk cap win cs"
  have ce: "unat ?ce = min (unat cs + unat cap) (unat (window_end win))"
    using assms(4,6) by (simp add: unat_min unat_u64_add)
  have le: "unat cs \<le> unat ?ce" using assms(6) by (simp add: ce)
  then have len: "unat (?ce - cs) = unat ?ce - unat cs" by (intro unat_u64_sub) (simp add: u64_simps)
  have f: "w_source_index ?c = w_source_index win" "w_src_offset ?c = cs" "w_length ?c = ?ce - cs"
    "w_slices ?c = concat (map (cut_slice cs ?ce) (w_slices win))"
    "w_payload_bytes ?c = sum_list (map sl_length (w_slices ?c))"
    by (simp_all add: cut_chunk_def Let_def)
  have sin: "slices_in (unat cs) (unat ?ce) (w_slices ?c)"
    unfolding f using assms(5) by (intro slices_in_weaken [OF cut_slices_in [OF assms(1,2) le]]) simp_all
  show "unat (w_src_offset ?c) = unat cs"
    "unat (w_length ?c) = min (unat cs + unat cap) (unat (window_end win)) - unat cs"
    by (simp_all add: f len ce)
  have sub: "\<exists>sl0\<in>set (w_slices win). sub_slice sl sl0" if "sl \<in> set (w_slices ?c)" for sl
    using that assms(2) cut_slice_sound(1) unfolding f by fastforce
  show "piece_of win ?c"
    using sin sub assms(3,5) le len ce by (simp add: piece_of_def f(1-3))
  have "(\<Sum>sl\<leftarrow>w_slices ?c. unat (sl_length sl)) < 2 ^ 64"
    using slices_in_sum [OF sin] unat_u64_bound [of ?ce] by linarith
  then have "unat (w_payload_bytes ?c) = (\<Sum>sl\<leftarrow>w_slices ?c. unat (sl_length sl))"
    unfolding f(5) by (rule unat_sum_list_u64)
  moreover have "0 < (\<Sum>sl\<leftarrow>w_slices ?c. unat (sl_length sl)) \<longleftrightarrow> w_slices ?c \<noteq> []"
    using slices_in_bounds [OF sin] by (cases "w_slices ?c") auto
  ultimately show "0 < w_payload_bytes ?c \<longleftrightarrow> w_slices ?c \<noteq> []" by (simp add: word_less_nat_alt)
  show "\<exists>sl\<in>set (w_slices ?c). x \<in> slice_span sl \<and> sub_slice sl sl0"
    if x: "sl0 \<in> set (w_slices win)" "x \<in> slice_span sl0" "unat cs \<le> x" "x < unat cs + unat cap" for sl0 x
  proof -
    have "x < unat (window_end win)" using slices_in_bounds [OF assms(1) x(1)] x(2) by (simp add: slice_span_def)
    then obtain p where "cut_slice cs ?ce sl0 = [p]" "x \<in> slice_span p" "sub_slice p sl0"
      using cut_slice_cover [of sl0 x cs ?ce] x assms(2) ce by auto
    moreover from this(1) x(1) have "p \<in> set (w_slices ?c)" unfolding f(4) by force
    ultimately show ?thesis by blast
  qed
qed
lemma split_loop_correct:
  assumes "slices_in (unat (w_src_offset win)) (unat (window_end win)) (w_slices win)"
    and "\<forall>sl\<in>set (w_slices win). slice_fits sl"
    and "unat (window_end win) = unat (w_src_offset win) + unat (w_length win)"
    and "unat (window_end win) + unat cap < 2 ^ 64" "cap \<noteq> 0"
    and "unat (w_src_offset win) \<le> unat cs"
  shows "\<exists>ws. split_loop cap win cs = Some ws \<and> (\<forall>w\<in>set ws. piece_of win w \<and> w_length w \<le> cap) \<and>
    (\<Sum>w\<leftarrow>ws. unat (w_length w)) \<le> unat (window_end win) - unat cs \<and> covers_slices win (unat cs) ws"
  using assms(6)
proof (induction "unat (window_end win) - unat cs" arbitrary: cs rule: less_induct)
  case less
  note eq = split_loop.simps [of cap win cs]
  show ?case
  proof (cases "cs < window_end win")
    case True
    then have cs: "unat cs < unat (window_end win)" by (simp add: u64_simps)
    then have step: "unat (cs + cap) = unat cs + unat cap" using assms(4) by (intro unat_u64_add) simp
    have cap: "0 < unat cap" using assms(5) by (simp add: unat_gt_0)
    have "unat (window_end win) - unat (cs + cap) < unat (window_end win) - unat cs"
      "unat (w_src_offset win) \<le> unat (cs + cap)" using step cap cs less.prems by linarith+
    from less.hyps [OF this, unfolded step]
    obtain ws where ws: "split_loop cap win (cs + cap) = Some ws" "\<forall>w\<in>set ws. piece_of win w \<and> w_length w \<le> cap"
      "(\<Sum>w\<leftarrow>ws. unat (w_length w)) \<le> unat (window_end win) - (unat cs + unat cap)"
      "covers_slices win (unat cs + unat cap) ws"
      by blast
    define c where "c = cut_chunk cap win cs"
    note c = cut_chunk_piece [OF assms(1-4) less.prems cs, folded c_def]
    have len: "w_length c \<le> cap" using c(3) by (simp add: u64_simps)
    have sum: "unat (w_length c) + (\<Sum>w\<leftarrow>ws. unat (w_length w)) \<le> unat (window_end win) - unat cs"
      using c(3) ws(3) by linarith
    have cover: "covers_slices win (unat cs) (if 0 < w_payload_bytes c then c # ws else ws)"
      unfolding covers_slices_def
    proof (intro ballI impI)
      fix sl0 x assume x: "sl0 \<in> set (w_slices win)" "x \<in> slice_span sl0" "unat cs \<le> x"
      show "\<exists>w\<in>set (if 0 < w_payload_bytes c then c # ws else ws).
          \<exists>sl\<in>set (w_slices w). x \<in> slice_span sl \<and> sub_slice sl sl0"
      proof (cases "x < unat cs + unat cap")
        case True
        from c(5) [OF x True] obtain sl where sl: "sl \<in> set (w_slices c)" "x \<in> slice_span sl" "sub_slice sl sl0" by blast
        then have "w_slices c \<noteq> []" by auto
        with sl show ?thesis using c(4) by auto
      next
        case False
        with ws(4) x show ?thesis by (force simp: covers_slices_def)
      qed
    qed
    have "split_loop cap win cs = Some (if 0 < w_payload_bytes c then c # ws else ws)"
      using True ws(1) eq by (simp add: c_def Let_def)
    with ws(2) c(1) len sum cover show ?thesis by (auto split: if_splits)
  next
    case False
    then have "covers_slices win (unat cs) []"
      using slices_in_bounds [OF assms(1)] by (fastforce simp: covers_slices_def slice_span_def u64_simps)
    with False eq show ?thesis by simp
  qed
qed

lemma window_ok_piece: "window_ok opts sources w \<Longrightarrow> piece_of w w"
  by (auto simp: window_ok_def piece_of_def intro: sub_slice_refl)

text \<open>What \<open>split_windows\<close> yields for windows in order, with room for the cap above each source.\<close>

lemma split_windows_correct:
  assumes "\<forall>w\<in>set ws. window_ok opts sources w \<and> (\<forall>sl\<in>set (w_slices w). slice_fits sl)"
    and "\<forall>src\<in>set sources. unat (src_total src) + unat cap < 2 ^ 64"
  shows "\<exists>vs. split_windows cap ws = Some vs \<and>
    (\<forall>v\<in>set vs. (\<exists>w\<in>set ws. piece_of w v) \<and> (cap \<noteq> 0 \<longrightarrow> w_length v \<le> cap)) \<and>
    (\<forall>w\<in>set ws. covers_slices w 0 vs) \<and>
    (\<Sum>v\<leftarrow>vs. unat (w_length v)) \<le> (\<Sum>w\<leftarrow>ws. unat (w_length w))"
  using assms(1)
proof (induction ws)
  case (Cons w ws)
  have ok: "window_ok opts sources w" and fits: "\<forall>sl\<in>set (w_slices w). slice_fits sl" using Cons.prems by simp_all
  note we = window_end_unat [OF ok]
  from Cons obtain vs where vs: "split_windows cap ws = Some vs"
    "\<forall>v\<in>set vs. (\<exists>w\<in>set ws. piece_of w v) \<and> (cap \<noteq> 0 \<longrightarrow> w_length v \<le> cap)" "\<forall>w\<in>set ws. covers_slices w 0 vs"
    "(\<Sum>v\<leftarrow>vs. unat (w_length v)) \<le> (\<Sum>w\<leftarrow>ws. unat (w_length w))" by auto
  obtain us where us: "(if cap = 0 \<or> w_length w \<le> cap then Some [w] else split_loop cap w (w_src_offset w)) = Some us"
    "\<forall>v\<in>set us. piece_of w v \<and> (cap \<noteq> 0 \<longrightarrow> w_length v \<le> cap)" "covers_slices w 0 us"
    "(\<Sum>v\<leftarrow>us. unat (w_length v)) \<le> unat (w_length w)"
  proof (cases "cap = 0 \<or> w_length w \<le> cap")
    case True
    then show thesis
      using window_ok_piece [OF ok] by (intro that [of "[w]"]) (auto simp: covers_slices_def)
  next
    case False
    have "unat (window_end w) + unat cap < 2 ^ 64"
    proof -
      have "sources ! unat (w_source_index w) \<in> set sources" using ok by (simp add: window_ok_def)
      with assms(2) have "unat (src_total (sources ! unat (w_source_index w))) + unat cap < 2 ^ 64" by blast
      then show ?thesis using ok we by (simp add: window_ok_def)
    qed
    with split_loop_correct [of w cap "w_src_offset w"] ok fits we False
    obtain us where us: "split_loop cap w (w_src_offset w) = Some us" "\<forall>v\<in>set us. piece_of w v \<and> w_length v \<le> cap"
      "(\<Sum>v\<leftarrow>us. unat (w_length v)) \<le> unat (w_length w)" "covers_slices w (unat (w_src_offset w)) us"
      by (auto simp: window_ok_def)
    have "covers_slices w 0 us"
      using us(4) slices_in_bounds ok unfolding covers_slices_def window_ok_def slice_span_def
      by (smt (verit) atLeastLessThan_iff order_trans)
    with us False show thesis by (intro that [of us]) auto
  qed
  have cov: "covers_slices w' 0 (us @ vs)" if "w' \<in> set (w # ws)" for w'
    using that us(3) vs(3) by (fastforce simp: covers_slices_def)
  show ?case
    using us vs cov by (intro exI [of _ "us @ vs"]) (auto simp: ball_Un)
qed simp
section \<open>Which maps are scheduled\<close>

definition seg_before :: "SourceSegment \<Rightarrow> SourceSegment \<Rightarrow> bool" where
  "seg_before a b \<longleftrightarrow> (ss_source_index a = ss_source_index b \<longrightarrow>
     unat (ss_src_offset a) + unat (ss_length a) \<le> unat (ss_src_offset b))"

lemma start_window_end:
  assumes "segment_in_source sources seg"
  shows "unat (window_end (start_window seg)) = unat (ss_src_offset seg) + unat (ss_length seg)"
  using assms by (auto simp: window_end_def start_window_def segment_in_source_def intro: unat_u64_add_le)

lemma extend_window_end:
  assumes "segment_in_source sources seg"
  shows "unat (window_end (extend_window w seg)) = unat (ss_src_offset seg) + unat (ss_length seg)"
  using assms by (auto simp: window_end_def extend_window_def segment_in_source_def intro: unat_u64_add_le)

lemma build_windows_iff:
  assumes "sorted (map source_order segs)" "\<forall>seg\<in>set segs. segment_in_source sources seg"
    and "\<forall>seg\<in>set segs. w_source_index w \<le> ss_source_index seg"
  shows "is_ok (build_windows opts (Some w) segs) \<longleftrightarrow> sorted_wrt seg_before segs \<and>
    (\<forall>seg\<in>set segs. ss_source_index seg = w_source_index w \<longrightarrow> unat (window_end w) \<le> unat (ss_src_offset seg))"
  using assms
proof (induction segs arbitrary: w)
  case (Cons seg rest)
  have later: "ss_source_index seg \<le> ss_source_index x" if "x \<in> set rest" for x
    using Cons.prems(1) that by (auto simp: source_order_def less_eq_prod_def)
  have good: "segment_in_source sources seg" using Cons.prems(2) by simp
  have after: "(\<forall>x\<in>set rest. ss_source_index x = ss_source_index seg \<longrightarrow>
      unat (ss_src_offset seg) + unat (ss_length seg) \<le> unat (ss_src_offset x)) \<longleftrightarrow>
      (\<forall>x\<in>set rest. seg_before seg x)"
    by (auto simp: seg_before_def)
  have new: "is_ok (build_windows opts (Some (start_window seg)) rest) \<longleftrightarrow> sorted_wrt seg_before (seg # rest)"
    using Cons.IH [of "start_window seg"] Cons.prems later start_window_end [OF good] after
    by (auto simp: start_window_def)
  have ext: "is_ok (build_windows opts (Some (extend_window w seg)) rest) \<longleftrightarrow> sorted_wrt seg_before (seg # rest)"
    if "ss_source_index seg = w_source_index w"
    using Cons.IH [of "extend_window w seg"] Cons.prems later extend_window_end [OF good, of w] after that
    by (auto simp: extend_window_def)
  show ?case
  proof (cases "ss_source_index seg = w_source_index w")
    case True
    have far: "unat (window_end w) \<le> unat (ss_src_offset x)"
      if "sorted_wrt seg_before (seg # rest)" "\<not> ss_src_offset seg < window_end w" "x \<in> set rest"
        "ss_source_index x = w_source_index w" for x
      using that True by (auto simp: seg_before_def u64_simps)
    have "is_ok (build_windows opts (Some w) (seg # rest)) \<longleftrightarrow>
        \<not> ss_src_offset seg < window_end w \<and> sorted_wrt seg_before (seg # rest)"
      using new ext True by auto
    with True far show ?thesis by (auto simp: not_less word_le_nat_alt)
  next
    case False
    with Cons.prems(3) have "w_source_index w < ss_source_index seg" by auto
    with later have "ss_source_index x \<noteq> w_source_index w" if "x \<in> set rest" for x using that by fastforce
    with False new show ?thesis by auto
  qed
qed simp

text \<open>No byte of a source is wanted by two segments.\<close>

definition no_source_overlap :: "SourceSegment list \<Rightarrow> bool" where
  "no_source_overlap segs \<longleftrightarrow> (\<forall>a\<in>set segs. \<forall>b\<in>set segs. a \<noteq> b \<longrightarrow> seg_before a b \<or> seg_before b a)"

lemma sorted_before_iff:
  assumes "sorted (map source_order segs)" "distinct segs" "\<forall>seg\<in>set segs. ss_length seg \<noteq> 0"
  shows "sorted_wrt seg_before segs \<longleftrightarrow> no_source_overlap segs"
proof
  assume ord: "sorted_wrt seg_before segs"
  show "no_source_overlap segs"
    unfolding no_source_overlap_def
  proof (intro ballI impI)
    fix a b assume "a \<in> set segs" "b \<in> set segs" "a \<noteq> b"
    then obtain i j where "i < length segs" "j < length segs" "segs ! i = a" "segs ! j = b" "i \<noteq> j"
      by (auto simp: in_set_conv_nth)
    with ord show "seg_before a b \<or> seg_before b a"
      by (cases i j rule: linorder_cases) (auto simp: sorted_wrt_iff_nth_less)
  qed
next
  assume ov: "no_source_overlap segs"
  show "sorted_wrt seg_before segs"
    unfolding sorted_wrt_iff_nth_less
  proof (intro allI impI)
    fix i j assume ij: "i < j" "j < length segs"
    let ?a = "segs ! i" and ?b = "segs ! j"
    have "?a \<noteq> ?b" using ij assms(2) by (simp add: nth_eq_iff_index_eq)
    then have or: "seg_before ?a ?b \<or> seg_before ?b ?a" using ov ij by (simp add: no_source_overlap_def)
    have "source_order ?a \<le> source_order ?b"
      using assms(1) ij sorted_nth_mono [of "map source_order segs" i j] by simp
    then have "ss_source_index ?a = ss_source_index ?b \<longrightarrow> ss_src_offset ?a \<le> ss_src_offset ?b"
      by (auto simp: source_order_def less_eq_prod_def)
    moreover have "0 < unat (ss_length ?b)" using assms(3) ij by (simp add: unat_gt_0)
    ultimately show "seg_before ?a ?b" using or by (auto simp: seg_before_def u64_simps)
  qed
qed

lemma build_windows_none_iff:
  assumes "sorted (map source_order segs)" "distinct segs"
    and "\<forall>seg\<in>set segs. segment_in_source sources seg \<and> ss_length seg \<noteq> 0"
  shows "is_ok (build_windows opts None segs) \<longleftrightarrow> no_source_overlap segs"
proof (cases segs)
  case (Cons seg rest)
  have "\<forall>x\<in>set rest. w_source_index (start_window seg) \<le> ss_source_index x"
    using assms(1) Cons by (auto simp: start_window_def source_order_def less_eq_prod_def)
  with build_windows_iff [of rest sources "start_window seg" opts] assms Cons
    start_window_end [of sources seg]
  have "is_ok (build_windows opts None segs) \<longleftrightarrow> sorted_wrt seg_before segs"
    by (auto simp: seg_before_def start_window_def)
  then show ?thesis using sorted_before_iff [OF assms(1,2)] assms(3) by simp
qed (simp add: no_source_overlap_def)
section \<open>Execution\<close>

text \<open>
  The bytes wanted at each destination are given by a function; every write of a run writes
  wanted bytes.
\<close>

definition slice_hits :: "WindowSlice \<Rightarrow> nat \<Rightarrow> bool" where
  "slice_hits sl d \<longleftrightarrow> unat (sl_dst_offset sl) \<le> d \<and> d < unat (sl_dst_offset sl) + unat (sl_length sl)"

context positioned_sink
begin

lemma write_wanted:
  assumes "healthy s" "unat off + length bs \<le> unat (sink_size s)"
    and "\<And>k. k < length bs \<Longrightarrow> bs ! k = V (unat off + k)"
  shows "\<exists>s'. write_at s off bs = (s', ok_status) \<and> healthy s' \<and> sink_size s' = sink_size s \<and>
    (\<forall>d < unat (sink_size s). sink_byte s' d =
      (if unat off \<le> d \<and> d < unat off + length bs then V d else sink_byte s d))"
proof -
  from write_in_range [OF assms(1,2)] obtain s' where "write_at s off bs = (s', ok_status)" "healthy s'"
    "sink_size s' = sink_size s" and b: "\<forall>d < unat (sink_size s). sink_byte s' d =
      (if unat off \<le> d \<and> d < unat off + length bs then bs ! (d - unat off) else sink_byte s d)" by blast
  moreover have "bs ! (d - unat off) = V d" if "unat off \<le> d" "d < unat off + length bs" for d
    using assms(3) [of "d - unat off"] that by simp
  ultimately show ?thesis by auto
qed

lemma write_zeros_wanted:
  assumes "healthy s" "unat cursor + unat remaining \<le> unat (sink_size s)" "zero_chunk \<noteq> 0"
    and "\<And>d. unat cursor \<le> d \<Longrightarrow> d < unat cursor + unat remaining \<Longrightarrow> V d = 0"
  shows "\<exists>s'. write_zeros write_at zero_chunk cursor remaining s = (s', ok_status) \<and> healthy s' \<and>
    sink_size s' = sink_size s \<and> (\<forall>d < unat (sink_size s). sink_byte s' d =
      (if unat cursor \<le> d \<and> d < unat cursor + unat remaining then V d else sink_byte s d))"
  using assms
proof (induction "unat remaining" arbitrary: cursor remaining s rule: less_induct)
  case less
  note eq = write_zeros.simps [of write_at zero_chunk cursor remaining s]
  show ?case
  proof (cases "remaining = 0")
    case False
    define n where "n = min remaining zero_chunk"
    have n: "n \<le> remaining" "0 < unat n" "unat n \<le> unat remaining"
      using False less.prems(3) by (auto simp: n_def unat_min unat_gt_0 min_def word_le_nat_alt)
    have rest: "unat (remaining - n) = unat remaining - unat n" by (rule unat_u64_sub [OF n(1)])
    have cur: "unat (cursor + n) = unat cursor + unat n"
      using n less.prems(2) by (intro unat_u64_add_le [of _ _ "sink_size s"]) simp
    obtain s1 where s1: "write_at s cursor (replicate (unat n) 0) = (s1, ok_status)" "healthy s1"
      "sink_size s1 = sink_size s" "\<forall>d < unat (sink_size s). sink_byte s1 d =
        (if unat cursor \<le> d \<and> d < unat cursor + unat n then V d else sink_byte s d)"
      using write_wanted [of s cursor "replicate (unat n) 0" V] less.prems n by auto
    have "unat (remaining - n) < unat remaining" "unat (cursor + n) + unat (remaining - n) \<le> unat (sink_size s1)"
      using rest cur n less.prems(2) s1(3) by simp_all
    from less.hyps [OF this(1) s1(2) this(2) less.prems(3)] less.prems(4)
    obtain s2 where s2: "write_zeros write_at zero_chunk (cursor + n) (remaining - n) s1 = (s2, ok_status)" "healthy s2"
      "sink_size s2 = sink_size s1" "\<forall>d < unat (sink_size s1). sink_byte s2 d =
        (if unat cursor + unat n \<le> d \<and> d < unat cursor + unat remaining then V d else sink_byte s1 d)"
      unfolding cur rest using n by auto
    have "write_zeros write_at zero_chunk cursor remaining s = (s2, ok_status)"
      using False less.prems(3) s1(1) s2(1) eq by (simp add: n_def Let_def)
    with s1 s2 n show ?thesis by auto
  qed (use less.prems eq in auto)
qed

lemma write_pads_wanted:
  assumes "healthy s" "zero_chunk \<noteq> 0"
    and "\<And>p d. p \<in> set pads \<Longrightarrow> covers p d \<Longrightarrow> V d = 0"
    and "\<forall>p\<in>set pads. seg_hi p \<le> unat (sink_size s)"
  shows "\<exists>s'. write_pads write_at zero_chunk pads s = (s', ok_status) \<and> healthy s' \<and>
    sink_size s' = sink_size s \<and> (\<forall>d < unat (sink_size s). sink_byte s' d =
      (if \<exists>p\<in>set pads. covers p d then V d else sink_byte s d))"
  using assms(1,3,4)
proof (induction pads arbitrary: s)
  case (Cons p rest)
  from write_zeros_wanted [of s "dst_offset p" "seg_length p" zero_chunk V] Cons.prems assms(2)
  obtain s1 where s1: "write_zeros write_at zero_chunk (dst_offset p) (seg_length p) s = (s1, ok_status)" "healthy s1"
    "sink_size s1 = sink_size s"
    "\<forall>d < unat (sink_size s). sink_byte s1 d = (if covers p d then V d else sink_byte s d)"
    by (auto simp: covers_def seg_lo_def seg_hi_def)
  from Cons.IH [of s1] Cons.prems s1 obtain s2 where "write_pads write_at zero_chunk rest s1 = (s2, ok_status)"
    "healthy s2" "sink_size s2 = sink_size s" "\<forall>d < unat (sink_size s). sink_byte s2 d =
      (if \<exists>p\<in>set rest. covers p d then V d else sink_byte s1 d)" by auto
  with s1 show ?case by auto
qed auto

lemma write_slices_wanted:
  assumes "healthy s"
    and "\<forall>sl\<in>set sls. unat base \<le> unat (sl_src_offset sl) \<and>
      unat (sl_src_offset sl) - unat base + unat (sl_length sl) \<le> length buf \<and>
      unat (sl_dst_offset sl) + unat (sl_length sl) \<le> unat (sink_size s)"
    and "\<And>sl k. sl \<in> set sls \<Longrightarrow> k < unat (sl_length sl) \<Longrightarrow>
      buf ! (unat (sl_src_offset sl) - unat base + k) = V (unat (sl_dst_offset sl) + k)"
  shows "\<exists>s'. write_slices write_at base buf sls s = (s', ok_status) \<and> healthy s' \<and> sink_size s' = sink_size s \<and>
    (\<forall>d < unat (sink_size s). sink_byte s' d = (if \<exists>sl\<in>set sls. slice_hits sl d then V d else sink_byte s d))"
  using assms
proof (induction sls arbitrary: s)
  case (Cons sl rest)
  define bs where "bs = take (unat (sl_length sl)) (drop (unat (sl_src_offset sl - base)) buf)"
  have off: "unat (sl_src_offset sl - base) = unat (sl_src_offset sl) - unat base"
    using Cons.prems(2) by (intro unat_u64_sub) (simp add: u64_simps)
  have fit: "unat (sl_src_offset sl) - unat base + unat (sl_length sl) \<le> length buf"
    using bspec [OF Cons.prems(2) list.set_intros(1)] by blast
  then have len: "length bs = unat (sl_length sl)" using off by (simp add: bs_def)
  have "bs ! k = V (unat (sl_dst_offset sl) + k)" if "k < length bs" for k
    using that Cons.prems(3) [of sl k] off fit by (simp add: bs_def)
  moreover have "unat (sl_dst_offset sl) + length bs \<le> unat (sink_size s)"
    using bspec [OF Cons.prems(2) list.set_intros(1)] len by simp
  ultimately obtain s1 where s1: "write_at s (sl_dst_offset sl) bs = (s1, ok_status)" "healthy s1" "sink_size s1 = sink_size s"
    "\<forall>d < unat (sink_size s). sink_byte s1 d = (if slice_hits sl d then V d else sink_byte s d)"
    using write_wanted [OF Cons.prems(1), of "sl_dst_offset sl" bs V] len by (auto simp: slice_hits_def)
  have rest: "\<forall>sl\<in>set rest. unat base \<le> unat (sl_src_offset sl) \<and>
      unat (sl_src_offset sl) - unat base + unat (sl_length sl) \<le> length buf \<and>
      unat (sl_dst_offset sl) + unat (sl_length sl) \<le> unat (sink_size s1)"
    unfolding s1(3) using Cons.prems(2) by (meson list.set_intros(2))
  have wanted: "buf ! (unat (sl_src_offset x) - unat base + k) = V (unat (sl_dst_offset x) + k)"
    if "x \<in> set rest" "k < unat (sl_length x)" for x k
    using Cons.prems(3) that by (meson list.set_intros(2))
  from Cons.IH [OF s1(2) rest wanted] s1(3) obtain s2 where "write_slices write_at base buf rest s1 = (s2, ok_status)"
    "healthy s2" "sink_size s2 = sink_size s" "\<forall>d < unat (sink_size s). sink_byte s2 d =
      (if \<exists>sl\<in>set rest. slice_hits sl d then V d else sink_byte s1 d)" by metis
  with s1 show ?case by (auto simp: bs_def)
qed auto

lemma run_windows_wanted:
  assumes "healthy s"
    and "\<forall>i < length sources. seekable_source (sources ! i) (content i)"
    and "\<forall>w\<in>set ws. unat (w_source_index w) < length sources \<and>
      unat (w_src_offset w) + unat (w_length w) \<le> unat (src_total (sources ! unat (w_source_index w))) \<and>
      slices_in (unat (w_src_offset w)) (unat (w_src_offset w) + unat (w_length w)) (w_slices w)"
    and "\<And>w sl. w \<in> set ws \<Longrightarrow> sl \<in> set (w_slices w) \<Longrightarrow>
      unat (sl_dst_offset sl) + unat (sl_length sl) \<le> unat (sink_size s) \<and>
      (\<forall>k < unat (sl_length sl). content (unat (w_source_index w)) (unat (sl_src_offset sl) + k) =
        V (unat (sl_dst_offset sl) + k))"
  shows "\<exists>s'. run_windows write_at sources ws s = (s', ok_status) \<and> healthy s' \<and> sink_size s' = sink_size s \<and>
    (\<forall>d < unat (sink_size s). sink_byte s' d =
      (if \<exists>w\<in>set ws. \<exists>sl\<in>set (w_slices w). slice_hits sl d then V d else sink_byte s d))"
  using assms(1,3,4)
proof (induction ws arbitrary: s)
  case (Cons w rest)
  let ?i = "unat (w_source_index w)" and ?a = "unat (w_src_offset w)" and ?n = "unat (w_length w)"
  define buf where "buf = map (content ?i) [?a..<?a + ?n]"
  have w: "?i < length sources" "?a + ?n \<le> unat (src_total (sources ! ?i))" "slices_in ?a (?a + ?n) (w_slices w)"
    using Cons.prems(2) by simp_all
  then have read: "src_read_at (sources ! ?i) (w_src_offset w) (w_length w) = Inr buf"
    using assms(2) by (simp add: seekable_source.read_exact buf_def)
  note b = slices_in_bounds [OF w(3)]
  have "\<exists>s1. write_slices write_at (w_src_offset w) buf (w_slices w) s = (s1, ok_status) \<and> healthy s1 \<and>
      sink_size s1 = sink_size s \<and> (\<forall>d < unat (sink_size s). sink_byte s1 d =
        (if \<exists>sl\<in>set (w_slices w). slice_hits sl d then V d else sink_byte s d))"
  proof (rule write_slices_wanted [OF Cons.prems(1)])
    show "\<forall>sl\<in>set (w_slices w). ?a \<le> unat (sl_src_offset sl) \<and>
        unat (sl_src_offset sl) - ?a + unat (sl_length sl) \<le> length buf \<and>
        unat (sl_dst_offset sl) + unat (sl_length sl) \<le> unat (sink_size s)"
      using b Cons.prems(3) [of w] by (fastforce simp: buf_def)
    show "buf ! (unat (sl_src_offset sl) - ?a + k) = V (unat (sl_dst_offset sl) + k)"
      if "sl \<in> set (w_slices w)" "k < unat (sl_length sl)" for sl k
    proof -
      have "unat (sl_src_offset sl) - ?a + k < ?n" "?a + (unat (sl_src_offset sl) - ?a + k) = unat (sl_src_offset sl) + k"
        using b [OF that(1)] that(2) by linarith+
      then have "buf ! (unat (sl_src_offset sl) - ?a + k) = content ?i (unat (sl_src_offset sl) + k)"
        unfolding buf_def by (subst nth_map) simp_all
      with Cons.prems(3) [of w sl] that show ?thesis by simp
    qed
  qed
  then obtain s1 where s1: "write_slices write_at (w_src_offset w) buf (w_slices w) s = (s1, ok_status)" "healthy s1"
    "sink_size s1 = sink_size s" "\<forall>d < unat (sink_size s). sink_byte s1 d =
        (if \<exists>sl\<in>set (w_slices w). slice_hits sl d then V d else sink_byte s d)" by blast
  from Cons.IH [OF s1(2)] Cons.prems(2,3) s1(3) obtain s2 where s2: "run_windows write_at sources rest s1 = (s2, ok_status)"
    "healthy s2" "sink_size s2 = sink_size s" "\<forall>d < unat (sink_size s). sink_byte s2 d =
      (if \<exists>w\<in>set rest. \<exists>sl\<in>set (w_slices w). slice_hits sl d then V d else sink_byte s1 d)"
    by (auto simp: s1(3))
  have "run_windows write_at sources (w # rest) s = (s2, ok_status)"
    using read s1(1) s2(1) by (simp add: buf_def)
  with s1 s2 show ?case by auto
qed auto

end

section \<open>The plan of a canonical map\<close>

lemma tiles_distinct_dst: "tiles a b segs \<Longrightarrow> distinct (map dst_offset segs)"
proof (induction segs arbitrary: a)
  case (Cons s rest)
  have "seg_lo s < seg_lo t" if "t \<in> set rest" for t
    using Cons.prems that tiles_bounds [of "seg_hi s" b rest] seg_lo_less_hi [of s] by fastforce
  with Cons show ?case by (force simp: seg_lo_def)
qed simp

lemma data_segments_set:
  "seg \<in> set (data_segments segs) \<longleftrightarrow> (\<exists>s\<in>set segs. seg_length s \<noteq> 0 \<and> kind s = kData \<and>
     seg = \<lparr>ss_source_index = source_index s, ss_src_offset = src_offset s, ss_dst_offset = dst_offset s,
            ss_length = seg_length s\<rparr>)"
proof -
  have "kind s \<noteq> kPad \<longleftrightarrow> kind s = kData" for s :: ByteRangeSegment by (cases "kind s") simp_all
  then show ?thesis unfolding data_segments_def by auto
qed

lemma data_segments_distinct:
  assumes "tiles a b segs"
  shows "distinct (data_segments segs)"
proof -
  have "distinct (map dst_offset (filter P segs))" for P
    using tiles_distinct_dst [OF assms] by (rule distinct_map_filter)
  then have "distinct (map ss_dst_offset (data_segments segs))"
    by (simp add: data_segments_def comp_def)
  then show ?thesis by (simp add: distinct_map)
qed

definition schedulable :: "SeekableSource list \<Rightarrow> ByteRangeSegment list \<Rightarrow> bool" where
  "schedulable sources segs \<longleftrightarrow> (\<forall>seg\<in>set (data_segments segs). segment_in_source sources seg) \<and>
     no_source_overlap (data_segments segs)"

text \<open>A planned window: inside its source, with slices that are parts of data segments.\<close>

definition window_planned :: "SeekableSource list \<Rightarrow> ByteRangeSegment list \<Rightarrow> SourceWindow \<Rightarrow> bool" where
  "window_planned sources segs v \<longleftrightarrow> unat (w_source_index v) < length sources \<and>
     unat (w_src_offset v) + unat (w_length v) \<le> unat (src_total (sources ! unat (w_source_index v))) \<and>
     slices_in (unat (w_src_offset v)) (unat (w_src_offset v) + unat (w_length v)) (w_slices v) \<and>
     (\<forall>sl\<in>set (w_slices v). \<exists>seg\<in>set (data_segments segs).
        ss_source_index seg = w_source_index v \<and> sub_slice sl (slice_of seg))"

definition plan_covers :: "ByteRangeSegment list \<Rightarrow> SourceWindow list \<Rightarrow> bool" where
  "plan_covers segs vs \<longleftrightarrow> (\<forall>seg\<in>set (data_segments segs). \<forall>x\<in>slice_span (slice_of seg).
     \<exists>v\<in>set vs. \<exists>sl\<in>set (w_slices v). x \<in> slice_span sl \<and> sub_slice sl (slice_of seg))"

lemma window_ok_payload:
  "window_ok opts sources w \<Longrightarrow> unat (w_payload_bytes w) = (\<Sum>sl\<leftarrow>w_slices w. unat (sl_length sl))"
  unfolding window_ok_def by blast

lemma payload_tagged:
  "\<forall>w\<in>set ws. window_ok opts sources w \<Longrightarrow>
     (\<Sum>w\<leftarrow>ws. unat (w_payload_bytes w)) = (\<Sum>p\<leftarrow>tagged ws. unat (sl_length (snd p)))"
  by (induction ws) (auto simp: window_ok_payload comp_def)

lemma sum_list_perm: "mset xs = mset ys \<Longrightarrow> (\<Sum>x\<leftarrow>xs. f x) = (\<Sum>y\<leftarrow>ys. f y :: nat)"
  by (metis mset_map sum_mset_sum_list)

lemma built_plan:
  assumes ok: "\<forall>w\<in>set ws. window_ok opts sources w"
    and tag: "set (tagged ws) = (\<lambda>seg. (ss_source_index seg, slice_of seg)) ` set (data_segments segs)"
    and pieces: "\<forall>v\<in>set vs. \<exists>w\<in>set ws. piece_of w v" and cover: "\<forall>w\<in>set ws. covers_slices w 0 vs"
  shows "\<forall>v\<in>set vs. window_planned sources segs v" and "plan_covers segs vs"
proof -
  have slice: "\<exists>seg\<in>set (data_segments segs). ss_source_index seg = w_source_index w \<and> sl = slice_of seg"
    if "w \<in> set ws" "sl \<in> set (w_slices w)" for w sl
  proof -
    have "(w_source_index w, sl) \<in> set (tagged ws)" using that by (auto simp: tagged_def)
    then show ?thesis unfolding tag by auto
  qed
  show "\<forall>v\<in>set vs. window_planned sources segs v"
  proof
    fix v assume v: "v \<in> set vs"
    obtain w where w: "w \<in> set ws" "piece_of w v" using pieces v by blast
    have "\<exists>seg\<in>set (data_segments segs). ss_source_index seg = w_source_index v \<and> sub_slice sl (slice_of seg)"
      if sl: "sl \<in> set (w_slices v)" for sl
    proof -
      from w(2) sl obtain sl0 where "sl0 \<in> set (w_slices w)" "sub_slice sl sl0" unfolding piece_of_def by blast
      with slice [OF w(1)] w(2) show ?thesis by (fastforce simp: piece_of_def)
    qed
    then show "window_planned sources segs v"
      using w bspec [OF ok w(1)] by (auto simp: window_planned_def piece_of_def window_ok_def)
  qed
  show "plan_covers segs vs"
    unfolding plan_covers_def
  proof (intro ballI)
    fix seg x assume seg: "seg \<in> set (data_segments segs)" and x: "x \<in> slice_span (slice_of seg)"
    have "(ss_source_index seg, slice_of seg) \<in> set (tagged ws)" using seg by (auto simp: tag)
    then obtain w where "w \<in> set ws" "slice_of seg \<in> set (w_slices w)" by (auto simp: tagged_def)
    with cover x show "\<exists>v\<in>set vs. \<exists>sl\<in>set (w_slices v). x \<in> slice_span sl \<and> sub_slice sl (slice_of seg)"
      by (auto simp: covers_slices_def)
  qed
qed

lemma built_total:
  assumes ok: "\<forall>w\<in>set ws. window_ok opts sources w"
    and tag: "tagged ws = map (\<lambda>seg. (ss_source_index seg, slice_of seg)) segs"
  shows "(\<Sum>w\<leftarrow>ws. unat (w_length w)) \<le>
    max 1 (unat (merge_max_amplification opts)) * (\<Sum>seg\<leftarrow>segs. unat (ss_length seg))"
proof -
  have "(\<Sum>w\<leftarrow>ws. unat (w_length w)) \<le>
      (\<Sum>w\<leftarrow>ws. max 1 (unat (merge_max_amplification opts)) * unat (w_payload_bytes w))"
  proof (rule sum_list_mono)
    fix w assume "w \<in> set ws"
    with ok show "unat (w_length w) \<le> max 1 (unat (merge_max_amplification opts)) * unat (w_payload_bytes w)"
      unfolding window_ok_def by blast
  qed
  also have "\<dots> = max 1 (unat (merge_max_amplification opts)) * (\<Sum>w\<leftarrow>ws. unat (w_payload_bytes w))"
    by (simp add: sum_list_const_mult)
  also have "(\<Sum>w\<leftarrow>ws. unat (w_payload_bytes w)) = (\<Sum>p\<leftarrow>tagged ws. unat (sl_length (snd p)))"
    using ok by (rule payload_tagged)
  also have "\<dots> = (\<Sum>seg\<leftarrow>segs. unat (ss_length seg))"
    unfolding tag by (simp add: comp_def slice_of_def)
  finally show ?thesis .
qed

lemma plan_windows_correct:
  assumes "std_sort source_order srt" "tiles 0 t segs" "t < 2 ^ 64"
    and room: "\<forall>src\<in>set sources. unat (src_total src) + unat (window_cap_bytes opts) < 2 ^ 64"
  shows "(case plan_windows srt opts sources segs of
      None \<Rightarrow> False
    | Some (Inl _) \<Rightarrow> \<not> schedulable sources segs
    | Some (Inr vs) \<Rightarrow> schedulable sources segs \<and>
       (\<forall>v\<in>set vs. window_planned sources segs v \<and>
         (window_cap_bytes opts \<noteq> 0 \<longrightarrow> w_length v \<le> window_cap_bytes opts)) \<and> plan_covers segs vs \<and>
       (\<Sum>v\<leftarrow>vs. unat (w_length v)) \<le>
         max 1 (unat (merge_max_amplification opts)) * (\<Sum>seg\<leftarrow>data_segments segs. unat (ss_length seg)))"
proof -
  let ?segs = "srt (data_segments segs)"
  have perm: "mset ?segs = mset (data_segments segs)" using assms(1) by (rule std_sort.srt_perm)
  have set: "set ?segs = set (data_segments segs)" using assms(1) by (rule std_sort.srt_set)
  have sorted: "sorted (map source_order ?segs)" using assms(1) by (rule std_sort.srt_sorted)
  have dist: "distinct ?segs"
    using data_segments_distinct [OF assms(2)] perm by (metis mset_eq_imp_distinct_iff)
  have nonempty: "\<forall>seg\<in>set ?segs. ss_length seg \<noteq> 0" by (auto simp: set data_segments_set)
  have dst: "unat (ss_dst_offset seg) + unat (ss_length seg) \<le> t" if "seg \<in> set (data_segments segs)" for seg
    using that tiles_bounds [OF assms(2)] by (auto simp: data_segments_set seg_hi_def)
  show ?thesis
  proof (cases "\<forall>seg\<in>set ?segs. segment_in_source sources seg")
    case False
    then have "\<not> is_ok (validate_sources ?segs sources)" by (simp add: validate_sources_iff [OF nonempty])
    then obtain e where "validate_sources ?segs sources = Inl e" by (cases "validate_sources ?segs sources") auto
    with False show ?thesis by (auto simp: plan_windows_def schedulable_def set)
  next
    case True
    then have val: "validate_sources ?segs sources = ok_status"
      using validate_sources_iff [OF nonempty, of sources] by (simp add: is_ok_iff)
    have iff: "is_ok (build_windows opts None ?segs) \<longleftrightarrow> schedulable sources segs"
      using build_windows_none_iff [OF sorted dist, of sources opts] True nonempty
      by (auto simp: schedulable_def no_source_overlap_def set)
    show ?thesis
    proof (cases "build_windows opts None ?segs")
      case (Inl e)
      with iff val show ?thesis by (simp add: plan_windows_def)
    next
      case (Inr ws)
      have ok: "\<forall>w\<in>set ws. window_ok opts sources w"
        and tag: "tagged ws = map (\<lambda>seg. (ss_source_index seg, slice_of seg)) ?segs"
        using build_windows_ok [OF Inr, of sources] True nonempty by auto
      have tag': "set (tagged ws) = (\<lambda>seg. (ss_source_index seg, slice_of seg)) ` set (data_segments segs)"
        by (simp add: tag set)
      have "slice_fits (slice_of seg)" if "seg \<in> set (data_segments segs)" for seg
      proof -
        have "segment_in_source sources seg" using True that set by blast
        with unat_u64_bound [of "src_total (sources ! unat (ss_source_index seg))"] dst [OF that] assms(3)
        show ?thesis by (simp add: slice_fits_def slice_of_def segment_in_source_def)
      qed
      moreover have "sl \<in> slice_of ` set (data_segments segs)" if "w \<in> set ws" "sl \<in> set (w_slices w)" for w sl
      proof -
        have "(w_source_index w, sl) \<in> set (tagged ws)" using that by (auto simp: tagged_def)
        then show ?thesis unfolding tag' by auto
      qed
      ultimately have fits: "\<forall>w\<in>set ws. window_ok opts sources w \<and> (\<forall>sl\<in>set (w_slices w). slice_fits sl)"
        using ok by blast
      from split_windows_correct [OF fits room] obtain vs where vs: "split_windows (window_cap_bytes opts) ws = Some vs"
        "\<forall>v\<in>set vs. (\<exists>w\<in>set ws. piece_of w v) \<and> (window_cap_bytes opts \<noteq> 0 \<longrightarrow> w_length v \<le> window_cap_bytes opts)"
        "\<forall>w\<in>set ws. covers_slices w 0 vs"
        "(\<Sum>v\<leftarrow>vs. unat (w_length v)) \<le> (\<Sum>w\<leftarrow>ws. unat (w_length w))" by blast
      have plan: "plan_windows srt opts sources segs = Some (Inr vs)"
        using val Inr vs(1) by (simp add: plan_windows_def)
      have sum: "(\<Sum>seg\<leftarrow>?segs. unat (ss_length seg)) = (\<Sum>seg\<leftarrow>data_segments segs. unat (ss_length seg))"
        using perm by (rule sum_list_perm)
      from vs(4) built_total [OF ok tag, unfolded sum] have "(\<Sum>v\<leftarrow>vs. unat (w_length v)) \<le>
          max 1 (unat (merge_max_amplification opts)) * (\<Sum>seg\<leftarrow>data_segments segs. unat (ss_length seg))"
        by (rule order_trans)
      moreover have "\<forall>v\<in>set vs. \<exists>w\<in>set ws. piece_of w v" using vs(2) by blast
      from built_plan [OF ok tag' this vs(3)] have "\<forall>v\<in>set vs. window_planned sources segs v" "plan_covers segs vs" .
      moreover have "schedulable sources segs" using iff Inr by simp
      ultimately show ?thesis unfolding plan option.case sum.case using vs(2) by simp
    qed
  qed
qed
section \<open>The bytes of a run\<close>

definition wanted :: "(nat \<Rightarrow> nat \<Rightarrow> u8) \<Rightarrow> ByteRangeSegment list \<Rightarrow> nat \<Rightarrow> u8" where
  "wanted content segs d =
     (case origin segs d of
        Some (SourceByte i off) \<Rightarrow> content (unat i) (unat off)
      | _ \<Rightarrow> 0)"

lemma wanted_data:
  assumes "tiles 0 t segs" "seg \<in> set (data_segments segs)" "segment_in_source sources seg"
    and "k < unat (ss_length seg)"
  shows "wanted content segs (unat (ss_dst_offset seg) + k) =
    content (unat (ss_source_index seg)) (unat (ss_src_offset seg) + k)"
proof -
  obtain s where s: "s \<in> set segs" "kind s = kData" and seg: "seg = \<lparr>ss_source_index = source_index s,
      ss_src_offset = src_offset s, ss_dst_offset = dst_offset s, ss_length = seg_length s\<rparr>"
    using assms(2) unfolding data_segments_set by blast
  have k: "k < unat (seg_length s)" "unat (of_nat k :: u64) = k"
    using assms(4) unat_u64_bound [of "seg_length s"] by (simp_all add: seg unat_of_nat_u64)
  have "unat (src_offset s + of_nat k) = unat (src_offset s) + k"
    using assms(3) k by (subst unat_u64_add_le [of _ _ "src_total (sources ! unat (source_index s))"])
      (auto simp: segment_in_source_def seg)
  moreover have "covers s (unat (dst_offset s) + k)" using k by (simp add: covers_def seg_lo_def seg_hi_def)
  ultimately show ?thesis
    using tiles_origin_at [OF assms(1) s(1)] s(2) by (simp add: wanted_def seg seg_origin_def seg_lo_def)
qed

lemma wanted_pad:
  assumes "tiles 0 t segs" "p \<in> set (pad_segments segs)" "covers p d"
  shows "wanted content segs d = 0"
  using tiles_origin_at [OF assms(1) _ assms(3)] assms(2) by (simp add: pad_segments_def wanted_def seg_origin_def)

lemma zero_chunk_positive: "zero_chunk_bytes opts \<noteq> 0"
  by (auto simp: zero_chunk_bytes_def)

definition executable_map :: "SeekableSource list \<Rightarrow> ByteRangeMap \<Rightarrow> bool" where
  "executable_map sources m \<longleftrightarrow>
     (case normalize_byte_range_map m of Inl _ \<Rightarrow> False | Inr n \<Rightarrow> schedulable sources (segments n))"

lemma planned_slice:
  assumes "tiles 0 t segs" "schedulable sources segs" "window_planned sources segs v" "sl \<in> set (w_slices v)"
  shows "unat (sl_dst_offset sl) + unat (sl_length sl) \<le> t \<and>
    (\<forall>k < unat (sl_length sl). content (unat (w_source_index v)) (unat (sl_src_offset sl) + k) =
      wanted content segs (unat (sl_dst_offset sl) + k))"
proof -
  from assms(3,4) obtain seg where seg: "seg \<in> set (data_segments segs)" "ss_source_index seg = w_source_index v"
    "sub_slice sl (slice_of seg)" unfolding window_planned_def by blast
  then obtain j where j: "unat (sl_src_offset sl) = unat (ss_src_offset seg) + j"
    "unat (sl_dst_offset sl) = unat (ss_dst_offset seg) + j" "j + unat (sl_length sl) \<le> unat (ss_length seg)"
    by (auto simp: sub_slice_def slice_of_def)
  have "unat (ss_dst_offset seg) + unat (ss_length seg) \<le> t"
    using seg(1) tiles_bounds [OF assms(1)] by (auto simp: data_segments_set seg_hi_def)
  moreover have "content (unat (w_source_index v)) (unat (sl_src_offset sl) + k) =
      wanted content segs (unat (sl_dst_offset sl) + k)" if "k < unat (sl_length sl)" for k
  proof -
    have "segment_in_source sources seg" using assms(2) seg(1) by (simp add: schedulable_def)
    from wanted_data [OF assms(1) seg(1) this, of "j + k" content] j that seg(2) show ?thesis by (simp add: add.assoc)
  qed
  ultimately show ?thesis using j by auto
qed

lemma planned_hit:
  assumes "tiles 0 t segs" "plan_covers segs vs" "d < t"
  shows "(\<exists>p\<in>set (pad_segments segs). covers p d) \<or> (\<exists>w\<in>set vs. \<exists>sl\<in>set (w_slices w). slice_hits sl d)"
proof -
  from tiles_origin_inside [OF assms(1) _ assms(3)] obtain z where "origin segs d = Some z" by auto
  from origin_SomeD [OF this] obtain s where s: "s \<in> set segs" "covers s d" by blast
  have nz: "seg_length s \<noteq> 0" using s(2) by (rule covers_nonempty)
  show ?thesis
  proof (cases "kind s")
    case kPad
    then show ?thesis using s nz by (auto simp: pad_segments_def)
  next
    case kData
    define seg where "seg = \<lparr>ss_source_index = source_index s, ss_src_offset = src_offset s,
      ss_dst_offset = dst_offset s, ss_length = seg_length s\<rparr>"
    have mem: "seg \<in> set (data_segments segs)" using s(1) nz kData by (auto simp: data_segments_set seg_def)
    have lo: "unat (dst_offset s) \<le> d" "d < unat (dst_offset s) + unat (seg_length s)"
      using s(2) by (auto simp: covers_def seg_lo_def seg_hi_def)
    let ?x = "unat (src_offset s) + (d - unat (dst_offset s))"
    have "?x \<in> slice_span (slice_of seg)" using lo by (auto simp: slice_span_def slice_of_def seg_def)
    with assms(2) mem obtain v sl where v: "v \<in> set vs" "sl \<in> set (w_slices v)" "?x \<in> slice_span sl"
      "sub_slice sl (slice_of seg)" unfolding plan_covers_def by blast
    then have "slice_hits sl d"
      using lo by (auto simp: slice_hits_def sub_slice_def slice_span_def slice_of_def seg_def)
    with v show ?thesis by blast
  qed
qed

context positioned_sink
begin

text \<open>A planned run over complete sources writes every byte the segments mean.\<close>

lemma run_planned:
  assumes sort: "std_sort source_order srt" and tiles: "tiles 0 (unat (t :: u64)) segs"
    and room: "\<forall>src\<in>set sources. unat (src_total src) + unat (window_cap_bytes opts) < 2 ^ 64"
    and complete: "\<forall>i < length sources. seekable_source (sources ! i) (content i)"
    and plan: "plan_windows srt opts sources segs = Some (Inr vs)"
    and sink: "healthy s" "unat t \<le> unat (sink_size s)"
  shows "\<exists>s1 s2. write_pads write_at (zero_chunk_bytes opts) (pad_segments segs) s = (s1, ok_status) \<and>
    run_windows write_at sources vs s1 = (s2, ok_status) \<and> healthy s2 \<and> sink_size s2 = sink_size s \<and>
    (\<forall>d < unat (sink_size s). sink_byte s2 d = (if d < unat t then wanted content segs d else sink_byte s d))"
proof -
  let ?V = "wanted content segs"
  note bounds = tiles_bounds [OF tiles]
  have pads: "\<forall>p\<in>set (pad_segments segs). seg_hi p \<le> unat (sink_size s)"
    using bounds sink(2) by (fastforce simp: pad_segments_def)
  obtain s1 where s1: "write_pads write_at (zero_chunk_bytes opts) (pad_segments segs) s = (s1, ok_status)"
    "healthy s1" "sink_size s1 = sink_size s" "\<forall>d < unat (sink_size s). sink_byte s1 d =
      (if \<exists>p\<in>set (pad_segments segs). covers p d then ?V d else sink_byte s d)"
    using write_pads_wanted [OF sink(1) zero_chunk_positive _ pads, of ?V] wanted_pad [OF tiles] by blast
  have facts: "schedulable sources segs" "\<forall>v\<in>set vs. window_planned sources segs v" "plan_covers segs vs"
    using plan_windows_correct [OF sort tiles unat_u64_bound room] unfolding plan option.case sum.case by blast+
  note slice = planned_slice [OF tiles facts(1)]
  have "\<exists>s'. run_windows write_at sources vs s1 = (s', ok_status) \<and> healthy s' \<and> sink_size s' = sink_size s1 \<and>
    (\<forall>d < unat (sink_size s1). sink_byte s' d =
      (if \<exists>w\<in>set vs. \<exists>sl\<in>set (w_slices w). slice_hits sl d then ?V d else sink_byte s1 d))"
  proof (rule run_windows_wanted [OF s1(2) complete])
    show "\<forall>v\<in>set vs. unat (w_source_index v) < length sources \<and>
        unat (w_src_offset v) + unat (w_length v) \<le> unat (src_total (sources ! unat (w_source_index v))) \<and>
        slices_in (unat (w_src_offset v)) (unat (w_src_offset v) + unat (w_length v)) (w_slices v)"
      using facts(2) unfolding window_planned_def by blast
    show "unat (sl_dst_offset sl) + unat (sl_length sl) \<le> unat (sink_size s1) \<and>
        (\<forall>k < unat (sl_length sl). content (unat (w_source_index v)) (unat (sl_src_offset sl) + k) =
          ?V (unat (sl_dst_offset sl) + k))" if v: "v \<in> set vs" "sl \<in> set (w_slices v)" for v sl
      unfolding s1(3) using slice [OF bspec [OF facts(2) v(1)] v(2)] sink(2) by (meson order_trans)
  qed
  then obtain s2 where s2: "run_windows write_at sources vs s1 = (s2, ok_status)" "healthy s2"
    "sink_size s2 = sink_size s" "\<forall>d < unat (sink_size s). sink_byte s2 d =
      (if \<exists>w\<in>set vs. \<exists>sl\<in>set (w_slices w). slice_hits sl d then ?V d else sink_byte s1 d)"
    unfolding s1(3) by blast
  have out: "\<not> (\<exists>p\<in>set (pad_segments segs). covers p d) \<and> \<not> (\<exists>w\<in>set vs. \<exists>sl\<in>set (w_slices w). slice_hits sl d)"
    if "\<not> d < unat t" for d
  proof -
    have "\<not> slice_hits sl d" if "w \<in> set vs" "sl \<in> set (w_slices w)" for w sl
      using slice [OF bspec [OF facts(2) that(1)] that(2)] \<open>\<not> d < unat t\<close> by (auto simp: slice_hits_def)
    moreover have "\<not> covers p d" if "p \<in> set (pad_segments segs)" for p
      using bounds that \<open>\<not> d < unat t\<close> by (fastforce simp: pad_segments_def covers_def)
    ultimately show ?thesis by blast
  qed
  have "sink_byte s2 d = (if d < unat t then ?V d else sink_byte s d)" if "d < unat (sink_size s)" for d
  proof (cases "d < unat t")
    case True
    from planned_hit [OF tiles facts(3) True] s1(4) s2(4) that True show ?thesis by auto
  next
    case False
    from out [OF False] s1(4) s2(4) that False show ?thesis by simp
  qed
  with s1 s2 show ?thesis by blast
qed

lemma execute_correct:
  assumes sort: "std_sort source_order srt"
    and room: "\<forall>src\<in>set sources. unat (src_total src) + unat (window_cap_bytes opts) < 2 ^ 64"
    and complete: "\<forall>i < length sources. seekable_source (sources ! i) (content i)"
    and sink: "healthy s" "unat (total_bytes m) \<le> unat (sink_size s)"
    and unpinned: "\<not> use_pinned_buffers pr"
  shows "\<exists>s' st. execute_map srt write_at pinned opts pr m sources s = Some (s', st) \<and>
    (if executable_map sources m
     then st = ok_status \<and> healthy s' \<and> (\<forall>d < unat (sink_size s). sink_byte s' d =
       (if d < unat (total_bytes m) then wanted content (segments m) d else sink_byte s d))
     else \<not> is_ok st \<and> s' = s)"
proof (cases "normalize_byte_range_map m")
  case (Inl e)
  then show ?thesis by (simp add: execute_map_def executable_map_def)
next
  case (Inr n)
  note nm = normalize_meaning [OF Inr]
  have tiles: "tiles 0 (unat (total_bytes m)) (segments n)"
    using nm(1,2) by (cases "total_bytes m = 0") (simp_all add: canonical_map_def)
  have want: "wanted content (segments n) = wanted content (segments m)" by (rule ext) (simp add: wanted_def nm(4))
  note pc = plan_windows_correct [OF sort tiles unat_u64_bound room]
  obtain r where r: "plan_windows srt opts sources (segments n) = Some r"
    using pc by (cases "plan_windows srt opts sources (segments n)") simp_all
  show ?thesis
  proof (cases r)
    case (Inl e)
    then have "\<not> schedulable sources (segments n)" using pc r by simp
    with Inl r \<open>normalize_byte_range_map m = Inr n\<close> show ?thesis
      by (simp add: execute_map_def executable_map_def)
  next
    case (Inr vs)
    then have sch: "schedulable sources (segments n)" using pc r by simp
    from run_planned [OF sort tiles room complete _ sink] r Inr obtain s1 s2 where
      "write_pads write_at (zero_chunk_bytes opts) (pad_segments (segments n)) s = (s1, ok_status)"
      "run_windows write_at sources vs s1 = (s2, ok_status)" "healthy s2"
      "\<forall>d < unat (sink_size s). sink_byte s2 d =
        (if d < unat (total_bytes m) then wanted content (segments m) d else sink_byte s d)"
      unfolding want by blast
    with sch r Inr unpinned \<open>normalize_byte_range_map m = Inr n\<close> show ?thesis
      by (simp add: execute_map_def executable_map_def)
  qed
qed

end
section \<open>Where the loop over a window does not end\<close>

text \<open>
  Beyond the hypothesis of the next sections (a source and one cap fit 64 bits) the cursor of
  \<open>split_windows\<close> wraps to the start of the window and the loop runs for ever.
\<close>

definition wrap_window :: SourceWindow where
  "wrap_window = \<lparr>w_source_index = 0, w_src_offset = 0, w_length = - 1, w_payload_bytes = - 1,
     w_slices = [\<lparr>sl_src_offset = 0, sl_dst_offset = 0, sl_length = - 1\<rparr>]\<rparr>"

lemma split_loop_wraps: "split_loop (2 ^ 63) wrap_window 0 = None"
proof -
  have "cap = 2 ^ 63 \<longrightarrow> win = wrap_window \<longrightarrow> x \<in> {0, 2 ^ 63} \<longrightarrow> False"
    if "split_loop cap win x = Some r" for cap win x r
    using that
  proof (rule split_loop.raw_induct [rotated])
    fix f cap win x r
    assume IH: "\<And>cap win x r. f cap win x = Some r \<Longrightarrow> cap = 2 ^ 63 \<longrightarrow> win = wrap_window \<longrightarrow> x \<in> {0, 2 ^ 63} \<longrightarrow> False"
      and step: "(if x < window_end win then
        Option.bind (f cap win (x + cap))
          (\<lambda>rest. let chunk = cut_chunk cap win x in Some (if 0 < w_payload_bytes chunk then chunk # rest else rest))
        else Some []) = Some r"
    show "cap = 2 ^ 63 \<longrightarrow> win = wrap_window \<longrightarrow> x \<in> {0, 2 ^ 63} \<longrightarrow> False"
    proof (intro impI)
      assume a: "cap = 2 ^ 63" "win = wrap_window" "x \<in> {0, 2 ^ 63}"
      have "x < window_end win" using a by (auto simp: window_end_def wrap_window_def word_greater_zero_iff)
      with step obtain r' where "f cap win (x + cap) = Some r'" by (auto simp: Option.bind_eq_Some_conv)
      from IH [OF this] a show False by auto
    qed
  qed
  then show ?thesis by (cases "split_loop (2 ^ 63) wrap_window 0") auto
qed

section \<open>Properties\<close>


text \<open>
  C32. The windows a map is planned into stay inside their sources, no window is longer than a
  configured cap, and all windows together read at most \<open>merge_max_amplification\<close> times the
  payload of the map's data segments (never more than the payload itself for an amplification
  of 0 or 1).
\<close>

theorem window_read_bounds:
  assumes "std_sort source_order srt"
    and "\<forall>src\<in>set sources. unat (src_total src) + unat (window_cap_bytes opts) < 2 ^ 64"
    and "normalize_byte_range_map m = Inr n"
    and "plan_windows srt opts sources (segments n) = Some (Inr vs)"
  shows "(\<forall>v\<in>set vs. unat (w_source_index v) < length sources \<and>
      unat (w_src_offset v) + unat (w_length v) \<le> unat (src_total (sources ! unat (w_source_index v))) \<and>
      (window_cap_bytes opts = 0 \<or> w_length v \<le> window_cap_bytes opts)) \<and>
    (\<Sum>v\<leftarrow>vs. unat (w_length v)) \<le>
      max 1 (unat (merge_max_amplification opts)) * (\<Sum>seg\<leftarrow>data_segments (segments n). unat (ss_length seg))"
proof -
  have tiles: "tiles 0 (unat (total_bytes m)) (segments n)"
    using normalize_meaning(1,2) [OF assms(3)] by (cases "total_bytes m = 0") (simp_all add: canonical_map_def)
  from plan_windows_correct [OF assms(1) tiles unat_u64_bound assms(2)]
  show ?thesis unfolding assms(4) option.case sum.case window_planned_def by blast
qed

section \<open>Examples\<close>

text \<open>Two in-memory sources; a map with a gap between its reads of the first one.\<close>

definition ex_memory :: memory where
  "ex_memory a = of_nat (10 + a)"

definition ex_sources :: "SeekableSource list" where
  "ex_sources = [cpu_source ex_memory \<lparr>ms_base_ptr = 0, ms_total_size = 6, ms_current_offset = 0\<rparr>,
     cpu_source ex_memory \<lparr>ms_base_ptr = 20, ms_total_size = 2, ms_current_offset = 0\<rparr>]"


definition ex_map :: ByteRangeMap where
  "ex_map = \<lparr>total_bytes = 4, num_sources = 2, segments =
     [\<lparr>kind = kData, dst_offset = 0, seg_length = 1, src_offset = 3, source_index = 0\<rparr>,
      \<lparr>kind = kData, dst_offset = 1, seg_length = 1, src_offset = 1, source_index = 1\<rparr>,
      \<lparr>kind = kData, dst_offset = 2, seg_length = 1, src_offset = 1, source_index = 0\<rparr>,
      \<lparr>kind = kPad, dst_offset = 3, seg_length = 1, src_offset = 0, source_index = 0\<rparr>]\<rparr>"

definition ex_opts :: Options where
  "ex_opts = \<lparr>merge_max_gap_bytes = 4, merge_max_amplification = 2, prefetch_depth = 1, window_cap_bytes = 2\<rparr>"


lemma ex_sources_room: "\<forall>src\<in>set ex_sources. unat (src_total src) + unat (window_cap_bytes ex_opts) < 2 ^ 64"
  by (simp add: ex_sources_def ex_opts_def cpu_source_def)

lemma ex_map_normal: "normalize_byte_range_map ex_map = Inr ex_map"
  by code_simp



theorem window_read_bounds_witness:
  "case plan_windows (sort_key source_order) ex_opts ex_sources (segments ex_map) of
     Some (Inr vs) \<Rightarrow> length vs = 3 \<and> list_all (\<lambda>v. w_length v \<le> 2) vs \<and> (\<Sum>v\<leftarrow>vs. unat (w_length v)) \<le> 6
   | _ \<Rightarrow> False"
proof -
  have "case plan_windows (sort_key source_order) ex_opts ex_sources (segments ex_map) of
      Some (Inr vs) \<Rightarrow> length vs = 3 | _ \<Rightarrow> False" by code_simp
  then obtain vs where vs: "plan_windows (sort_key source_order) ex_opts ex_sources (segments ex_map) = Some (Inr vs)"
    "length vs = 3" by (auto split: option.splits sum.splits)
  have "(\<Sum>seg\<leftarrow>data_segments (segments ex_map). unat (ss_length seg)) = 3" by code_simp
  with window_read_bounds [OF std_sort_sort_key ex_sources_room ex_map_normal vs(1)] vs show ?thesis
    by (auto simp: ex_opts_def list_all_iff)
qed

end
