(* ===== verification/Pinned_Pool.thy ===== *)
theory Pinned_Pool
  imports TC_Prelude
begin

text \<open>
  Pinned host memory (\<open>core/common/memory/pinned_buffer_pool.cc\<close>,
  \<open>pinned_memory_authority.cc\<close>): a pool of equal slices cut from one slab, and the authority
  that validates the configured classes and builds one pool for each. Addresses are 64-bit words;
  the address of the slab and the results of the CUDA registration calls are arguments. The
  iteration order of the free list is an argument of every allocation.
\<close>

section \<open>The pool\<close>

record Slab =
  slab_base :: u64
  slab_size :: u64

record PoolOptions =
  opt_name :: string
  opt_numa_node :: int
  opt_prefault :: bool
  register_on_create :: bool

record PinnedBufferPool =
  slabs :: "Slab list"
  free_list :: "u64 set"
  slices :: "u64 set"
  pool_waiters :: u64
  acquire_timeouts_total :: u64
  budget_exhausted_total :: u64
  slice_bytes :: u64
  pool_name :: string
  pool_numa_node :: int
  pool_prefault :: bool
  host_registered :: bool

definition kDirectIOAlignment :: u64 where
  "kDirectIOAlignment = 512"

definition aligned_chunk_size :: "u64 \<Rightarrow> u64" where
  "aligned_chunk_size n =
     (if n mod kDirectIOAlignment \<noteq> 0
      then ((n + kDirectIOAlignment - 1) div kDirectIOAlignment) * kDirectIOAlignment else n)"

definition num_buffers :: "u64 \<Rightarrow> u64 \<Rightarrow> u64" where
  "num_buffers tot chunk = (tot + chunk - 1) div chunk"

definition slice_at :: "u64 \<Rightarrow> u64 \<Rightarrow> nat \<Rightarrow> u64" where
  "slice_at base chunk i = base + of_nat i * chunk"

text \<open>
  The constructor. \<open>None\<close> is the end of the process: a fatal check, or the division by a chunk
  size that the rounding wrapped to 0. \<open>slab\<close> is what the allocation returned; the NUMA node and
  the prefault flag are the request the slab was bound with.
\<close>

definition new_pool :: "u64 \<Rightarrow> status \<Rightarrow> u64 \<Rightarrow> u64 \<Rightarrow> PoolOptions \<Rightarrow> PinnedBufferPool option" where
  "new_pool slab register_status tot chunk_size options =
     (if chunk_size = 0 \<or> tot = 0 then None
      else let chunk = aligned_chunk_size chunk_size;
               n = num_buffers tot chunk;
               bufs = set (map (slice_at slab chunk) [0..<unat n])
           in if chunk = 0 \<or> (register_on_create options \<and> \<not> is_ok register_status) then None
              else Some \<lparr>slabs = [\<lparr>slab_base = slab, slab_size = n * chunk\<rparr>], free_list = bufs, slices = bufs,
                         pool_waiters = 0, acquire_timeouts_total = 0, budget_exhausted_total = 0,
                         slice_bytes = chunk, pool_name = opt_name options,
                         pool_numa_node = opt_numa_node options, pool_prefault = opt_prefault options,
                         host_registered = register_on_create options\<rparr>)"

text \<open>
  The outcome of an allocation: an error code, the number of slices short, the slices, or the
  exception of resizing the result to a negative count.
\<close>

datatype alloc_outcome = AllocRejected | AllocShort int | Allocated "u64 list" | AllocThrows

definition to_int :: "u64 \<Rightarrow> int" where
  "to_int n = sint (ucast n :: 32 word)"

definition num_buffers_needed :: "PinnedBufferPool \<Rightarrow> u64 \<Rightarrow> int" where
  "num_buffers_needed p bytes = to_int ((bytes + slice_bytes p - 1) div slice_bytes p)"

definition memory_available :: "PinnedBufferPool \<Rightarrow> u64 \<Rightarrow> bool" where
  "memory_available p bytes \<longleftrightarrow> num_buffers_needed p bytes \<le> to_int (of_nat (card (free_list p)))"

definition take_slices :: "u64 list \<Rightarrow> u64 \<Rightarrow> PinnedBufferPool \<Rightarrow> PinnedBufferPool \<times> alloc_outcome" where
  "take_slices order bytes p =
     (let n = num_buffers_needed p bytes in
      if n < 0 then (p, AllocThrows)
      else let bufs = take (nat n) order
           in (p\<lparr>free_list := free_list p - set bufs\<rparr>, Allocated bufs))"

definition short_by :: "PinnedBufferPool \<Rightarrow> u64 \<Rightarrow> alloc_outcome" where
  "short_by p bytes = AllocShort (num_buffers_needed p bytes - int (card (free_list p)))"

definition pool_allocate :: "u64 list \<Rightarrow> u64 \<Rightarrow> PinnedBufferPool \<Rightarrow> PinnedBufferPool \<times> alloc_outcome" where
  "pool_allocate order bytes p =
     (if bytes = 0 \<or> \<not> host_registered p then (p, AllocRejected)
      else if \<not> memory_available p bytes
      then (p\<lparr>budget_exhausted_total := budget_exhausted_total p + 1\<rparr>, short_by p bytes)
      else take_slices order bytes p)"

text \<open>
  With a timeout, the call enters the wait and looks again whenever it wakes up; \<open>None\<close> is a
  look after which it keeps waiting.
\<close>

definition allocate_enter :: "u64 \<Rightarrow> PinnedBufferPool \<Rightarrow> PinnedBufferPool \<times> alloc_outcome option" where
  "allocate_enter bytes p =
     (if bytes = 0 \<or> \<not> host_registered p then (p, Some AllocRejected)
      else (p\<lparr>pool_waiters := pool_waiters p + 1\<rparr>, None))"

definition allocate_poll ::
  "bool \<Rightarrow> u64 list \<Rightarrow> u64 \<Rightarrow> PinnedBufferPool \<Rightarrow> PinnedBufferPool \<times> alloc_outcome option"
where
  "allocate_poll timed_out order bytes p =
     (if memory_available p bytes
      then map_prod id Some (take_slices order bytes (p\<lparr>pool_waiters := pool_waiters p - 1\<rparr>))
      else if timed_out
      then (p\<lparr>pool_waiters := pool_waiters p - 1, acquire_timeouts_total := acquire_timeouts_total p + 1,
              budget_exhausted_total := budget_exhausted_total p + 1\<rparr>, Some (short_by p bytes))
      else (p, None))"

fun pool_deallocate :: "u64 list \<Rightarrow> PinnedBufferPool \<Rightarrow> PinnedBufferPool \<times> int" where
  "pool_deallocate [] p = (p, 0)"
| "pool_deallocate (b # bs) p =
     (if b \<notin> slices p then (p, -1)
      else if b \<in> free_list p then (p, -1)
      else pool_deallocate bs (p\<lparr>free_list := insert b (free_list p)\<rparr>))"

definition get_available_size :: "PinnedBufferPool \<Rightarrow> u64" where
  "get_available_size p = of_nat (card (free_list p)) * slice_bytes p"

definition capacity_slices :: "PinnedBufferPool \<Rightarrow> nat" where
  "capacity_slices p = card (slices p)"

definition free_slices :: "PinnedBufferPool \<Rightarrow> nat" where
  "free_slices p = card (free_list p)"

definition in_use_slices :: "PinnedBufferPool \<Rightarrow> nat" where
  "in_use_slices p = card (slices p) - card (free_list p)"

text \<open>Registration of the slabs, with the result of each CUDA call; a failure undoes the earlier ones.\<close>

primrec register_slabs :: "(Slab \<Rightarrow> status) \<Rightarrow> Slab list \<Rightarrow> status" where
  "register_slabs reg [] = ok_status"
| "register_slabs reg (s # ss) = (case reg s of Inl e \<Rightarrow> Inl e | Inr _ \<Rightarrow> register_slabs reg ss)"

definition register_host_memory :: "(Slab \<Rightarrow> status) \<Rightarrow> PinnedBufferPool \<Rightarrow> PinnedBufferPool \<times> status" where
  "register_host_memory reg p =
     (if host_registered p then (p, ok_status)
      else case register_slabs reg (slabs p) of
             Inl e \<Rightarrow> (p, Inl e)
           | Inr _ \<Rightarrow> (p\<lparr>host_registered := True\<rparr>, ok_status))"

definition slab_for_ptr :: "PinnedBufferPool \<Rightarrow> u64 \<Rightarrow> Slab option" where
  "slab_for_ptr p a = List.find (\<lambda>s. slab_base s \<le> a \<and> a < slab_base s + slab_size s) (slabs p)"

section \<open>The authority\<close>

record ClassConfig =
  cls_name :: string
  cls_slice_bytes :: u64
  cls_pool_bytes :: u64
  rdma_preregister :: bool
  cls_numa_node :: int
  cls_numa_prefault :: bool

record AuthorityConfig =
  cfg_total_bytes :: u64
  cfg_classes :: "ClassConfig list"
  defer_host_registration :: bool

record PinnedMemoryAuthority =
  auth_cfg :: AuthorityConfig
  auth_classes :: "ClassConfig list"
  auth_pools :: "PinnedBufferPool list"

definition validate_class_config :: "ClassConfig \<Rightarrow> status" where
  "validate_class_config cls =
     (if cls_name cls = [] then Inl (Err InvalidArgument ''pinned_memory.classes[].name must be non-empty'')
      else if cls_slice_bytes cls = 0 then Inl (Err InvalidArgument ''slice_bytes must be > 0'')
      else if cls_slice_bytes cls mod 4096 \<noteq> 0
      then Inl (Err InvalidArgument ''slice_bytes must be a multiple of 4096 bytes'')
      else if cls_pool_bytes cls = 0 then Inl (Err InvalidArgument ''pool_bytes must be > 0'')
      else if cls_pool_bytes cls mod cls_slice_bytes cls \<noteq> 0
      then Inl (Err InvalidArgument ''pool_bytes must be a multiple of slice_bytes'')
      else ok_status)"

fun validate_classes :: "string list \<Rightarrow> u64 \<Rightarrow> ClassConfig list \<Rightarrow> u64 status_or" where
  "validate_classes seen sum_bytes [] = Inr sum_bytes"
| "validate_classes seen sum_bytes (cls # rest) =
     (case validate_class_config cls of
        Inl e \<Rightarrow> Inl e
      | Inr _ \<Rightarrow>
        if cls_name cls \<in> set seen then Inl (Err InvalidArgument ''Duplicate pinned_memory class name'')
        else validate_classes (cls_name cls # seen) (sum_bytes + cls_pool_bytes cls) rest)"

text \<open>
  The pools. With one class the options of the class are passed on; with several, each task sets
  only the name and the registration flag, so the defaults of the other options apply.
\<close>

definition class_options :: "bool \<Rightarrow> AuthorityConfig \<Rightarrow> ClassConfig \<Rightarrow> PoolOptions" where
  "class_options single cfg cls =
     \<lparr>opt_name = cls_name cls, opt_numa_node = (if single then cls_numa_node cls else -1),
      opt_prefault = (if single then cls_numa_prefault cls else False),
      register_on_create = \<not> defer_host_registration cfg\<rparr>"

text \<open>\<open>None\<close>: a fatal check of a constructor. \<open>slab\<close> and \<open>reg\<close> give the address and the
  registration result of the slab of a class.\<close>

definition build_pools ::
  "(string \<Rightarrow> u64) \<Rightarrow> (string \<Rightarrow> status) \<Rightarrow> AuthorityConfig \<Rightarrow> PinnedBufferPool list option"
where
  "build_pools slab reg cfg =
     those (map (\<lambda>cls. new_pool (slab (cls_name cls)) (reg (cls_name cls)) (cls_pool_bytes cls)
                         (cls_slice_bytes cls) (class_options (length (cfg_classes cfg) = 1) cfg cls))
              (cfg_classes cfg))"

definition create_authority ::
  "(string \<Rightarrow> u64) \<Rightarrow> (string \<Rightarrow> status) \<Rightarrow> AuthorityConfig \<Rightarrow> PinnedMemoryAuthority status_or option"
where
  "create_authority slab reg cfg =
     (if cfg_classes cfg = [] then Some (Inl (Err InvalidArgument ''pinned_memory.classes must be non-empty''))
      else case validate_classes [] 0 (cfg_classes cfg) of
             Inl e \<Rightarrow> Some (Inl e)
           | Inr sum_bytes \<Rightarrow>
               map_option (\<lambda>pools. Inr \<lparr>auth_cfg = cfg\<lparr>cfg_total_bytes := sum_bytes\<rparr>,
                   auth_classes = cfg_classes cfg, auth_pools = pools\<rparr>)
                 (build_pools slab reg cfg))"

definition get_class_pool :: "PinnedMemoryAuthority \<Rightarrow> string \<Rightarrow> PinnedBufferPool status_or" where
  "get_class_pool a n =
     (case List.find (\<lambda>(cls, p). cls_name cls = n) (zip (auth_classes a) (auth_pools a)) of
        Some (cls, p) \<Rightarrow> Inr p
      | None \<Rightarrow> Inl (Err InvalidArgument ''Unknown pinned_memory class''))"

definition get_class_config :: "PinnedMemoryAuthority \<Rightarrow> string \<Rightarrow> ClassConfig status_or" where
  "get_class_config a n =
     (case List.find (\<lambda>cls. cls_name cls = n) (auth_classes a) of
        Some cls \<Rightarrow> Inr cls
      | None \<Rightarrow> Inl (Err InvalidArgument ''Unknown pinned_memory class''))"

definition committed_bytes :: "PinnedMemoryAuthority \<Rightarrow> u64" where
  "committed_bytes a = sum_list (map (\<lambda>p. of_nat (capacity_slices p) * slice_bytes p) (auth_pools a))"

definition class_names :: "PinnedMemoryAuthority \<Rightarrow> string list" where
  "class_names a = map cls_name (auth_classes a)"
section \<open>Lemmas\<close>

text \<open>The contract of the iteration order of the free list: every free slice once.\<close>

definition iterates :: "u64 list \<Rightarrow> PinnedBufferPool \<Rightarrow> bool" where
  "iterates order p \<longleftrightarrow> distinct order \<and> set order = free_list p"

definition pool_ok :: "PinnedBufferPool \<Rightarrow> bool" where
  "pool_ok p \<longleftrightarrow> finite (slices p) \<and> free_list p \<subseteq> slices p"

text \<open>Two pools that differ in their counters only.\<close>

definition same_slices :: "PinnedBufferPool \<Rightarrow> PinnedBufferPool \<Rightarrow> bool" where
  "same_slices p q \<longleftrightarrow> free_list p = free_list q \<and> slices p = slices q \<and> slice_bytes p = slice_bytes q"

lemma to_int_range: "- (2 ^ 31) \<le> to_int n" "to_int n < 2 ^ 31"
proof -
  show "- (2 ^ 31) \<le> to_int n" using sint_ge [of "ucast n :: 32 word"] by (simp add: to_int_def)
  show "to_int n < 2 ^ 31" using sint_lt [of "ucast n :: 32 word"] by (simp add: to_int_def)
qed

lemma to_int_small:
  assumes "unat n < 2 ^ 31"
  shows "to_int n = int (unat n)"
proof -
  have "to_int n = signed_take_bit 31 (uint n)"
    unfolding to_int_def by transfer (simp add: signed_take_bit_take_bit min_def)
  also have "\<dots> = int (unat n)" unfolding uint_nat [of n]
  proof (rule signed_take_bit_int_eq_self)
    show "- (2 ^ 31) \<le> int (unat n)" by (rule order_trans [of _ 0]) simp_all
    have "int (unat n) < int (2 ^ 31)" using assms by (simp only: of_nat_less_iff)
    then show "int (unat n) < 2 ^ 31" by simp
  qed
  finally show ?thesis .
qed

lemma take_slices_cases:
  assumes "iterates order p" "take_slices order bytes p = (q, Allocated bufs)"
  shows "distinct bufs" "set bufs \<subseteq> free_list p" "free_list q = free_list p - set bufs"
    "slices q = slices p" "slice_bytes q = slice_bytes p" "length bufs < 2 ^ 31"
  using assms to_int_range(2) [of "(bytes + slice_bytes p - 1) div slice_bytes p"] set_take_subset [of _ order]
  by (auto simp: take_slices_def Let_def iterates_def num_buffers_needed_def min_def split: if_splits)

lemma pool_allocate_ok:
  assumes "iterates order p" "pool_allocate order bytes p = (q, Allocated bufs)"
  shows "distinct bufs" "set bufs \<subseteq> free_list p" "free_list q = free_list p - set bufs"
    "slices q = slices p" "slice_bytes q = slice_bytes p" "length bufs < 2 ^ 31"
  using assms take_slices_cases [OF assms(1)] by (auto simp: pool_allocate_def short_by_def split: if_splits)

lemma pool_allocate_other:
  assumes "pool_allocate order bytes p = (q, r)" "\<nexists>bufs. r = Allocated bufs"
  shows "same_slices q p"
  using assms by (auto simp: pool_allocate_def take_slices_def Let_def same_slices_def split: if_splits)

lemma allocate_enter_same: "allocate_enter bytes p = (q, r) \<Longrightarrow> same_slices q p \<and> (\<nexists>bufs. r = Some (Allocated bufs))"
  by (auto simp: allocate_enter_def same_slices_def split: if_splits)

lemma allocate_poll_ok:
  assumes "iterates order p" "allocate_poll timed_out order bytes p = (q, Some (Allocated bufs))"
  shows "distinct bufs" "set bufs \<subseteq> free_list p" "free_list q = free_list p - set bufs"
    "slices q = slices p" "slice_bytes q = slice_bytes p" "length bufs < 2 ^ 31"
proof -
  let ?p = "p\<lparr>pool_waiters := pool_waiters p - 1\<rparr>"
  have "iterates order ?p" using assms(1) by (simp add: iterates_def)
  moreover have "take_slices order bytes ?p = (q, Allocated bufs)"
    using assms(2) by (auto simp: allocate_poll_def short_by_def map_prod_def split: if_splits prod.splits)
  ultimately show "distinct bufs" "set bufs \<subseteq> free_list p" "free_list q = free_list p - set bufs"
    "slices q = slices p" "slice_bytes q = slice_bytes p" "length bufs < 2 ^ 31"
    using take_slices_cases [of order ?p bytes q bufs] by simp_all
qed

lemma allocate_poll_other:
  assumes "allocate_poll timed_out order bytes p = (q, r)" "\<nexists>bufs. r = Some (Allocated bufs)"
  shows "same_slices q p"
  using assms by (auto simp: allocate_poll_def take_slices_def Let_def same_slices_def split: if_splits)

lemma pool_deallocate_ok:
  assumes "distinct bs" "set bs \<subseteq> slices p" "set bs \<inter> free_list p = {}"
  shows "pool_deallocate bs p = (p\<lparr>free_list := free_list p \<union> set bs\<rparr>, 0)"
  using assms by (induction bs arbitrary: p) auto

text \<open>A refused list of slices: it repeats one, holds a free one or one of another pool.\<close>

lemma pool_deallocate_iff:
  "snd (pool_deallocate bs p) = 0 \<longleftrightarrow> distinct bs \<and> set bs \<subseteq> slices p \<and> set bs \<inter> free_list p = {}"
  by (induction bs arbitrary: p) auto

text \<open>A request whose rounding wraps is answered with no slice and no error.\<close>

lemma wrapped_allocation_succeeds:
  assumes "host_registered p" "slice_bytes p = 4096" "card (free_list p) < 2 ^ 31"
  shows "pool_allocate order (- 1) p = (p, Allocated [])"
proof -
  have "to_int (of_nat (card (free_list p))) = int (card (free_list p))"
    using assms(3) by (subst to_int_small) (simp_all add: unat_of_nat_u64)
  moreover have "num_buffers_needed p (- 1) = 0" using assms(2) by (simp add: num_buffers_needed_def to_int_def)
  ultimately show ?thesis
    using assms(1) by (simp add: pool_allocate_def memory_available_def take_slices_def)
qed

text \<open>The node a class asks for is lost when there are two classes.\<close>

definition numa_classes :: AuthorityConfig where
  "numa_classes = \<lparr>cfg_total_bytes = 0, cfg_classes =
     [\<lparr>cls_name = ''a'', cls_slice_bytes = 4096, cls_pool_bytes = 4096, rdma_preregister = False,
       cls_numa_node = 1, cls_numa_prefault = True\<rparr>,
      \<lparr>cls_name = ''b'', cls_slice_bytes = 4096, cls_pool_bytes = 8192, rdma_preregister = False,
       cls_numa_node = 0, cls_numa_prefault = True\<rparr>], defer_host_registration = False\<rparr>"

lemma two_classes_lose_numa_node:
  "map_option (map_sum id (\<lambda>a. map (\<lambda>p. (pool_numa_node p, pool_prefault p)) (auth_pools a)))
     (create_authority (\<lambda>n. 0) (\<lambda>n. ok_status) numa_classes) = Some (Inr [(-1, False), (-1, False)])"
  by code_simp

end
