(* ===== verification/Streaming_Buffer.thy ===== *)
theory Streaming_Buffer
  imports Pinned_Pool
begin

text \<open>
  The streaming buffer between a producer and a consumer
  (\<open>core/common/memory/streaming_pinned_buffer.cc\<close>) over slices of a pinned pool, and the guard
  that owns one slot of it (\<open>streaming_chunk_guard.cc\<close>). Every operation runs under the mutex of
  the buffer and is one step here; a call that waits on a condition returns \<open>None\<close> for a look
  after which it keeps waiting. The lemmas show who owns each slot and each slice in every state
  that interleaved calls can reach.
\<close>

section \<open>State\<close>

datatype SlotState = kFree | kProducerOwned | kReady | kConsumerOwned

record ReadyChunk =
  rc_slot_id :: int
  rc_global_chunk_id :: u64
  rc_bytes_in_chunk :: u64
  rc_data_ptr :: u64

record StreamingPinnedBuffer =
  sb_num_chunks :: u64
  sb_chunk_size :: u64
  chunk_buffers :: "u64 list"
  slot_states :: "SlotState list"
  slot_chunk_ids :: "u64 list"
  slot_epochs :: "u64 list"
  next_epoch :: u64
  free_queue :: "int list"
  ready_queue :: "ReadyChunk list"
  initialized :: bool
  production_complete :: bool
  chunks_produced :: u64
  chunks_consumed :: u64

definition new_buffer :: "u64 \<Rightarrow> u64 \<Rightarrow> StreamingPinnedBuffer" where
  "new_buffer n chunk_size =
     \<lparr>sb_num_chunks = n, sb_chunk_size = chunk_size, chunk_buffers = [],
      slot_states = replicate (unat n) kFree, slot_chunk_ids = replicate (unat n) 0,
      slot_epochs = replicate (unat n) 0, next_epoch = 0, free_queue = [], ready_queue = [],
      initialized = False, production_complete = False, chunks_produced = 0, chunks_consumed = 0\<rparr>"

definition not_initialized :: "'a status_or" where
  "not_initialized = Inl (Err FailedPrecondition ''StreamingPinnedBuffer not initialized'')"

definition clear_slots :: "StreamingPinnedBuffer \<Rightarrow> StreamingPinnedBuffer" where
  "clear_slots b = b\<lparr>slot_states := replicate (length (slot_states b)) kFree,
     slot_chunk_ids := replicate (length (slot_states b)) 0,
     slot_epochs := replicate (length (slot_states b)) 0\<rparr>"

definition all_slots :: "StreamingPinnedBuffer \<Rightarrow> int list" where
  "all_slots b = map int [0..<unat (sb_num_chunks b)]"

section \<open>Allocation and release\<close>

definition initialize_with ::
  "bool \<Rightarrow> alloc_outcome \<Rightarrow> PinnedBufferPool \<Rightarrow> StreamingPinnedBuffer \<Rightarrow>
   PinnedBufferPool \<times> StreamingPinnedBuffer \<times> status"
where
  "initialize_with has_timeout outcome p b =
     (case outcome of
        AllocThrows \<Rightarrow> (p, b, Inl (Err Thrown ''length_error''))
      | AllocRejected \<Rightarrow> (p, b, Inl (Err ResourceExhausted ''Failed to allocate pinned slices from pool''))
      | AllocShort n \<Rightarrow>
          (p, b, if 0 < n \<and> has_timeout
                 then Inl (Err DeadlineExceeded ''Timeout waiting for pinned slices from pool'')
                 else Inl (Err ResourceExhausted ''Failed to allocate pinned slices from pool''))
      | Allocated bufs \<Rightarrow>
          if length bufs \<noteq> unat (sb_num_chunks b)
          then (fst (pool_deallocate bufs p), b\<lparr>chunk_buffers := []\<rparr>,
                Inl (Err Internal ''Allocated chunk count mismatch''))
          else (p, (clear_slots b)\<lparr>chunk_buffers := bufs, free_queue := free_queue b @ all_slots b,
                     next_epoch := 0, initialized := True\<rparr>, ok_status))"

definition already_initialized :: "'a status_or" where
  "already_initialized = Inl (Err AlreadyExists ''StreamingPinnedBuffer already initialized'')"

definition initialize ::
  "u64 list \<Rightarrow> PinnedBufferPool \<Rightarrow> StreamingPinnedBuffer \<Rightarrow> PinnedBufferPool \<times> StreamingPinnedBuffer \<times> status"
where
  "initialize order p b =
     (if initialized b then (p, b, already_initialized)
      else case pool_allocate order (sb_num_chunks b * sb_chunk_size b) p of
             (p', outcome) \<Rightarrow> initialize_with False outcome p' b)"

definition initialize_enter ::
  "PinnedBufferPool \<Rightarrow> StreamingPinnedBuffer \<Rightarrow> PinnedBufferPool \<times> StreamingPinnedBuffer \<times> status option"
where
  "initialize_enter p b =
     (if initialized b then (p, b, Some already_initialized)
      else case allocate_enter (sb_num_chunks b * sb_chunk_size b) p of
             (p', None) \<Rightarrow> (p', b, None)
           | (p', Some outcome) \<Rightarrow> map_prod id (map_prod id Some) (initialize_with True outcome p' b))"

definition initialize_poll ::
  "bool \<Rightarrow> u64 list \<Rightarrow> PinnedBufferPool \<Rightarrow> StreamingPinnedBuffer \<Rightarrow>
   PinnedBufferPool \<times> StreamingPinnedBuffer \<times> status option"
where
  "initialize_poll timed_out order p b =
     (case allocate_poll timed_out order (sb_num_chunks b * sb_chunk_size b) p of
        (p', None) \<Rightarrow> (p', b, None)
      | (p', Some outcome) \<Rightarrow> map_prod id (map_prod id Some) (initialize_with True outcome p' b))"

definition all_chunks_returned :: "StreamingPinnedBuffer \<Rightarrow> bool" where
  "all_chunks_returned b \<longleftrightarrow> length (free_queue b) = unat (sb_num_chunks b)"

text \<open>\<open>release\<close>, at the end of its wait for the chunks.\<close>

definition buffer_release ::
  "PinnedBufferPool \<Rightarrow> StreamingPinnedBuffer \<Rightarrow> PinnedBufferPool \<times> StreamingPinnedBuffer \<times> status"
where
  "buffer_release p b =
     (if \<not> initialized b then (p, b, not_initialized)
      else if length (free_queue b) < unat (sb_num_chunks b)
      then (p, b, Inl (Err DeadlineExceeded ''StreamingPinnedBuffer::release timed out''))
      else case pool_deallocate (chunk_buffers b) p of
             (p', result) \<Rightarrow>
               if result \<noteq> 0
               then (p', b, Inl (Err Internal ''Failed to deallocate chunks to pinned memory pool''))
               else (p', (clear_slots b)\<lparr>chunk_buffers := [], free_queue := [], next_epoch := 0,
                          ready_queue := [], initialized := False, production_complete := False,
                          chunks_produced := 0, chunks_consumed := 0\<rparr>, ok_status))"

section \<open>Slots\<close>

definition set_slot_state :: "int \<Rightarrow> SlotState \<Rightarrow> StreamingPinnedBuffer \<Rightarrow> StreamingPinnedBuffer" where
  "set_slot_state i st b = b\<lparr>slot_states := (slot_states b)[nat i := st]\<rparr>"

definition get_slot_state :: "int \<Rightarrow> StreamingPinnedBuffer \<Rightarrow> SlotState" where
  "get_slot_state i b = slot_states b ! nat i"

definition set_chunk_id :: "int \<Rightarrow> u64 \<Rightarrow> StreamingPinnedBuffer \<Rightarrow> StreamingPinnedBuffer" where
  "set_chunk_id i c b = b\<lparr>slot_chunk_ids := (slot_chunk_ids b)[nat i := c]\<rparr>"

definition bump_epoch :: "int \<Rightarrow> StreamingPinnedBuffer \<Rightarrow> StreamingPinnedBuffer" where
  "bump_epoch i b = b\<lparr>next_epoch := next_epoch b + 1, slot_epochs := (slot_epochs b)[nat i := next_epoch b + 1]\<rparr>"

definition valid_slot_id :: "int \<Rightarrow> StreamingPinnedBuffer \<Rightarrow> bool" where
  "valid_slot_id i b \<longleftrightarrow> 0 \<le> i \<and> i < to_int (sb_num_chunks b)"

text \<open>The common guards of the operations on a slot: initialised, a valid slot, the expected state.\<close>

definition slot_guard :: "string \<Rightarrow> int \<Rightarrow> SlotState \<Rightarrow> StreamingPinnedBuffer \<Rightarrow> status" where
  "slot_guard msg i st b =
     (if \<not> initialized b then not_initialized
      else if \<not> valid_slot_id i b then Inl (Err InvalidArgument ''Invalid slot_id'')
      else if get_slot_state i b \<noteq> st then Inl (Err FailedPrecondition msg)
      else ok_status)"

definition on_slot ::
  "string \<Rightarrow> int \<Rightarrow> SlotState \<Rightarrow> (StreamingPinnedBuffer \<Rightarrow> StreamingPinnedBuffer) \<Rightarrow>
   StreamingPinnedBuffer \<Rightarrow> StreamingPinnedBuffer \<times> status"
where
  "on_slot msg i st f b = (case slot_guard msg i st b of Inl e \<Rightarrow> (b, Inl e) | Inr _ \<Rightarrow> (f b, ok_status))"

definition reset_for_new_production :: "StreamingPinnedBuffer \<Rightarrow> StreamingPinnedBuffer \<times> status" where
  "reset_for_new_production b =
     (if \<not> initialized b then (b, not_initialized)
      else let ready = map rc_slot_id (ready_queue b);
               b1 = b\<lparr>production_complete := False, chunks_produced := 0, chunks_consumed := 0,
                      ready_queue := [], free_queue := free_queue b @ ready\<rparr>;
               b2 = fold (\<lambda>i b. set_chunk_id i 0 (set_slot_state i kFree b)) ready b1;
               b3 = (if length (free_queue b2) \<noteq> unat (sb_num_chunks b2)
                     then (clear_slots b2)\<lparr>free_queue := all_slots b2\<rparr> else b2)
           in (b3\<lparr>next_epoch := 0\<rparr>, ok_status))"

definition take_free :: "StreamingPinnedBuffer \<Rightarrow> StreamingPinnedBuffer \<times> int" where
  "take_free b =
     (let i = hd (free_queue b)
      in (set_slot_state i kProducerOwned (bump_epoch i (set_chunk_id i 0 (b\<lparr>free_queue := tl (free_queue b)\<rparr>))), i))"

definition get_free_chunk :: "StreamingPinnedBuffer \<Rightarrow> StreamingPinnedBuffer \<times> int status_or option" where
  "get_free_chunk b =
     (if \<not> initialized b then (b, Some not_initialized)
      else if free_queue b = [] then
        (b, if production_complete b
            then Some (Inl (Err OutOfRange ''No more free chunks and production is complete'')) else None)
      else map_prod id (Some \<circ> Inr) (take_free b))"

definition try_get_free_chunk :: "StreamingPinnedBuffer \<Rightarrow> StreamingPinnedBuffer \<times> int status_or" where
  "try_get_free_chunk b =
     (if \<not> initialized b then (b, not_initialized)
      else if free_queue b = [] then (b, Inl (Err Unavailable ''No free chunks available''))
      else map_prod id Inr (take_free b))"

definition promote_producer_slot_to_consumer ::
  "int \<Rightarrow> u64 \<Rightarrow> u64 \<Rightarrow> StreamingPinnedBuffer \<Rightarrow> StreamingPinnedBuffer \<times> status"
where
  "promote_producer_slot_to_consumer i chunk_id bytes b =
     (if \<not> initialized b then (b, not_initialized)
      else if \<not> valid_slot_id i b then (b, Inl (Err InvalidArgument ''Invalid slot_id''))
      else if bytes = 0 \<or> sb_chunk_size b < bytes
      then (b, Inl (Err InvalidArgument ''bytes_in_chunk must be within (0, chunk_size]''))
      else on_slot ''promote_producer_slot_to_consumer requires producer-owned slot'' i kProducerOwned
             (\<lambda>b. (set_slot_state i kConsumerOwned (bump_epoch i (set_chunk_id i chunk_id b)))
                \<lparr>chunks_produced := chunks_produced b + 1\<rparr>) b)"

definition abort_producer_slot :: "int \<Rightarrow> StreamingPinnedBuffer \<Rightarrow> StreamingPinnedBuffer \<times> status" where
  "abort_producer_slot i =
     on_slot ''abort_producer_slot expects producer-owned slot'' i kProducerOwned
       (\<lambda>b. (set_chunk_id i 0 (set_slot_state i kFree b))\<lparr>free_queue := free_queue b @ [i]\<rparr>)"

definition mark_chunk_ready :: "int \<Rightarrow> u64 \<Rightarrow> u64 \<Rightarrow> StreamingPinnedBuffer \<Rightarrow> StreamingPinnedBuffer \<times> status" where
  "mark_chunk_ready i chunk_id bytes =
     on_slot ''mark_chunk_ready expects producer-owned slot'' i kProducerOwned
       (\<lambda>b. (set_slot_state i kReady (set_chunk_id i chunk_id b))
          \<lparr>ready_queue := ready_queue b @ [\<lparr>rc_slot_id = i, rc_global_chunk_id = chunk_id,
             rc_bytes_in_chunk = bytes, rc_data_ptr = chunk_buffers b ! nat i\<rparr>],
           chunks_produced := chunks_produced b + 1\<rparr>)"

definition get_ready_chunk :: "StreamingPinnedBuffer \<Rightarrow> StreamingPinnedBuffer \<times> ReadyChunk status_or option" where
  "get_ready_chunk b =
     (if \<not> initialized b then (b, Some not_initialized)
      else case ready_queue b of
             [] \<Rightarrow> (b, if production_complete b
                      then Some (Inl (Err OutOfRange ''No more ready chunks and production is complete''))
                      else None)
           | chunk # rest \<Rightarrow>
               let i = rc_slot_id chunk; b1 = b\<lparr>ready_queue := rest\<rparr> in
               (case slot_guard ''get_ready_chunk found slot in unexpected state'' i kReady b1 of
                  Inl e \<Rightarrow> (b1, Some (Inl e))
                | Inr _ \<Rightarrow> (set_chunk_id i (rc_global_chunk_id chunk) (set_slot_state i kConsumerOwned b1),
                           Some (Inr chunk))))"

definition return_chunk :: "int \<Rightarrow> StreamingPinnedBuffer \<Rightarrow> StreamingPinnedBuffer \<times> status" where
  "return_chunk i =
     on_slot ''return_chunk expects consumer-owned slot'' i kConsumerOwned
       (\<lambda>b. (set_chunk_id i 0 (set_slot_state i kFree b))
          \<lparr>free_queue := free_queue b @ [i], chunks_consumed := chunks_consumed b + 1\<rparr>)"

definition get_chunk_ptr :: "int \<Rightarrow> StreamingPinnedBuffer \<Rightarrow> u64 option" where
  "get_chunk_ptr i b = (if valid_slot_id i b then Some (chunk_buffers b ! nat i) else None)"

definition signal_production_complete :: "StreamingPinnedBuffer \<Rightarrow> StreamingPinnedBuffer" where
  "signal_production_complete b = b\<lparr>production_complete := True\<rparr>"

definition is_consumption_complete :: "StreamingPinnedBuffer \<Rightarrow> bool" where
  "is_consumption_complete b \<longleftrightarrow>
     production_complete b \<and> ready_queue b = [] \<and> chunks_consumed b = chunks_produced b"

definition inflight :: "StreamingPinnedBuffer \<Rightarrow> u64" where
  "inflight b = sb_num_chunks b - of_nat (length (free_queue b)) - of_nat (length (ready_queue b))"
section \<open>Ownership of slots\<close>

definition slots_in :: "SlotState \<Rightarrow> StreamingPinnedBuffer \<Rightarrow> int set" where
  "slots_in st b = {i. 0 \<le> i \<and> i < int (length (slot_states b)) \<and> slot_states b ! nat i = st}"

definition delivered_states :: "SlotState set" where
  "delivered_states = {kReady, kConsumerOwned}"

definition outstanding :: "StreamingPinnedBuffer \<Rightarrow> nat" where
  "outstanding b = length (filter (\<lambda>st. st \<in> delivered_states) (slot_states b))"

definition queues_ok :: "StreamingPinnedBuffer \<Rightarrow> bool" where
  "queues_ok b \<longleftrightarrow> distinct (free_queue b) \<and> set (free_queue b) = slots_in kFree b \<and>
     distinct (map rc_slot_id (ready_queue b)) \<and> rc_slot_id ` set (ready_queue b) = slots_in kReady b \<and>
     (\<forall>r\<in>set (ready_queue b). rc_data_ptr r = chunk_buffers b ! nat (rc_slot_id r)) \<and>
     chunks_produced b = chunks_consumed b + of_nat (outstanding b)"

definition buffer_ok :: "StreamingPinnedBuffer \<Rightarrow> bool" where
  "buffer_ok b \<longleftrightarrow> length (slot_states b) = unat (sb_num_chunks b) \<and>
     (if initialized b
      then unat (sb_num_chunks b) < 2 ^ 31 \<and> length (chunk_buffers b) = unat (sb_num_chunks b) \<and> queues_ok b
      else chunk_buffers b = [] \<and> free_queue b = [] \<and> ready_queue b = [] \<and>
           chunks_produced b = 0 \<and> chunks_consumed b = 0)"

lemma length_filter_update:
  assumes "i < length xs"
  shows "length (filter P (xs[i := x])) + (if P (xs ! i) then 1 else 0) = length (filter P xs) + (if P x then 1 else 0)"
  using assms
proof (induction xs arbitrary: i)
  case (Cons a xs)
  then show ?case by (cases i) fastforce+
qed simp

lemma slots_in_set_slot_state:
  assumes "0 \<le> i" "i < int (length (slot_states b))"
  shows "slots_in st (set_slot_state i st' b) = (if st = st' then insert i (slots_in st b) else slots_in st b - {i})"
  using assms by (auto simp: slots_in_def set_slot_state_def nth_list_update nat_eq_iff)

lemma outstanding_set_slot_state:
  assumes "0 \<le> i" "i < int (length (slot_states b))"
  shows "outstanding (set_slot_state i st b) + (if slot_states b ! nat i \<in> delivered_states then 1 else 0) =
    outstanding b + (if st \<in> delivered_states then 1 else 0)"
  using length_filter_update [of "nat i" "slot_states b" "\<lambda>st. st \<in> delivered_states" st] assms
  by (simp add: outstanding_def set_slot_state_def)

text \<open>Updates that the ownership of slots does not see.\<close>

lemma slots_in_cong: "slot_states b = slot_states c \<Longrightarrow> slots_in st b = slots_in st c"
  by (simp add: slots_in_def)

lemma outstanding_cong: "slot_states b = slot_states c \<Longrightarrow> outstanding b = outstanding c"
  by (simp add: outstanding_def)

lemma slot_states_simps [simp]:
  "slot_states (set_chunk_id i c b) = slot_states b"
  "slot_states (bump_epoch i b) = slot_states b"
  "slot_states (set_slot_state i st b) = (slot_states b)[nat i := st]"
  by (simp_all add: set_chunk_id_def bump_epoch_def set_slot_state_def)

lemma queue_simps [simp]:
  "free_queue (set_chunk_id i c b) = free_queue b" "free_queue (bump_epoch i b) = free_queue b"
  "free_queue (set_slot_state i st b) = free_queue b"
  "ready_queue (set_chunk_id i c b) = ready_queue b" "ready_queue (bump_epoch i b) = ready_queue b"
  "ready_queue (set_slot_state i st b) = ready_queue b"
  "chunk_buffers (set_chunk_id i c b) = chunk_buffers b" "chunk_buffers (bump_epoch i b) = chunk_buffers b"
  "chunk_buffers (set_slot_state i st b) = chunk_buffers b"
  "initialized (set_chunk_id i c b) = initialized b" "initialized (bump_epoch i b) = initialized b"
  "initialized (set_slot_state i st b) = initialized b"
  "sb_num_chunks (set_chunk_id i c b) = sb_num_chunks b" "sb_num_chunks (bump_epoch i b) = sb_num_chunks b"
  "sb_num_chunks (set_slot_state i st b) = sb_num_chunks b"
  "chunks_produced (set_chunk_id i c b) = chunks_produced b" "chunks_produced (bump_epoch i b) = chunks_produced b"
  "chunks_produced (set_slot_state i st b) = chunks_produced b"
  "chunks_consumed (set_chunk_id i c b) = chunks_consumed b" "chunks_consumed (bump_epoch i b) = chunks_consumed b"
  "chunks_consumed (set_slot_state i st b) = chunks_consumed b"
  by (simp_all add: set_chunk_id_def bump_epoch_def set_slot_state_def)

text \<open>
  One slot changes hands: what the queues and the counters have to show afterwards. Every
  operation on a slot is an instance.
\<close>

lemma move_slot_ok:
  assumes ok: "buffer_ok b" "initialized b" and i: "i \<in> slots_in old b"
    and states: "slot_states c = (slot_states b)[nat i := new]"
    and same: "sb_num_chunks c = sb_num_chunks b" "chunk_buffers c = chunk_buffers b" "initialized c"
    and free: "distinct (free_queue c)"
      "set (free_queue c) = (if new = kFree then insert i (slots_in kFree b) else slots_in kFree b - {i})"
    and ready: "distinct (map rc_slot_id (ready_queue c))"
      "rc_slot_id ` set (ready_queue c) = (if new = kReady then insert i (slots_in kReady b) else slots_in kReady b - {i})"
      "\<forall>r\<in>set (ready_queue c). rc_data_ptr r = chunk_buffers b ! nat (rc_slot_id r)"
    and count: "chunks_produced c - chunks_consumed c + of_bool (old \<in> delivered_states) =
      chunks_produced b - chunks_consumed b + of_bool (new \<in> delivered_states)"
  shows "buffer_ok c"
proof -
  have range: "0 \<le> i" "i < int (length (slot_states b))" and old: "slot_states b ! nat i = old"
    using i by (auto simp: slots_in_def)
  have st: "slot_states c = slot_states (set_slot_state i new b)" using states by simp
  have sl: "slots_in s c = (if s = new then insert i (slots_in s b) else slots_in s b - {i})" for s
    using slots_in_cong [OF st, of s] slots_in_set_slot_state [OF range, of s new] by simp
  have "of_nat (outstanding c) + of_bool (old \<in> delivered_states) =
      (of_nat (outstanding b) + of_bool (new \<in> delivered_states) :: u64)"
    using arg_cong [OF outstanding_set_slot_state [OF range, of new], of "of_nat :: nat \<Rightarrow> u64"]
    unfolding outstanding_cong [OF st] old of_nat_add by (simp add: of_bool_def if_distrib cong: if_cong)
  moreover have "chunks_produced b - chunks_consumed b = of_nat (outstanding b)"
    using ok by (simp add: buffer_ok_def queues_ok_def)
  ultimately have "chunks_produced c - chunks_consumed c = of_nat (outstanding c)"
    using count by (metis add_right_cancel)
  then have "chunks_produced c = chunks_consumed c + of_nat (outstanding c)"
    by (metis add.commute diff_add_cancel)
  then show ?thesis
    using ok same free ready states unfolding buffer_ok_def queues_ok_def sl by simp
qed

lemma guard_passed:
  assumes "slot_guard msg i st b = ok_status" "buffer_ok b"
  shows "initialized b" "i \<in> slots_in st b"
  using assms to_int_small [of "sb_num_chunks b"]
  by (auto simp: slot_guard_def not_initialized_def valid_slot_id_def get_slot_state_def slots_in_def buffer_ok_def
      split: if_splits)
section \<open>Every operation keeps the ownership\<close>

lemma take_free_ok:
  assumes "buffer_ok b" "initialized b" "free_queue b \<noteq> []" "take_free b = (c, i)"
  shows "buffer_ok c" "i \<in> slots_in kFree b"
proof -
  obtain rest where q: "free_queue b = i # rest" using assms(3,4) by (cases "free_queue b") (auto simp: take_free_def Let_def)
  have qs: "queues_ok b" using assms by (simp add: buffer_ok_def)
  show i: "i \<in> slots_in kFree b" using qs q by (auto simp: queues_ok_def)
  have "i \<notin> slots_in kReady b" using i by (auto simp: slots_in_def)
  then show "buffer_ok c"
    using assms q qs by (intro move_slot_ok [OF assms(1,2) i, where new = kProducerOwned])
      (auto simp: take_free_def Let_def queues_ok_def delivered_states_def)
qed

lemma get_free_chunk_ok: "buffer_ok b \<Longrightarrow> get_free_chunk b = (c, r) \<Longrightarrow> buffer_ok c"
  using take_free_ok(1) by (fastforce simp: get_free_chunk_def map_prod_def split: if_splits prod.splits)

lemma try_get_free_chunk_ok: "buffer_ok b \<Longrightarrow> try_get_free_chunk b = (c, r) \<Longrightarrow> buffer_ok c"
  using take_free_ok(1) by (fastforce simp: try_get_free_chunk_def map_prod_def split: if_splits prod.splits)

lemma slots_in_disjoint: "i \<in> slots_in s b \<Longrightarrow> i \<in> slots_in t b \<longleftrightarrow> s = t"
  by (auto simp: slots_in_def)

lemma on_slot_ok:
  assumes "buffer_ok b" "on_slot msg i st f b = (c, r)"
    and "initialized b \<Longrightarrow> i \<in> slots_in st b \<Longrightarrow> queues_ok b \<Longrightarrow> buffer_ok (f b)"
  shows "buffer_ok c"
proof (cases "slot_guard msg i st b")
  case (Inr u)
  then have "slot_guard msg i st b = ok_status" by simp
  note b = guard_passed [OF this assms(1)]
  then have "queues_ok b" using assms(1) by (simp add: buffer_ok_def)
  with b assms(2,3) Inr show ?thesis by (simp add: on_slot_def)
qed (use assms in \<open>simp add: on_slot_def\<close>)

lemma abort_producer_slot_ok:
  assumes "buffer_ok b" "abort_producer_slot i b = (c, r)"
  shows "buffer_ok c"
  using assms(1) assms(2) [unfolded abort_producer_slot_def]
proof (rule on_slot_ok)
  assume b: "initialized b" "i \<in> slots_in kProducerOwned b" "queues_ok b"
  show "buffer_ok ((set_chunk_id i 0 (set_slot_state i kFree b))\<lparr>free_queue := free_queue b @ [i]\<rparr>)"
    using b slots_in_disjoint [OF b(2)]
    by (intro move_slot_ok [OF assms(1) b(1,2), where new = kFree]) (auto simp: queues_ok_def delivered_states_def)
qed

lemma return_chunk_ok:
  assumes "buffer_ok b" "return_chunk i b = (c, r)"
  shows "buffer_ok c"
  using assms(1) assms(2) [unfolded return_chunk_def]
proof (rule on_slot_ok)
  assume b: "initialized b" "i \<in> slots_in kConsumerOwned b" "queues_ok b"
  show "buffer_ok ((set_chunk_id i 0 (set_slot_state i kFree b))
      \<lparr>free_queue := free_queue b @ [i], chunks_consumed := chunks_consumed b + 1\<rparr>)"
    using b slots_in_disjoint [OF b(2)]
    by (intro move_slot_ok [OF assms(1) b(1,2), where new = kFree]) (auto simp: queues_ok_def delivered_states_def)
qed

lemma mark_chunk_ready_ok:
  assumes "buffer_ok b" "mark_chunk_ready i chunk_id bytes b = (c, r)"
  shows "buffer_ok c"
  using assms(1) assms(2) [unfolded mark_chunk_ready_def]
proof (rule on_slot_ok)
  assume b: "initialized b" "i \<in> slots_in kProducerOwned b" "queues_ok b"
  show "buffer_ok ((set_slot_state i kReady (set_chunk_id i chunk_id b))
      \<lparr>ready_queue := ready_queue b @ [\<lparr>rc_slot_id = i, rc_global_chunk_id = chunk_id,
         rc_bytes_in_chunk = bytes, rc_data_ptr = chunk_buffers b ! nat i\<rparr>],
       chunks_produced := chunks_produced b + 1\<rparr>)"
    using b slots_in_disjoint [OF b(2)]
    by (intro move_slot_ok [OF assms(1) b(1,2), where new = kReady]) (auto simp: queues_ok_def delivered_states_def)
qed

lemma promote_ok:
  assumes "buffer_ok b" "promote_producer_slot_to_consumer i chunk_id bytes b = (c, r)"
  shows "buffer_ok c"
proof (cases "\<exists>msg f. on_slot msg i kProducerOwned (\<lambda>b. (set_slot_state i kConsumerOwned (bump_epoch i (set_chunk_id i chunk_id b)))
    \<lparr>chunks_produced := chunks_produced b + 1\<rparr>) b = (c, r)")
  case True
  then obtain msg where "on_slot msg i kProducerOwned (\<lambda>b. (set_slot_state i kConsumerOwned (bump_epoch i (set_chunk_id i chunk_id b)))
    \<lparr>chunks_produced := chunks_produced b + 1\<rparr>) b = (c, r)" by blast
  with assms(1) show ?thesis
  proof (rule on_slot_ok)
    assume b: "initialized b" "i \<in> slots_in kProducerOwned b" "queues_ok b"
    show "buffer_ok ((set_slot_state i kConsumerOwned (bump_epoch i (set_chunk_id i chunk_id b)))
        \<lparr>chunks_produced := chunks_produced b + 1\<rparr>)"
      using b slots_in_disjoint [OF b(2)]
      by (intro move_slot_ok [OF assms(1) b(1,2), where new = kConsumerOwned])
        (auto simp: queues_ok_def delivered_states_def)
  qed
qed (use assms in \<open>auto simp: promote_producer_slot_to_consumer_def split: if_splits\<close>)

lemma signal_ok:
  assumes "buffer_ok b"
  shows "buffer_ok (signal_production_complete b)"
proof -
  have "slots_in st (b\<lparr>production_complete := True\<rparr>) = slots_in st b" for st by (rule slots_in_cong) simp
  moreover have "outstanding (b\<lparr>production_complete := True\<rparr>) = outstanding b" by (rule outstanding_cong) simp
  ultimately show ?thesis
    using assms by (cases "initialized b") (simp_all add: signal_production_complete_def buffer_ok_def queues_ok_def)
qed

text \<open>A chunk that is ready passes the guard of the consumer.\<close>

lemma ready_guard:
  assumes "buffer_ok b" "initialized b" "chunk \<in> set (ready_queue b)"
  shows "slot_guard msg (rc_slot_id chunk) kReady (b\<lparr>ready_queue := q\<rparr>) = ok_status"
    "rc_slot_id chunk \<in> slots_in kReady b"
proof -
  show i: "rc_slot_id chunk \<in> slots_in kReady b" using assms by (auto simp: buffer_ok_def queues_ok_def)
  then show "slot_guard msg (rc_slot_id chunk) kReady (b\<lparr>ready_queue := q\<rparr>) = ok_status"
    using assms to_int_small [of "sb_num_chunks b"]
    by (auto simp: slot_guard_def valid_slot_id_def get_slot_state_def slots_in_def buffer_ok_def)
qed

lemma get_ready_chunk_ok:
  assumes ok: "buffer_ok b" and get: "get_ready_chunk b = (c, r)"
  shows "buffer_ok c"
proof (cases "initialized b \<and> ready_queue b \<noteq> []")
  case True
  then obtain chunk rest where q: "ready_queue b = chunk # rest" by (cases "ready_queue b") auto
  have i: "rc_slot_id chunk \<in> slots_in kReady b" using ready_guard(2) [OF ok] True q by auto
  have c: "c = set_chunk_id (rc_slot_id chunk) (rc_global_chunk_id chunk)
      (set_slot_state (rc_slot_id chunk) kConsumerOwned (b\<lparr>ready_queue := rest\<rparr>))"
    using get True q ready_guard(1) [OF ok, of chunk] by (simp add: get_ready_chunk_def Let_def)
  have qs: "queues_ok b" using ok True by (simp add: buffer_ok_def)
  have "rc_slot_id ` set rest = slots_in kReady b - {rc_slot_id chunk}"
    using qs unfolding queues_ok_def q by (metis Diff_insert_absorb distinct.simps(2) list.set(2) list.simps(9) set_map)
  then show ?thesis
    using True q qs slots_in_disjoint [OF i]
    by (intro move_slot_ok [OF ok _ i, where new = kConsumerOwned]) (simp_all add: c queues_ok_def delivered_states_def)
next
  case False
  with ok get show ?thesis by (auto simp: get_ready_chunk_def split: if_splits list.splits)
qed
text \<open>A slot taken and given back unused: the queue has rotated, the owners are the same.\<close>

lemma take_then_abort:
  assumes "buffer_ok b" "initialized b" "free_queue b \<noteq> []" "take_free b = (b1, slot)"
  shows "valid_slot_id slot b1" "\<exists>b2. abort_producer_slot slot b1 = (b2, ok_status) \<and> buffer_ok b2 \<and> initialized b2 \<and>
    slot_states b2 = slot_states b \<and> length (free_queue b2) = length (free_queue b) \<and>
    chunk_buffers b2 = chunk_buffers b \<and> sb_num_chunks b2 = sb_num_chunks b"
proof -
  have ok1: "buffer_ok b1" and slot: "slot \<in> slots_in kFree b" using take_free_ok [OF assms] by auto
  then have range: "0 \<le> slot" "slot < int (length (slot_states b))" and free: "slot_states b ! nat slot = kFree"
    by (auto simp: slots_in_def)
  have b1: "slot_states b1 = (slot_states b)[nat slot := kProducerOwned]" "sb_num_chunks b1 = sb_num_chunks b"
    "initialized b1" "chunk_buffers b1 = chunk_buffers b" "free_queue b1 = tl (free_queue b)"
    using assms by (auto simp: take_free_def Let_def)
  show valid: "valid_slot_id slot b1"
    using range assms to_int_small [of "sb_num_chunks b"] by (simp add: valid_slot_id_def buffer_ok_def b1)
  then have "slot_guard msg slot kProducerOwned b1 = ok_status" for msg
    using range by (simp add: slot_guard_def get_slot_state_def b1)
  then have abort: "abort_producer_slot slot b1 =
      ((set_chunk_id slot 0 (set_slot_state slot kFree b1))\<lparr>free_queue := free_queue b1 @ [slot]\<rparr>, ok_status)"
    by (simp add: abort_producer_slot_def on_slot_def)
  have "(slot_states b)[nat slot := kFree] = slot_states b" using list_update_id [of "slot_states b" "nat slot"] unfolding free .
  with abort abort_producer_slot_ok [OF ok1 abort] assms(3) show "\<exists>b2. abort_producer_slot slot b1 = (b2, ok_status) \<and>
      buffer_ok b2 \<and> initialized b2 \<and> slot_states b2 = slot_states b \<and> length (free_queue b2) = length (free_queue b) \<and>
      chunk_buffers b2 = chunk_buffers b \<and> sb_num_chunks b2 = sb_num_chunks b"
    by (simp add: b1)
qed

section \<open>Initialisation, reset and release\<close>

lemma all_free_ok:
  assumes "initialized b" "unat (sb_num_chunks b) < 2 ^ 31" "length (chunk_buffers b) = unat (sb_num_chunks b)"
    and states: "slot_states b = replicate (unat (sb_num_chunks b)) kFree"
    and "distinct (free_queue b)" "set (free_queue b) = {0..<int (unat (sb_num_chunks b))}"
    and "ready_queue b = []" "chunks_produced b = chunks_consumed b"
  shows "buffer_ok b"
proof -
  have "slots_in kFree b = {0..<int (unat (sb_num_chunks b))}" "slots_in kReady b = {}"
    by (auto simp: slots_in_def states nat_less_iff)
  moreover have "outstanding b = 0" by (simp add: outstanding_def states delivered_states_def)
  ultimately show ?thesis using assms by (simp add: buffer_ok_def queues_ok_def)
qed

lemma all_slots_simps: "distinct (all_slots b)" "set (all_slots b) = {0..<int (unat (sb_num_chunks b))}"
  "length (all_slots b) = unat (sb_num_chunks b)"
proof -
  show "distinct (all_slots b)" by (simp add: all_slots_def distinct_map)
  show "set (all_slots b) = {0..<int (unat (sb_num_chunks b))}"
    unfolding all_slots_def set_map set_upt by (rule image_int_atLeastLessThan [of 0, simplified])
  show "length (all_slots b) = unat (sb_num_chunks b)" by (simp add: all_slots_def)
qed

lemma clear_slots_simps [simp]:
  "slot_states (clear_slots b) = replicate (length (slot_states b)) kFree" "sb_num_chunks (clear_slots b) = sb_num_chunks b"
  "chunk_buffers (clear_slots b) = chunk_buffers b" "free_queue (clear_slots b) = free_queue b"
  "ready_queue (clear_slots b) = ready_queue b" "initialized (clear_slots b) = initialized b"
  "chunks_produced (clear_slots b) = chunks_produced b" "chunks_consumed (clear_slots b) = chunks_consumed b"
  by (simp_all add: clear_slots_def)

definition free_all :: "int list \<Rightarrow> StreamingPinnedBuffer \<Rightarrow> StreamingPinnedBuffer" where
  "free_all = fold (\<lambda>i b. set_chunk_id i 0 (set_slot_state i kFree b))"

lemma free_all_fields [simp]:
  "sb_num_chunks (free_all slots b) = sb_num_chunks b" "chunk_buffers (free_all slots b) = chunk_buffers b"
  "free_queue (free_all slots b) = free_queue b" "ready_queue (free_all slots b) = ready_queue b"
  "initialized (free_all slots b) = initialized b" "chunks_produced (free_all slots b) = chunks_produced b"
  "chunks_consumed (free_all slots b) = chunks_consumed b"
  "length (slot_states (free_all slots b)) = length (slot_states b)"
  unfolding free_all_def by (induction slots arbitrary: b) simp_all

lemma free_all_states:
  assumes "\<forall>i\<in>set slots. 0 \<le> i \<and> i < int (length (slot_states b))" "j < length (slot_states b)"
  shows "slot_states (free_all slots b) ! j = (if int j \<in> set slots then kFree else slot_states b ! j)"
  using assms
proof (induction slots arbitrary: b)
  case (Cons i slots)
  let ?b = "set_chunk_id i 0 (set_slot_state i kFree b)"
  have "slot_states (free_all slots ?b) ! j = (if int j \<in> set slots then kFree else slot_states ?b ! j)"
    using Cons.prems by (intro Cons.IH) auto
  then show ?case using Cons.prems by (auto simp: free_all_def nth_list_update)
qed (simp add: free_all_def)

text \<open>Queues that hold as many slots as there are hold every slot.\<close>

lemma full_queues:
  assumes "distinct xs" "set xs \<subseteq> {0..<int n}" "length xs = n"
  shows "set xs = {0..<int n}"
  using assms by (intro card_subset_eq) (simp_all add: distinct_card)

lemma reset_ok:
  assumes ok: "buffer_ok b" and reset: "reset_for_new_production b = (c, r)"
  shows "buffer_ok c"
proof (cases "initialized b")
  case True
  let ?ready = "map rc_slot_id (ready_queue b)" and ?n = "unat (sb_num_chunks b)"
  define b1 where "b1 = b\<lparr>production_complete := False, chunks_produced := 0, chunks_consumed := 0,
    ready_queue := [], free_queue := free_queue b @ ?ready\<rparr>"
  have qs: "queues_ok b" and len: "length (slot_states b) = ?n" using ok True by (simp_all add: buffer_ok_def)
  have c: "c = (if length (free_queue b @ ?ready) \<noteq> ?n
      then (clear_slots (free_all ?ready b1))\<lparr>free_queue := all_slots (free_all ?ready b1)\<rparr>
      else free_all ?ready b1)\<lparr>next_epoch := 0\<rparr>"
    using reset True by (auto simp: reset_for_new_production_def Let_def b1_def free_all_def [symmetric] simp del: length_append length_map)
  show ?thesis
  proof (cases "length (free_queue b @ ?ready) = ?n")
    case full: True
    have slots: "set (free_queue b @ ?ready) = {0..<int ?n}" "distinct (free_queue b @ ?ready)"
    proof -
      show dist: "distinct (free_queue b @ ?ready)"
        using qs slots_in_disjoint by (fastforce simp: queues_ok_def)
      have "set (free_queue b @ ?ready) \<subseteq> {0..<int ?n}" using qs len by (auto simp: queues_ok_def slots_in_def)
      with full dist show "set (free_queue b @ ?ready) = {0..<int ?n}" by (intro full_queues)
    qed
    have "slot_states (free_all ?ready b1) ! j = kFree" if "j < ?n" for j
    proof -
      have "int j \<in> set (free_queue b @ ?ready)" unfolding slots(1)
        using that by (simp only: atLeastLessThan_iff of_nat_less_iff of_nat_0_le_iff simp_thms)
      then have "int j \<in> set ?ready \<or> int j \<in> slots_in kFree b" using qs by (auto simp: queues_ok_def)
      moreover have "slot_states (free_all ?ready b1) ! j = (if int j \<in> set ?ready then kFree else slot_states b1 ! j)"
        using qs len that by (intro free_all_states) (auto simp: b1_def queues_ok_def slots_in_def)
      ultimately show ?thesis by (auto simp: slots_in_def b1_def)
    qed
    then have "slot_states (free_all ?ready b1) = replicate ?n kFree"
      by (intro nth_equalityI) (simp_all add: b1_def len)
    with full slots ok True show ?thesis unfolding c
      by (intro all_free_ok) (simp_all add: b1_def buffer_ok_def)
  next
    case False
    with ok True show ?thesis unfolding c
      by (intro all_free_ok) (simp_all add: b1_def buffer_ok_def all_slots_simps)
  qed
qed (use assms in \<open>simp add: reset_for_new_production_def\<close>)

lemma reset_full:
  assumes "initialized b" "reset_for_new_production b = (c, r)"
  shows "r = ok_status" "initialized c" "length (free_queue c) = unat (sb_num_chunks c)"
    "chunk_buffers c = chunk_buffers b" "sb_num_chunks c = sb_num_chunks b"
  using assms
  by (auto simp: reset_for_new_production_def Let_def free_all_def [symmetric] all_slots_simps clear_slots_def)
text \<open>The state between two uses: nothing allocated, nothing queued.\<close>

lemma initialize_with_ok:
  assumes "buffer_ok b" "\<not> initialized b" "initialize_with t outcome p b = (q, c, r)"
    and "\<And>bufs. outcome = Allocated bufs \<Longrightarrow> length bufs < 2 ^ 31"
  shows "buffer_ok c"
proof (cases "\<exists>bufs. outcome = Allocated bufs \<and> length bufs = unat (sb_num_chunks b)")
  case True
  then obtain bufs where bufs: "outcome = Allocated bufs" "length bufs = unat (sb_num_chunks b)" by blast
  then show ?thesis
    using assms(1,2,3) assms(4) [OF bufs(1)]
    by (intro all_free_ok) (auto simp: initialize_with_def buffer_ok_def all_slots_simps)
next
  case False
  then show ?thesis
    using assms(1,2,3) by (auto simp: initialize_with_def buffer_ok_def split: alloc_outcome.splits if_splits)
qed

lemma buffer_release_ok:
  assumes "buffer_ok b" "buffer_release p b = (q, c, r)"
  shows "buffer_ok c"
  using assms by (auto simp: buffer_release_def buffer_ok_def split: if_splits prod.splits)

section \<open>Interleaved calls\<close>

text \<open>
  A pool, one buffer over it and the slices other users hold. \<open>waiting\<close>: a call of
  \<open>initialize\<close> waits for slices and holds the mutex of the buffer.
\<close>

record pinned_system =
  sys_pool :: PinnedBufferPool
  sys_buffer :: StreamingPinnedBuffer
  sys_others :: "u64 list list"
  sys_waiting :: bool

datatype buffer_op = OpGetFree | OpTryGetFree | OpMarkReady int u64 u64 | OpPromote int u64 u64
  | OpAbort int | OpGetReady | OpReturn int | OpSignal | OpReset

fun buffer_step :: "buffer_op \<Rightarrow> StreamingPinnedBuffer \<Rightarrow> StreamingPinnedBuffer" where
  "buffer_step OpGetFree b = fst (get_free_chunk b)"
| "buffer_step OpTryGetFree b = fst (try_get_free_chunk b)"
| "buffer_step (OpMarkReady i c n) b = fst (mark_chunk_ready i c n b)"
| "buffer_step (OpPromote i c n) b = fst (promote_producer_slot_to_consumer i c n b)"
| "buffer_step (OpAbort i) b = fst (abort_producer_slot i b)"
| "buffer_step OpGetReady b = fst (get_ready_chunk b)"
| "buffer_step (OpReturn i) b = fst (return_chunk i b)"
| "buffer_step OpSignal b = signal_production_complete b"
| "buffer_step OpReset b = fst (reset_for_new_production b)"

inductive system_step :: "pinned_system \<Rightarrow> pinned_system \<Rightarrow> bool" where
  init: "\<not> sys_waiting s \<Longrightarrow> iterates order (sys_pool s) \<Longrightarrow>
    initialize order (sys_pool s) (sys_buffer s) = (p, b, r) \<Longrightarrow>
    system_step s (s\<lparr>sys_pool := p, sys_buffer := b\<rparr>)"
| init_enter: "\<not> sys_waiting s \<Longrightarrow> initialize_enter (sys_pool s) (sys_buffer s) = (p, b, r) \<Longrightarrow>
    system_step s (s\<lparr>sys_pool := p, sys_buffer := b, sys_waiting := (r = None)\<rparr>)"
| init_poll: "sys_waiting s \<Longrightarrow> iterates order (sys_pool s) \<Longrightarrow>
    initialize_poll timed_out order (sys_pool s) (sys_buffer s) = (p, b, r) \<Longrightarrow>
    system_step s (s\<lparr>sys_pool := p, sys_buffer := b, sys_waiting := (r = None)\<rparr>)"
| release_buffer: "\<not> sys_waiting s \<Longrightarrow> buffer_release (sys_pool s) (sys_buffer s) = (p, b, r) \<Longrightarrow>
    system_step s (s\<lparr>sys_pool := p, sys_buffer := b\<rparr>)"
| buffer_call: "\<not> sys_waiting s \<Longrightarrow> system_step s (s\<lparr>sys_buffer := buffer_step op (sys_buffer s)\<rparr>)"
| other_alloc: "iterates order (sys_pool s) \<Longrightarrow> pool_allocate order n (sys_pool s) = (p, Allocated bufs) \<Longrightarrow>
    system_step s (s\<lparr>sys_pool := p, sys_others := bufs # sys_others s\<rparr>)"
| other_free: "bufs \<in> set (sys_others s) \<Longrightarrow> pool_deallocate bufs (sys_pool s) = (p, n) \<Longrightarrow>
    system_step s (s\<lparr>sys_pool := p, sys_others := remove1 bufs (sys_others s)\<rparr>)"

inductive reaches :: "pinned_system \<Rightarrow> pinned_system \<Rightarrow> bool" for s where
  start: "reaches s s"
| step: "reaches s t \<Longrightarrow> system_step t u \<Longrightarrow> reaches s u"

inductive_cases system_stepE: "system_step s t"

definition start_system :: "PinnedBufferPool \<Rightarrow> u64 \<Rightarrow> pinned_system" where
  "start_system p n = \<lparr>sys_pool = p, sys_buffer = new_buffer n (slice_bytes p), sys_others = [], sys_waiting = False\<rparr>"

text \<open>Every slice of the pool is free or held once: by the buffer or by one other user.\<close>

definition held :: "pinned_system \<Rightarrow> u64 list" where
  "held s = chunk_buffers (sys_buffer s) @ concat (sys_others s)"

definition slices_split :: "PinnedBufferPool \<Rightarrow> u64 list \<Rightarrow> bool" where
  "slices_split p h \<longleftrightarrow> distinct h \<and> set h \<inter> free_list p = {} \<and> set h \<union> free_list p = slices p"

definition system_ok :: "pinned_system \<Rightarrow> bool" where
  "system_ok s \<longleftrightarrow> buffer_ok (sys_buffer s) \<and> (sys_waiting s \<longrightarrow> \<not> initialized (sys_buffer s)) \<and>
     slices_split (sys_pool s) (held s)"

lemmas operation_ok = get_free_chunk_ok [OF _ surjective_pairing] try_get_free_chunk_ok [OF _ surjective_pairing]
  mark_chunk_ready_ok [OF _ surjective_pairing] promote_ok [OF _ surjective_pairing]
  abort_producer_slot_ok [OF _ surjective_pairing] get_ready_chunk_ok [OF _ surjective_pairing]
  return_chunk_ok [OF _ surjective_pairing] reset_ok [OF _ surjective_pairing] signal_ok

lemma buffer_step_ok: "buffer_ok b \<Longrightarrow> buffer_ok (buffer_step op b)"
  by (cases op) (simp_all add: operation_ok)

lemma buffer_step_buffers: "chunk_buffers (buffer_step op b) = chunk_buffers b"
proof (cases op)
  case OpReset
  then show ?thesis
    by (simp add: reset_for_new_production_def Let_def free_all_def [symmetric] clear_slots_def)
qed (auto simp: get_free_chunk_def try_get_free_chunk_def take_free_def Let_def on_slot_def mark_chunk_ready_def
    promote_producer_slot_to_consumer_def abort_producer_slot_def get_ready_chunk_def return_chunk_def
    signal_production_complete_def split: sum.splits list.splits if_splits)
lemma slices_split_perm: "mset h = mset h' \<Longrightarrow> slices_split p h \<longleftrightarrow> slices_split p h'"
  using mset_eq_imp_distinct_iff [of h h'] mset_eq_setD [of h h'] by (simp add: slices_split_def)

lemma slices_split_same: "same_slices q p \<Longrightarrow> slices_split q h \<longleftrightarrow> slices_split p h"
  by (simp add: slices_split_def same_slices_def)

lemma slices_split_take:
  assumes "slices_split p h" "distinct bufs" "set bufs \<subseteq> free_list p" "free_list q = free_list p - set bufs" "slices q = slices p"
  shows "slices_split q (bufs @ h)"
  using assms by (auto simp: slices_split_def)

lemma slices_split_give:
  assumes "slices_split p (bufs @ h)"
  shows "pool_deallocate bufs p = (p\<lparr>free_list := free_list p \<union> set bufs\<rparr>, 0)"
    "slices_split (p\<lparr>free_list := free_list p \<union> set bufs\<rparr>) h"
proof -
  show "pool_deallocate bufs p = (p\<lparr>free_list := free_list p \<union> set bufs\<rparr>, 0)"
    using assms by (intro pool_deallocate_ok) (auto simp: slices_split_def)
  show "slices_split (p\<lparr>free_list := free_list p \<union> set bufs\<rparr>) h"
    using assms by (auto simp: slices_split_def)
qed

lemma initialize_with_slices:
  assumes "initialize_with t outcome p b = (q, c, r)" "chunk_buffers b = []"
    and "\<And>bufs. outcome = Allocated bufs \<Longrightarrow> slices_split p (bufs @ h)"
    and "(\<nexists>bufs. outcome = Allocated bufs) \<Longrightarrow> slices_split p h"
  shows "slices_split q (chunk_buffers c @ h)"
proof (cases "\<exists>bufs. outcome = Allocated bufs")
  case True
  then obtain bufs where "outcome = Allocated bufs" by blast
  with assms(1,2) assms(3) [OF this] slices_split_give [OF assms(3) [OF this]] show ?thesis
    by (auto simp: initialize_with_def split: if_splits)
next
  case False
  with assms show ?thesis by (cases outcome) (auto simp: initialize_with_def)
qed

lemma initialize_ok:
  assumes "buffer_ok b" "slices_split p (chunk_buffers b @ h)" "iterates order p" "initialize order p b = (q, c, r)"
  shows "buffer_ok c" "slices_split q (chunk_buffers c @ h)"
proof -
  obtain p' out0 where alloc: "pool_allocate order (sb_num_chunks b * sb_chunk_size b) p = (p', out0)" by fastforce
  have "buffer_ok c \<and> slices_split q (chunk_buffers c @ h)"
  proof (cases "initialized b")
    case False
    then have empty: "chunk_buffers b = []" using assms(1) by (simp add: buffer_ok_def)
    have "initialize_with False out0 p' b = (q, c, r)" using assms(4) False alloc by (simp add: initialize_def)
    moreover have "length bufs < 2 ^ 31" "slices_split p' (bufs @ h)" if "out0 = Allocated bufs" for bufs
      using pool_allocate_ok [OF assms(3) alloc [unfolded that]] assms(2) empty
      by (auto intro: slices_split_take [of p h bufs])
    moreover have "slices_split p' h" if "\<nexists>bufs. out0 = Allocated bufs"
      using slices_split_same [OF pool_allocate_other [OF alloc that]] assms(2) empty by simp
    ultimately show ?thesis
      using initialize_with_ok [OF assms(1) False, of False out0 p' q c r]
        initialize_with_slices [of False out0 p' b q c r h, OF _ empty] by simp
  qed (use assms in \<open>simp add: initialize_def\<close>)
  then show "buffer_ok c" "slices_split q (chunk_buffers c @ h)" by simp_all
qed

lemma initialize_enter_ok:
  assumes "buffer_ok b" "slices_split p (chunk_buffers b @ h)" "initialize_enter p b = (q, c, r)"
  shows "buffer_ok c" "slices_split q (chunk_buffers c @ h)" "r = None \<Longrightarrow> \<not> initialized c"
proof -
  obtain p' out0 where enter: "allocate_enter (sb_num_chunks b * sb_chunk_size b) p = (p', out0)" by fastforce
  note other = allocate_enter_same [OF enter]
  have "buffer_ok c \<and> slices_split q (chunk_buffers c @ h) \<and> (r = None \<longrightarrow> \<not> initialized c)"
  proof (cases "initialized b")
    case False
    then have empty: "chunk_buffers b = []" using assms(1) by (simp add: buffer_ok_def)
    have split: "slices_split p' h" using slices_split_same [of p' p h] other assms(2) empty by simp
    show ?thesis
    proof (cases out0)
      case None
      with assms False enter split empty show ?thesis by (simp add: initialize_enter_def)
    next
      case (Some out)
      then obtain r' where "initialize_with True out p' b = (q, c, r')" "r = Some r'"
        using assms(3) False enter by (cases "initialize_with True out p' b") (auto simp: initialize_enter_def)
      note init = this
      have "buffer_ok c" by (rule initialize_with_ok [OF assms(1) False init(1)]) (use other Some in simp)
      moreover have "slices_split q (chunk_buffers c @ h)"
        by (rule initialize_with_slices [OF init(1) empty]) (use other split Some in simp_all)
      ultimately show ?thesis using init(2) by simp
    qed
  qed (use assms in \<open>auto simp: initialize_enter_def\<close>)
  then show "buffer_ok c" "slices_split q (chunk_buffers c @ h)" "r = None \<Longrightarrow> \<not> initialized c" by simp_all
qed

lemma initialize_poll_ok:
  assumes "buffer_ok b" "\<not> initialized b" "slices_split p (chunk_buffers b @ h)" "iterates order p"
    "initialize_poll timed_out order p b = (q, c, r)"
  shows "buffer_ok c" "slices_split q (chunk_buffers c @ h)" "r = None \<Longrightarrow> \<not> initialized c"
proof -
  obtain p' out0 where poll: "allocate_poll timed_out order (sb_num_chunks b * sb_chunk_size b) p = (p', out0)" by fastforce
  have empty: "chunk_buffers b = []" using assms(1,2) by (simp add: buffer_ok_def)
  have other: "slices_split p' h" if "\<nexists>bufs. out0 = Some (Allocated bufs)"
    using slices_split_same [OF allocate_poll_other [OF poll that]] assms(3) empty by simp
  have got: "length bufs < 2 ^ 31" "slices_split p' (bufs @ h)" if "out0 = Some (Allocated bufs)" for bufs
    using allocate_poll_ok [OF assms(4) poll [unfolded that]] assms(3) empty
    by (auto intro: slices_split_take [of p h bufs])
  have "buffer_ok c \<and> slices_split q (chunk_buffers c @ h) \<and> (r = None \<longrightarrow> \<not> initialized c)"
  proof (cases out0)
    case None
    with assms poll other empty show ?thesis by (simp add: initialize_poll_def)
  next
    case (Some out)
    then obtain r' where "initialize_with True out p' b = (q, c, r')" "r = Some r'"
      using assms(5) poll by (cases "initialize_with True out p' b") (auto simp: initialize_poll_def)
    note init = this
    have "buffer_ok c" by (rule initialize_with_ok [OF assms(1,2) init(1)]) (use got(1) Some in simp)
    moreover have "slices_split q (chunk_buffers c @ h)"
      by (rule initialize_with_slices [OF init(1) empty]) (use got(2) other Some in simp_all)
    ultimately show ?thesis using init(2) by simp
  qed
  then show "buffer_ok c" "slices_split q (chunk_buffers c @ h)" "r = None \<Longrightarrow> \<not> initialized c" by simp_all
qed

lemma buffer_release_slices:
  assumes "slices_split p (chunk_buffers b @ h)" "buffer_release p b = (q, c, r)"
  shows "slices_split q (chunk_buffers c @ h)"
  using assms slices_split_give [OF assms(1)] by (auto simp: buffer_release_def split: if_splits)

lemma mset_concat_remove1: "x \<in> set xss \<Longrightarrow> mset (concat xss) = mset x + mset (concat (remove1 x xss))"
  by (induction xss) auto

lemma held_others:
  assumes "bufs \<in> set (sys_others s)"
  shows "mset (bufs @ held (s\<lparr>sys_others := remove1 bufs (sys_others s)\<rparr>)) = mset (held s)"
  using mset_concat_remove1 [OF assms] by (simp add: held_def)

lemma system_step_ok: "system_step s t \<Longrightarrow> system_ok s \<Longrightarrow> system_ok t"
proof (induction rule: system_step.induct)
  case (init s order p b r)
  then show ?case using initialize_ok [OF _ _ init.hyps(2,3), of "concat (sys_others s)"]
    by (simp add: system_ok_def held_def)
next
  case (init_enter s p b r)
  then show ?case using initialize_enter_ok [OF _ _ init_enter.hyps(2), of "concat (sys_others s)"]
    by (simp add: system_ok_def held_def)
next
  case (init_poll s order timed_out p b r)
  then show ?case using initialize_poll_ok [OF _ _ _ init_poll.hyps(2,3), of "concat (sys_others s)"]
    by (simp add: system_ok_def held_def)
next
  case (release_buffer s p b r)
  then show ?case
    using buffer_release_ok [OF _ release_buffer.hyps(2)] buffer_release_slices [OF _ release_buffer.hyps(2), of "concat (sys_others s)"]
    by (simp add: system_ok_def held_def)
next
  case (buffer_call s op)
  then show ?case by (simp add: system_ok_def held_def buffer_step_ok buffer_step_buffers)
next
  case (other_alloc order s n p bufs)
  have "slices_split p (bufs @ held s)"
    using other_alloc by (intro slices_split_take [OF _ pool_allocate_ok(1-4)]) (auto simp: system_ok_def)
  then have "slices_split p (held (s\<lparr>sys_pool := p, sys_others := bufs # sys_others s\<rparr>))"
    by (subst slices_split_perm [of _ "bufs @ held s"]) (simp_all add: held_def)
  with other_alloc show ?case by (simp add: system_ok_def)
next
  case (other_free bufs s p n)
  let ?s = "s\<lparr>sys_others := remove1 bufs (sys_others s)\<rparr>"
  have "slices_split (sys_pool s) (bufs @ held ?s)"
    using other_free.prems slices_split_perm [OF held_others [OF other_free.hyps(1)]] by (simp add: system_ok_def)
  from slices_split_give [OF this] have "slices_split p (held ?s)" using other_free.hyps(2) by simp
  with other_free show ?case by (simp add: system_ok_def held_def)
qed
section \<open>The guard of one slot\<close>

record StreamingChunkGuard =
  g_has_buffer :: bool
  g_host_ptr :: "u64 option"
  g_slot_id :: int
  g_promoted :: bool

definition new_guard :: "bool \<Rightarrow> StreamingChunkGuard" where
  "new_guard has_buffer = \<lparr>g_has_buffer = has_buffer, g_host_ptr = None, g_slot_id = -1, g_promoted = False\<rparr>"

definition guard_reset :: "StreamingPinnedBuffer \<Rightarrow> StreamingChunkGuard \<Rightarrow> StreamingPinnedBuffer \<times> StreamingChunkGuard" where
  "guard_reset b g =
     (if \<not> g_has_buffer g \<or> g_slot_id g < 0 then (b, g)
      else (fst (if g_promoted g then return_chunk (g_slot_id g) b else abort_producer_slot (g_slot_id g) b),
            g\<lparr>g_slot_id := -1, g_host_ptr := None, g_promoted := False\<rparr>))"

text \<open>\<open>None\<close>: a blocking acquisition that keeps waiting.\<close>

definition acquire_internal ::
  "bool \<Rightarrow> StreamingPinnedBuffer \<Rightarrow> StreamingChunkGuard \<Rightarrow>
   StreamingPinnedBuffer \<times> StreamingChunkGuard \<times> u64 status_or option"
where
  "acquire_internal blocking b g =
     (if \<not> g_has_buffer g then (b, g, Some (Inl (Err FailedPrecondition ''StreamingChunkGuard buffer is null'')))
      else if 0 \<le> g_slot_id g
      then (b, g, Some (Inl (Err FailedPrecondition ''StreamingChunkGuard already acquired'')))
      else case (if blocking then get_free_chunk b else map_prod id Some (try_get_free_chunk b)) of
             (b', None) \<Rightarrow> (b', g, None)
           | (b', Some (Inl e)) \<Rightarrow> (b', g, Some (Inl e))
           | (b', Some (Inr slot)) \<Rightarrow>
               (case get_chunk_ptr slot b' of
                  None \<Rightarrow> (fst (abort_producer_slot slot b'), g\<lparr>g_slot_id := -1, g_host_ptr := None\<rparr>,
                           Some (Inl (Err Internal ''StreamingChunkGuard failed to map chunk pointer'')))
                | Some ptr \<Rightarrow> (b', g\<lparr>g_slot_id := slot, g_host_ptr := Some ptr\<rparr>, Some (Inr ptr))))"

definition guard_promote ::
  "u64 \<Rightarrow> u64 \<Rightarrow> StreamingPinnedBuffer \<Rightarrow> StreamingChunkGuard \<Rightarrow> StreamingPinnedBuffer \<times> StreamingChunkGuard \<times> status"
where
  "guard_promote chunk_id bytes b g =
     (if g_slot_id g < 0 then (b, g, Inl (Err FailedPrecondition ''StreamingChunkGuard has no active slot''))
      else if g_promoted g then (b, g, Inl (Err FailedPrecondition ''StreamingChunkGuard already promoted''))
      else case promote_producer_slot_to_consumer (g_slot_id g) chunk_id bytes b of
             (b', Inl e) \<Rightarrow> (b', g, Inl e)
           | (b', Inr _) \<Rightarrow> (b', g\<lparr>g_promoted := True\<rparr>, ok_status))"

text \<open>\<open>None\<close>: the fatal check.\<close>

definition release_for_async :: "StreamingChunkGuard \<Rightarrow> (StreamingChunkGuard \<times> int) option" where
  "release_for_async g =
     (if g_slot_id g < 0 then Some (g, -1)
      else if \<not> g_promoted g then None
      else Some (g\<lparr>g_slot_id := -1, g_host_ptr := None\<rparr>, g_slot_id g))"

definition guard_move ::
  "StreamingPinnedBuffer \<Rightarrow> StreamingChunkGuard \<Rightarrow> StreamingChunkGuard \<Rightarrow>
   StreamingPinnedBuffer \<times> StreamingChunkGuard \<times> StreamingChunkGuard"
where
  "guard_move b g other = (fst (guard_reset b g), other,
     other\<lparr>g_host_ptr := None, g_slot_id := -1, g_promoted := False, g_has_buffer := False\<rparr>)"

text \<open>
  A guard that goes out of scope without having been promoted gives its slot back: the slots of
  every owner are those from before the acquisition.
\<close>

lemma guard_reset_ok: "buffer_ok b \<Longrightarrow> buffer_ok (fst (guard_reset b g))"
  by (simp add: guard_reset_def operation_ok)

lemma guard_scope_returns_slot:
  assumes "buffer_ok b" "acquire_internal True b (new_guard True) = (b1, g, Some (Inr ptr))"
  shows "slots_in st (fst (guard_reset b1 g)) = slots_in st b"
proof -
  obtain slot where get: "get_free_chunk b = (b1, Some (Inr slot))"
    and g: "g_slot_id g = slot" "g_has_buffer g" "\<not> g_promoted g"
    using assms(2) by (auto simp: acquire_internal_def new_guard_def split: prod.splits option.splits sum.splits)
  then have init: "initialized b" "free_queue b \<noteq> []" "take_free b = (b1, slot)"
    by (auto simp: get_free_chunk_def not_initialized_def map_prod_def split: if_splits prod.splits)
  obtain b2 where b2: "0 \<le> slot" "abort_producer_slot slot b1 = (b2, ok_status)" "slot_states b2 = slot_states b"
    using take_then_abort [OF assms(1) init] by (auto simp: valid_slot_id_def)
  then have "fst (guard_reset b1 g) = b2" using g by (simp add: guard_reset_def)
  then show ?thesis using slots_in_cong [OF b2(3)] by simp
qed

text \<open>
  A guard that is used again after handing its slot to an asynchronous consumer still counts as
  promoted: the second slot can be neither promoted nor given back.
\<close>

definition ex_buffer :: StreamingPinnedBuffer where
  "ex_buffer = (new_buffer 1 4096)\<lparr>chunk_buffers := [8192], free_queue := [0], initialized := True\<rparr>"

definition guard_reuse :: "(StreamingPinnedBuffer \<times> status) option" where
  "guard_reuse =
     (let (b1, g1, _) = acquire_internal True ex_buffer (new_guard True);
          (b2, g2, _) = guard_promote 7 4096 b1 g1
      in case release_for_async g2 of
           None \<Rightarrow> None
         | Some (g3, slot) \<Rightarrow>
             let b3 = fst (return_chunk slot b2);
                 (b4, g4, _) = acquire_internal True b3 g3;
                 (b5, g5, st) = guard_promote 8 4096 b4 g4
             in Some (fst (guard_reset b5 g5), st))"

lemma reused_guard_leaks_slot:
  "(case guard_reuse of
      None \<Rightarrow> False
    | Some (b, st) \<Rightarrow> st = Inl (Err FailedPrecondition ''StreamingChunkGuard already promoted'') \<and>
        slot_states b = [kProducerOwned] \<and> free_queue b = [])"
  by code_simp

section \<open>Properties\<close>

lemma reaches_ok:
  assumes "reaches s t" "system_ok s"
  shows "system_ok t"
  using assms by induction (auto intro: system_step_ok)

lemma start_system_ok:
  assumes "new_pool slab reg tot chunk opts = Some p"
  shows "system_ok (start_system p n)"
  using assms by (auto simp: new_pool_def Let_def system_ok_def start_system_def new_buffer_def buffer_ok_def
      held_def slices_split_def split: if_splits)

lemma slots_partition:
  assumes "buffer_ok b"
  shows "{0..<int (unat (sb_num_chunks b))} =
    slots_in kFree b \<union> slots_in kReady b \<union> (slots_in kProducerOwned b \<union> slots_in kConsumerOwned b)"
proof -
  have "st = kFree \<or> st = kReady \<or> st = kProducerOwned \<or> st = kConsumerOwned" for st by (cases st) auto
  with assms show ?thesis unfolding slots_in_def buffer_ok_def by auto
qed

lemma inflight_exact:
  assumes "buffer_ok b" "initialized b"
  shows "unat (inflight b) = card (slots_in kProducerOwned b \<union> slots_in kConsumerOwned b)"
proof -
  let ?own = "slots_in kProducerOwned b \<union> slots_in kConsumerOwned b" and ?n = "unat (sb_num_chunks b)"
  have fin: "finite (slots_in st b)" for st by (rule finite_subset [of _ "{0..<int (length (slot_states b))}"]) (auto simp: slots_in_def)
  have qs: "queues_ok b" using assms by (simp add: buffer_ok_def)
  have "?n = card {0..<int ?n}" by simp
  also have "\<dots> = card (slots_in kFree b \<union> slots_in kReady b) + card ?own"
    unfolding slots_partition [OF assms(1)] using fin by (intro card_Un_disjoint) (auto simp: slots_in_def)
  also have "card (slots_in kFree b \<union> slots_in kReady b) = card (slots_in kFree b) + card (slots_in kReady b)"
    using fin by (intro card_Un_disjoint) (auto simp: slots_in_def)
  also have "card (slots_in kFree b) = length (free_queue b)" using qs distinct_card [of "free_queue b"] by (simp add: queues_ok_def)
  also have "card (slots_in kReady b) = length (ready_queue b)"
    using qs distinct_card [of "map rc_slot_id (ready_queue b)"] by (simp add: queues_ok_def)
  finally have n: "?n = length (free_queue b) + length (ready_queue b) + card ?own" .
  have "sb_num_chunks b = of_nat ?n" by simp
  then have "inflight b = of_nat (card ?own)" unfolding inflight_def n by simp
  then show ?thesis using n unat_u64_bound [of "sb_num_chunks b"] by (simp add: unat_of_nat_u64)
qed

lemma consumption_complete_iff:
  assumes "buffer_ok b" "initialized b"
  shows "is_consumption_complete b \<longleftrightarrow> production_complete b \<and> slots_in kReady b = {} \<and> slots_in kConsumerOwned b = {}"
proof -
  have qs: "queues_ok b" and n: "length (slot_states b) < 2 ^ 31" using assms by (auto simp: buffer_ok_def)
  have "outstanding b \<le> length (slot_states b)" by (simp add: outstanding_def)
  then have "unat (of_nat (outstanding b) :: u64) = outstanding b" using n by (intro unat_of_nat_u64) simp
  then have "(of_nat (outstanding b) :: u64) = 0 \<longleftrightarrow> outstanding b = 0" by (metis unat_0 unat_word_eq)
  then have "chunks_consumed b = chunks_produced b \<longleftrightarrow> outstanding b = 0" using qs by (simp add: queues_ok_def)
  also have "\<dots> \<longleftrightarrow> (\<forall>j < length (slot_states b). slot_states b ! j \<notin> delivered_states)"
    by (simp add: outstanding_def filter_empty_conv all_set_conv_all_nth)
  also have "\<dots> \<longleftrightarrow> slots_in kReady b = {} \<and> slots_in kConsumerOwned b = {}"
  proof
    assume r: "slots_in kReady b = {} \<and> slots_in kConsumerOwned b = {}"
    show "\<forall>j < length (slot_states b). slot_states b ! j \<notin> delivered_states"
    proof (intro allI impI)
      fix j assume "j < length (slot_states b)"
      then have "int j \<in> slots_in (slot_states b ! j) b" by (simp add: slots_in_def)
      with r show "slot_states b ! j \<notin> delivered_states" by (auto simp: delivered_states_def)
    qed
  qed (auto simp: slots_in_def delivered_states_def)
  finally show ?thesis using qs by (auto simp: is_consumption_complete_def queues_ok_def)
qed
text \<open>
  C35. In every state that interleaved calls on a streaming buffer and on its pool can reach,
  each slice of the pool is free or held exactly once, by the buffer or by one other user. In an
  initialised buffer the free queue lists exactly the free slots and the ready queue exactly the
  ready ones, each once and with the slice of its slot; \<open>inflight\<close> is the number of slots a
  producer or a consumer owns, and \<open>is_consumption_complete\<close> holds exactly when production ended
  and no slot is ready or with a consumer.
\<close>

theorem buffer_ownership:
  assumes "new_pool slab reg tot chunk opts = Some p" "reaches (start_system p n) s"
  shows "(let b = sys_buffer s; h = chunk_buffers b @ concat (sys_others s) in
    distinct h \<and> set h \<inter> free_list (sys_pool s) = {} \<and> set h \<union> free_list (sys_pool s) = slices (sys_pool s) \<and>
    (initialized b \<longrightarrow>
      distinct (free_queue b) \<and> set (free_queue b) = slots_in kFree b \<and>
      distinct (map rc_slot_id (ready_queue b)) \<and> rc_slot_id ` set (ready_queue b) = slots_in kReady b \<and>
      (\<forall>r\<in>set (ready_queue b). rc_data_ptr r = chunk_buffers b ! nat (rc_slot_id r)) \<and>
      unat (inflight b) = card (slots_in kProducerOwned b \<union> slots_in kConsumerOwned b) \<and>
      (is_consumption_complete b \<longleftrightarrow>
        production_complete b \<and> slots_in kReady b = {} \<and> slots_in kConsumerOwned b = {})))"
proof -
  have "system_ok s" using reaches_ok [OF assms(2) start_system_ok [OF assms(1)]] .
  then have ok: "buffer_ok (sys_buffer s)" and split: "slices_split (sys_pool s) (held s)"
    by (simp_all add: system_ok_def)
  have qs: "queues_ok (sys_buffer s)" if "initialized (sys_buffer s)" using ok that by (simp add: buffer_ok_def)
  show ?thesis
    using split qs inflight_exact [OF ok] consumption_complete_iff [OF ok]
    by (simp add: slices_split_def held_def queues_ok_def Let_def)
qed

definition ex_pool_options :: PoolOptions where
  "ex_pool_options = \<lparr>opt_name = ''p'', opt_numa_node = -1, opt_prefault = False, register_on_create = True\<rparr>"

definition ex_pool :: PinnedBufferPool where
  "ex_pool = the (new_pool 0 ok_status 12288 4096 ex_pool_options)"

lemma ex_pool_new: "new_pool 0 ok_status 12288 4096 ex_pool_options = Some ex_pool"
  by (simp add: ex_pool_def new_pool_def ex_pool_options_def Let_def aligned_chunk_size_def kDirectIOAlignment_def)

definition ex_started :: pinned_system where
  "ex_started = (case initialize [0, 4096, 8192] ex_pool (new_buffer 2 4096) of
     (p, b, r) \<Rightarrow> (start_system ex_pool 2)\<lparr>sys_pool := p, sys_buffer := b\<rparr>)"

definition ex_running :: pinned_system where
  "ex_running = ex_started\<lparr>sys_buffer := buffer_step OpGetFree (sys_buffer ex_started)\<rparr>"

lemma ex_running_reached: "reaches (start_system ex_pool 2) ex_running"
proof -
  let ?s = "start_system ex_pool 2"
  have "slice_bytes ex_pool = 4096" by code_simp
  then have s: "sys_pool ?s = ex_pool" "sys_buffer ?s = new_buffer 2 4096" "\<not> sys_waiting ?s"
    by (simp_all add: start_system_def)
  have "free_list ex_pool = set [0, 4096, 8192]" by code_simp
  then have it: "iterates [0, 4096, 8192] ex_pool" by (simp add: iterates_def)
  obtain p b r where i: "initialize [0, 4096, 8192] ex_pool (new_buffer 2 4096) = (p, b, r)" by (metis prod_cases3)
  have "system_step ?s (?s\<lparr>sys_pool := p, sys_buffer := b\<rparr>)"
    using s it i by (intro system_step.init) simp_all
  then have "system_step ?s ex_started" by (simp add: ex_started_def i)
  moreover have "\<not> sys_waiting ex_started" by (simp add: ex_started_def i start_system_def)
  then have "system_step ex_started ex_running" unfolding ex_running_def by (rule system_step.buffer_call)
  ultimately show ?thesis by (meson reaches.intros)
qed

theorem buffer_ownership_witness:
  "free_list (sys_pool ex_running) = {8192} \<and> chunk_buffers (sys_buffer ex_running) = [0, 4096] \<and>
   set (free_queue (sys_buffer ex_running)) = slots_in kFree (sys_buffer ex_running) \<and>
   unat (inflight (sys_buffer ex_running)) = card (slots_in kProducerOwned (sys_buffer ex_running) \<union> slots_in kConsumerOwned (sys_buffer ex_running))"
proof -
  have "initialized (sys_buffer ex_running)" by code_simp
  moreover have "free_list (sys_pool ex_running) = {8192}" by code_simp
  moreover have "chunk_buffers (sys_buffer ex_running) = [0, 4096]" by code_simp
  ultimately show ?thesis
    using buffer_ownership [OF ex_pool_new ex_running_reached] by (simp add: Let_def)
qed

end
