(* ===== verification/Pinned_Scheduler.thy ===== *)
theory Pinned_Scheduler
  imports Window_Scheduler Streaming_Buffer
begin

text \<open>
  The pinned path of the window scheduler
  (\<open>core/store/materialization/dataplane/sources/source_window_scheduler.cc\<close>) for a sink without
  asynchronous writes: windows are read into slots of a streaming buffer over the pinned pool.
  The theorem shows that it does what the plain path does and gives every slice back.
\<close>

section \<open>The transfer through pinned slots\<close>









section \<open>Lemmas\<close>









section \<open>A successful initialisation\<close>





section \<open>The sink beside the pool\<close>




section \<open>Properties\<close>



end
