(* ===== verification/Staging_Flow.thy ===== *)
theory Staging_Flow
  imports TC_Prelude
begin

text \<open>
  Flow control of staged transfers (\<open>core/communicator/engine/staging_flow_controller.cc\<close>): the
  credit ledger of a channel with its waiters, the leases on credit and on staged segments, the
  registry of staged segments, and the windows a request is staged in. Threads that wait for
  credit are numbered; a waiter that was woken resumes in a step of its own. The staging function
  of a request is an argument, as it is in the code.
\<close>

section \<open>The credit ledger\<close>

record FlowCreditLedger =
  total_credit :: int
  outstanding :: int
  waiters :: "(nat \<times> int) list"
  woken :: "(nat \<times> int) list"

definition new_ledger :: "int \<Rightarrow> FlowCreditLedger option" where
  "new_ledger n = (if n \<le> 0 then None else Some \<lparr>total_credit = n, outstanding = 0, waiters = [], woken = []\<rparr>)"

text \<open>The waiters that are woken with the given credit, first come first served, and the rest.\<close>

fun wake :: "int \<Rightarrow> (nat \<times> int) list \<Rightarrow> (nat \<times> int) list \<times> (nat \<times> int) list" where
  "wake available [] = ([], [])"
| "wake available ((i, n) # rest) =
     (if n \<le> available then map_prod ((#) (i, n)) id (wake (available - n) rest) else ([], (i, n) # rest))"

definition wake_waiters :: "FlowCreditLedger \<Rightarrow> FlowCreditLedger" where
  "wake_waiters l =
     (case wake (total_credit l - outstanding l) (waiters l) of
        (ready, rest) \<Rightarrow> l\<lparr>woken := woken l @ ready, waiters := rest\<rparr>)"

record Lease =
  attached :: bool
  granted :: int
  consumed :: int

definition new_lease :: "int \<Rightarrow> Lease" where
  "new_lease n = \<lparr>attached = True, granted = n, consumed = 0\<rparr>"

definition validate_request :: "FlowCreditLedger \<Rightarrow> int \<Rightarrow> status" where
  "validate_request l n =
     (if n \<le> 0 then Inl (Err InvalidArgument ''requested_segments must be > 0'')
      else if total_credit l < n then Inl (Err InvalidArgument ''requested_segments exceeds ledger capacity'')
      else ok_status)"

definition take_credit :: "int \<Rightarrow> FlowCreditLedger \<Rightarrow> FlowCreditLedger" where
  "take_credit n l = wake_waiters (l\<lparr>outstanding := outstanding l + n\<rparr>)"

text \<open>\<open>acquire\<close> of thread \<open>i\<close>: \<open>None\<close> when it waits; the second function is its return from the wait.\<close>

definition acquire :: "nat \<Rightarrow> int \<Rightarrow> FlowCreditLedger \<Rightarrow> FlowCreditLedger \<times> Lease status_or option" where
  "acquire i n l =
     (case validate_request l n of
        Inl e \<Rightarrow> (l, Some (Inl e))
      | Inr _ \<Rightarrow>
        if waiters l = [] \<and> n \<le> total_credit l - outstanding l
        then (take_credit n l, Some (Inr (new_lease n)))
        else (l\<lparr>waiters := waiters l @ [(i, n)]\<rparr>, None))"

definition acquire_resume :: "nat \<Rightarrow> FlowCreditLedger \<Rightarrow> (FlowCreditLedger \<times> Lease) option" where
  "acquire_resume i l =
     (case List.find (\<lambda>w. fst w = i) (woken l) of
        None \<Rightarrow> None
      | Some w \<Rightarrow> Some (take_credit (snd w) (l\<lparr>woken := remove1 w (woken l)\<rparr>), new_lease (snd w)))"

definition try_acquire :: "int \<Rightarrow> FlowCreditLedger \<Rightarrow> FlowCreditLedger \<times> Lease status_or" where
  "try_acquire n l =
     (case validate_request l n of
        Inl e \<Rightarrow> (l, Inl e)
      | Inr _ \<Rightarrow>
        let available = total_credit l - outstanding l in
        if available \<le> 0 then (l, Inl (Err Unavailable ''no staging credit available''))
        else let grant = min n available in (take_credit grant l, Inr (new_lease grant)))"

definition release_credit :: "int \<Rightarrow> FlowCreditLedger \<Rightarrow> FlowCreditLedger" where
  "release_credit n l =
     (if n \<le> 0 then l else wake_waiters (l\<lparr>outstanding := max 0 (outstanding l - n)\<rparr>))"

definition available_credit :: "FlowCreditLedger \<Rightarrow> int" where
  "available_credit l = total_credit l - outstanding l"

definition mark_consumed :: "int \<Rightarrow> Lease \<Rightarrow> Lease" where
  "mark_consumed n c = (if attached c then c\<lparr>consumed := consumed c + n\<rparr> else c)"

definition lease_cleanup :: "FlowCreditLedger \<Rightarrow> Lease \<Rightarrow> FlowCreditLedger \<times> Lease" where
  "lease_cleanup l c =
     (if \<not> attached c then (l, c)
      else (if 0 < granted c - consumed c then release_credit (granted c - consumed c) l else l,
            \<lparr>attached = False, granted = 0, consumed = 0\<rparr>))"

section \<open>Leases on staged segments\<close>

datatype StageTransport = TransportUnknown | TransportRdma | TransportMtcp

record StageMetadata =
  md_transport :: StageTransport
  md_request_key :: string
  md_window_seq :: u32
  md_segment_idx :: u32
  md_offset :: u64
  md_bytes :: u64
  md_zero_copy :: bool

record StageLease =
  lease_valid :: bool
  lease_on_ledger :: bool
  lease_ptr :: "u64 option"
  lease_bytes :: u64
  lease_metadata :: StageMetadata
  lease_released :: bool

definition is_released :: "StageLease \<Rightarrow> bool" where
  "is_released s \<longleftrightarrow> \<not> lease_valid s \<or> lease_released s"

text \<open>\<open>release\<close>: the first call returns one segment of credit (and the buffer, outside the ledger).\<close>

definition release_lease :: "StageLease \<Rightarrow> FlowCreditLedger \<Rightarrow> StageLease \<times> FlowCreditLedger" where
  "release_lease s l =
     (if \<not> lease_valid s \<or> lease_released s then (s, l)
      else (s\<lparr>lease_released := True\<rparr>, if lease_on_ledger s then release_credit 1 l else l))"

record StageLeaseKey =
  key_request :: string
  key_window_seq :: u32
  key_segment_idx :: u32

record RegistryEntry =
  entry_lease :: StageLease
  inserted_at :: int

type_synonym StageLeaseRegistry = "(StageLeaseKey \<times> RegistryEntry) list"

definition registry_put :: "StageLeaseKey \<Rightarrow> StageLease \<Rightarrow> int \<Rightarrow> StageLeaseRegistry \<Rightarrow> StageLeaseRegistry" where
  "registry_put k s now r = AList.update k \<lparr>entry_lease = s, inserted_at = now\<rparr> r"

definition registry_take :: "StageLeaseKey \<Rightarrow> StageLeaseRegistry \<Rightarrow> StageLeaseRegistry \<times> StageLease status_or" where
  "registry_take k r =
     (case map_of r k of
        None \<Rightarrow> (r, Inl (Err NotFound ''StageLease not found''))
      | Some e \<Rightarrow> (AList.delete k r, Inr (entry_lease e)))"

definition snapshot_expired :: "int \<Rightarrow> int \<Rightarrow> StageLeaseRegistry \<Rightarrow> (StageLeaseKey \<times> RegistryEntry) list" where
  "snapshot_expired now ttl r = filter (\<lambda>(k, e). inserted_at e \<le> now - ttl) r"

section \<open>Windows\<close>

record StagedSegment =
  seg_lease :: StageLease
  seg_offset :: u64
  seg_bytes :: u32
  seg_idx :: u32

record StagedWindow =
  window_seq :: u32
  window_segments :: "StagedSegment list"
  more_segments :: bool
  granted_credit :: int

record StagingWindow =
  chunk_size :: u64
  max_window_segments :: u32
  remaining_bytes :: u64
  current_offset :: u64
  next_window_seq :: u32

definition new_staging :: "u64 \<Rightarrow> u64 \<Rightarrow> u64 \<Rightarrow> u32 \<Rightarrow> StagingWindow option" where
  "new_staging tot chunk start cap =
     (if chunk = 0 then None
      else Some \<lparr>chunk_size = chunk, max_window_segments = cap, remaining_bytes = tot,
                 current_offset = start, next_window_seq = 0\<rparr>)"

definition ceil_div :: "u64 \<Rightarrow> u64 \<Rightarrow> u32" where
  "ceil_div num denom = (if denom = 0 then 0 else ucast ((num + denom - 1) div denom))"

definition requested_segments :: "StagingWindow \<Rightarrow> u32" where
  "requested_segments w =
     (let segments_remaining = ceil_div (remaining_bytes w) (chunk_size w);
          per_window_cap = (if max_window_segments w = 0 then segments_remaining else max_window_segments w)
      in min segments_remaining per_window_cap)"

definition next_bytes :: "StagingWindow \<Rightarrow> u32" where
  "next_bytes w = ucast (min (chunk_size w) (remaining_bytes w))"

definition advance :: "StagingWindow \<Rightarrow> StagingWindow" where
  "advance w = w\<lparr>current_offset := current_offset w + ucast (next_bytes w),
     remaining_bytes := remaining_bytes w - ucast (next_bytes w)\<rparr>"

text \<open>
  The staging loop: \<open>n\<close> segments of credit left, \<open>i\<close> the index of the next one. It ends with the
  segments staged and the error of the staging function, if it failed.
\<close>

primrec stage_loop ::
  "(u64 \<Rightarrow> u32 \<Rightarrow> u32 \<Rightarrow> StageLease status_or) \<Rightarrow> nat \<Rightarrow> u32 \<Rightarrow> StagingWindow \<Rightarrow>
   StagingWindow \<times> StagedSegment list \<times> error option"
where
  "stage_loop stage_fn 0 i w = (w, [], None)"
| "stage_loop stage_fn (Suc n) i w =
     (if remaining_bytes w = 0 then (w, [], None)
      else case stage_fn (current_offset w) (next_bytes w) i of
             Inl e \<Rightarrow> (w, [], Some e)
           | Inr s \<Rightarrow>
               map_prod id (map_prod ((#) \<lparr>seg_lease = s, seg_offset = current_offset w,
                   seg_bytes = next_bytes w, seg_idx = i\<rparr>) id)
                 (stage_loop stage_fn n (i + 1) (advance w)))"

definition release_segments :: "StagedSegment list \<Rightarrow> FlowCreditLedger \<Rightarrow> FlowCreditLedger" where
  "release_segments segs l = fold (\<lambda>s. snd \<circ> release_lease (seg_lease s)) segs l"

definition finished_window :: "StagingWindow \<Rightarrow> StagedSegment list \<Rightarrow> bool \<Rightarrow> StagingWindow \<Rightarrow> StagingWindow \<times> StagedWindow" where
  "finished_window w0 segs rest_left w =
     (w\<lparr>next_window_seq := next_window_seq w0 + 1\<rparr>,
      \<lparr>window_seq = next_window_seq w0, window_segments = segs, more_segments = rest_left,
       granted_credit = int (length segs)\<rparr>)"

definition stage_next ::
  "(u64 \<Rightarrow> u32 \<Rightarrow> u32 \<Rightarrow> StageLease status_or) \<Rightarrow> FlowCreditLedger \<Rightarrow> StagingWindow \<Rightarrow>
   FlowCreditLedger \<times> StagingWindow \<times> StagedWindow status_or"
where
  "stage_next stage_fn l w =
     (if remaining_bytes w = 0 then (l, w, Inl (Err OutOfRange ''staging complete''))
      else if requested_segments w = 0 then (l, w, Inl (Err Internal ''staging requested zero segments''))
      else case try_acquire (sint (requested_segments w)) l of
             (l1, Inl e) \<Rightarrow> (l1, w, Inl e)
           | (l1, Inr credit) \<Rightarrow>
             if granted credit \<le> 0
             then (fst (lease_cleanup l1 credit), w, Inl (Err Unavailable ''ledger granted no segments''))
             else
               (case stage_loop stage_fn (nat (granted credit)) 0 w of
                  (w1, segs, failure) \<Rightarrow>
                    let l2 = fst (lease_cleanup l1 (mark_consumed (int (length segs)) credit)) in
                    (case failure of
                       None \<Rightarrow> (case finished_window w segs (remaining_bytes w1 \<noteq> 0) w1 of
                                   (w2, win) \<Rightarrow> (l2, w2, Inr win))
                     | Some e \<Rightarrow>
                       if err_code e = ResourceExhausted \<or> err_code e = Unavailable
                       then (if segs = [] then (l2, w1, Inl e)
                             else case finished_window w segs True w1 of (w2, win) \<Rightarrow> (l2, w2, Inr win))
                       else (release_segments segs l2, w1, Inl e))))"
section \<open>Credit\<close>

lemma wake_waiters_fields [simp]:
  "total_credit (wake_waiters l) = total_credit l" "outstanding (wake_waiters l) = outstanding l"
  by (simp_all add: wake_waiters_def split: prod.split)

lemma take_credit_fields [simp]:
  "total_credit (take_credit n l) = total_credit l" "outstanding (take_credit n l) = outstanding l + n"
  by (simp_all add: take_credit_def)

lemma release_credit_fields [simp]:
  "total_credit (release_credit n l) = total_credit l"
  "outstanding (release_credit n l) = (if n \<le> 0 then outstanding l else max 0 (outstanding l - n))"
  by (simp_all add: release_credit_def)

lemma try_acquire_cases:
  assumes "try_acquire n l = (l', r)"
  shows "(\<exists>e. r = Inl e \<and> l' = l) \<or>
    (r = Inr (new_lease (min n (available_credit l))) \<and> 0 < n \<and> n \<le> total_credit l \<and> 0 < available_credit l \<and>
     l' = take_credit (min n (available_credit l)) l)"
  using assms by (auto simp: try_acquire_def validate_request_def available_credit_def Let_def split: if_splits sum.splits)

text \<open>Without waiters the credit given out never exceeds the total.\<close>

lemma try_acquire_bounded:
  assumes "outstanding l \<le> total_credit l" "try_acquire n l = (l', r)"
  shows "outstanding l' \<le> total_credit l'"
  using try_acquire_cases [OF assms(2)] assms(1) by (auto simp: available_credit_def)

text \<open>
  A waiter that was woken holds no credit until it resumes. What another thread takes in between
  is given out a second time.
\<close>

definition two_credits :: FlowCreditLedger where
  "two_credits = \<lparr>total_credit = 2, outstanding = 0, waiters = [], woken = []\<rparr>"

definition overtaken_waiter :: "(FlowCreditLedger \<times> Lease) option" where
  "overtaken_waiter =
     (let l1 = fst (acquire 1 2 two_credits);
          l2 = fst (acquire 2 2 l1);
          l3 = release_credit 2 l2;
          l4 = fst (try_acquire 2 l3)
      in acquire_resume 2 l4)"

lemma woken_waiter_overcommits: "map_option (\<lambda>(l, c). (outstanding l, total_credit l)) overtaken_waiter = Some (4, 2)"
  by code_simp

section \<open>The plan of a request\<close>

text \<open>The pieces of \<open>rem\<close> bytes from \<open>off\<close> on, in chunks of \<open>c\<close>.\<close>

function chunk_plan :: "nat \<Rightarrow> nat \<Rightarrow> nat \<Rightarrow> (nat \<times> nat) list" where
  "chunk_plan off rest c =
     (if rest = 0 \<or> c = 0 then [] else (off, min c rest) # chunk_plan (off + min c rest) (rest - min c rest) c)"
  by pat_completeness auto
termination by (relation "measure (\<lambda>(off, rest, c). rest)") auto

declare chunk_plan.simps [simp del]

lemma length_chunk_plan: "0 < c \<Longrightarrow> length (chunk_plan off n c) = (n + c - 1) div c"
proof (induction off n c rule: chunk_plan.induct)
  case (1 off n c)
  show ?case
  proof (cases "n \<le> c")
    case True
    then have "(n + c - 1) div c = (if n = 0 then 0 else 1)"
      using "1.prems" by (auto intro!: div_nat_eqI)
    with True "1.prems" show ?thesis by (subst chunk_plan.simps) (simp add: chunk_plan.simps)
  next
    case False
    then have "(n + c - 1) div c = Suc ((n - c + c - 1) div c)"
      using "1.prems" div_add_self2 [of c "n - 1"] by (simp add: add.commute)
    with False 1 show ?thesis by (subst chunk_plan.simps) simp
  qed
qed

lemma chunk_plan_total: "0 < c \<Longrightarrow> sum_list (map snd (chunk_plan off n c)) = n"
proof (induction off n c rule: chunk_plan.induct)
  case (1 off n c)
  then show ?case by (subst chunk_plan.simps) (cases "n = 0"; simp add: min_def)
qed

definition plan_of :: "StagingWindow \<Rightarrow> (nat \<times> nat) list" where
  "plan_of w = chunk_plan (unat (current_offset w)) (unat (remaining_bytes w)) (unat (chunk_size w))"

definition seg_span :: "StagedSegment \<Rightarrow> nat \<times> nat" where
  "seg_span s = (unat (seg_offset s), unat (seg_bytes s))"

text \<open>The sizes for which the arithmetic of the code does not wrap or truncate.\<close>

definition staging_ok :: "StagingWindow \<Rightarrow> bool" where
  "staging_ok w \<longleftrightarrow> chunk_size w \<noteq> 0 \<and> unat (chunk_size w) < 2 ^ 32 \<and>
     unat (current_offset w) + unat (remaining_bytes w) < 2 ^ 64 \<and>
     unat (remaining_bytes w) + unat (chunk_size w) < 2 ^ 64"

lemma unat_next_bytes:
  assumes "staging_ok w"
  shows "unat (next_bytes w) = min (unat (chunk_size w)) (unat (remaining_bytes w))"
proof -
  have "unat (min (chunk_size w) (remaining_bytes w)) = min (unat (chunk_size w)) (unat (remaining_bytes w))"
    by (simp add: min_def word_le_nat_alt)
  moreover have "unat (ucast x :: u32) = unat x" if "unat x < 2 ^ 32" for x :: u64
    using that by (simp add: unsigned_ucast_eq take_bit_nat_eq_self)
  from this [of "min (chunk_size w) (remaining_bytes w)"]
  have "unat (next_bytes w) = unat (min (chunk_size w) (remaining_bytes w))"
    using assms calculation unfolding next_bytes_def staging_ok_def by linarith
  ultimately show ?thesis by simp
qed

lemma advance_plan:
  assumes "staging_ok w" "remaining_bytes w \<noteq> 0"
  shows "staging_ok (advance w)" "plan_of w = (unat (current_offset w), unat (next_bytes w)) # plan_of (advance w)"
proof -
  let ?n = "ucast (next_bytes w) :: u64"
  have n: "unat ?n = min (unat (chunk_size w)) (unat (remaining_bytes w))" using unat_next_bytes [OF assms(1)] by simp
  have off: "unat (current_offset w + ?n) = unat (current_offset w) + unat ?n"
    using assms(1) n by (intro unat_u64_add) (auto simp: staging_ok_def)
  have left: "unat (remaining_bytes w - ?n) = unat (remaining_bytes w) - unat ?n"
    using n by (intro unat_u64_sub) (simp add: word_le_nat_alt)
  show "staging_ok (advance w)" using assms(1) off left n by (auto simp: staging_ok_def advance_def)
  have "unat (remaining_bytes w) \<noteq> 0" "unat (chunk_size w) \<noteq> 0"
    using assms by (auto simp: staging_ok_def unsigned_eq_0_iff)
  then show "plan_of w = (unat (current_offset w), unat (next_bytes w)) # plan_of (advance w)"
    unfolding plan_of_def using off left n
    by (subst chunk_plan.simps) (simp add: advance_def unat_next_bytes [OF assms(1)])
qed

lemma plan_of_Nil: "staging_ok w \<Longrightarrow> plan_of w = [] \<longleftrightarrow> remaining_bytes w = 0"
  by (auto simp: plan_of_def chunk_plan.simps staging_ok_def unsigned_eq_0_iff)
section \<open>One call of the staging window\<close>

lemma stage_loop_plan:
  assumes "staging_ok w" "stage_loop stage_fn n i w = (w1, segs, failure)"
  shows "staging_ok w1 \<and> map seg_span segs = take (length segs) (plan_of w) \<and>
    plan_of w1 = drop (length segs) (plan_of w) \<and> length segs \<le> n \<and> length segs \<le> length (plan_of w) \<and>
    (failure = None \<longrightarrow> length segs = min n (length (plan_of w))) \<and>
    (failure \<noteq> None \<longrightarrow> remaining_bytes w1 \<noteq> 0)"
  using assms
proof (induction n arbitrary: i w segs)
  case (Suc n)
  show ?case
  proof (cases "remaining_bytes w = 0")
    case True
    then show ?thesis using Suc.prems plan_of_Nil [OF Suc.prems(1)] by simp
  next
    case False
    note adv = advance_plan [OF Suc.prems(1) False]
    show ?thesis
    proof (cases "stage_fn (current_offset w) (next_bytes w) i")
      case (Inl e)
      then show ?thesis using Suc.prems False by auto
    next
      case (Inr s)
      then obtain rest where rest: "stage_loop stage_fn n (i + 1) (advance w) = (w1, rest, failure)"
        and segs: "segs = \<lparr>seg_lease = s, seg_offset = current_offset w, seg_bytes = next_bytes w, seg_idx = i\<rparr> # rest"
        using Suc.prems(2) False by (cases "stage_loop stage_fn n (i + 1) (advance w)") auto
      from Suc.IH [OF adv(1) rest] show ?thesis unfolding segs adv(2) by (auto simp: seg_span_def)
    qed
  qed
qed simp

text \<open>What the code relies on in a staging function: a lease that holds one segment of credit.\<close>

definition credit_leases :: "(u64 \<Rightarrow> u32 \<Rightarrow> u32 \<Rightarrow> StageLease status_or) \<Rightarrow> bool" where
  "credit_leases stage_fn \<longleftrightarrow> (\<forall>off n i s. stage_fn off n i = Inr s \<longrightarrow>
     lease_valid s \<and> lease_on_ledger s \<and> \<not> lease_released s)"

lemma stage_loop_leases:
  assumes "credit_leases stage_fn" "stage_loop stage_fn n i w = (w1, segs, failure)"
  shows "\<forall>s\<in>set segs. lease_valid (seg_lease s) \<and> lease_on_ledger (seg_lease s) \<and> \<not> lease_released (seg_lease s)"
  using assms(2)
proof (induction n arbitrary: i w w1 segs failure)
  case (Suc n)
  show ?case
  proof (cases "stage_loop stage_fn n (i + 1) (advance w)")
    case (fields w2 rest f)
    then show ?thesis
      using Suc.prems Suc.IH [OF fields] assms(1) by (auto simp: credit_leases_def split: if_splits sum.splits)
  qed
qed simp

lemma release_segments_credit:
  assumes "\<forall>s\<in>set segs. lease_valid (seg_lease s) \<and> lease_on_ledger (seg_lease s) \<and> \<not> lease_released (seg_lease s)"
    and "int (length segs) \<le> outstanding l"
  shows "outstanding (release_segments segs l) = outstanding l - int (length segs)"
    "total_credit (release_segments segs l) = total_credit l"
proof -
  have "outstanding (release_segments segs l) = outstanding l - int (length segs) \<and>
      total_credit (release_segments segs l) = total_credit l"
    using assms
  proof (induction segs arbitrary: l)
    case (Cons s segs)
    let ?l = "release_credit 1 l"
    have "release_segments (s # segs) l = release_segments segs ?l"
      using Cons.prems(1) by (simp add: release_segments_def release_lease_def)
    with Cons.IH [of ?l] Cons.prems show ?case by auto
  qed (simp add: release_segments_def)
  then show "outstanding (release_segments segs l) = outstanding l - int (length segs)"
    "total_credit (release_segments segs l) = total_credit l" by simp_all
qed

lemma unused_credit:
  assumes "0 \<le> outstanding l" "0 \<le> k" "k \<le> n"
  shows "outstanding (fst (lease_cleanup (take_credit n l) (mark_consumed k (new_lease n)))) = outstanding l + k"
    "total_credit (fst (lease_cleanup (take_credit n l) (mark_consumed k (new_lease n)))) = total_credit l"
  using assms by (auto simp: lease_cleanup_def mark_consumed_def new_lease_def)

lemma unat_requested:
  assumes "staging_ok w" "length (plan_of w) < 2 ^ 31"
  shows "unat (requested_segments w) = (if max_window_segments w = 0 then length (plan_of w)
    else min (length (plan_of w)) (unat (max_window_segments w)))"
proof -
  let ?c = "chunk_size w" and ?r = "remaining_bytes w"
  have pos: "0 < unat ?c" using assms(1) by (simp add: staging_ok_def unat_gt_0)
  have c1: "unat (?c - 1) = unat ?c - 1" using pos by (subst unat_u64_sub) (simp_all add: word_le_nat_alt)
  have "unat (?r + (?c - 1)) = unat ?r + (unat ?c - 1)"
    using assms(1) c1 by (subst unat_u64_add) (auto simp: staging_ok_def)
  then have "unat ((?r + ?c - 1) div ?c) = length (plan_of w)"
    using pos by (simp add: unat_div plan_of_def length_chunk_plan add_diff_eq)
  then have "unat (ceil_div ?r ?c) = length (plan_of w)"
    using assms by (simp add: ceil_div_def staging_ok_def unsigned_ucast_eq take_bit_nat_eq_self)
  then show ?thesis by (auto simp: requested_segments_def Let_def min_def word_le_nat_alt)
qed

lemma sint_small_u32:
  assumes "unat (x :: u32) < 2 ^ 31"
  shows "sint x = int (unat x)"
proof -
  have "sint x = signed_take_bit 31 (int (unat x))" unfolding uint_nat [symmetric] by (simp add: sint_uint)
  also have "\<dots> = int (unat x)"
  proof (rule signed_take_bit_int_eq_self)
    show "- (2 ^ 31) \<le> int (unat x)" by (rule order_trans [of _ 0]) simp_all
    have "int (unat x) < int (2 ^ 31)" using assms by (simp only: of_nat_less_iff)
    then show "int (unat x) < 2 ^ 31" by simp
  qed
  finally show ?thesis .
qed
lemma stage_loop_total:
  assumes "\<forall>off n i. is_ok (stage_fn off n i)"
  shows "snd (snd (stage_loop stage_fn n i w)) = None"
proof (induction n arbitrary: i w)
  case (Suc n)
  obtain s where "stage_fn (current_offset w) (next_bytes w) i = Inr s" using assms by (metis is_ok_iff)
  with Suc.IH [of "i + 1" "advance w"] show ?case by (auto simp: map_prod_def split: prod.split)
qed simp

lemma requested_positive:
  assumes "staging_ok w" "length (plan_of w) < 2 ^ 31" "remaining_bytes w \<noteq> 0"
  shows "requested_segments w \<noteq> 0" "sint (requested_segments w) = int (unat (requested_segments w))"
proof -
  have "0 < length (plan_of w)" using plan_of_Nil [OF assms(1)] assms(3) by simp
  then have "0 < unat (requested_segments w)"
    unfolding unat_requested [OF assms(1,2)] by (auto simp: unat_gt_0)
  then show "requested_segments w \<noteq> 0" by auto
  have "unat (requested_segments w) < 2 ^ 31" using assms(2) unfolding unat_requested [OF assms(1,2)] by auto
  then show "sint (requested_segments w) = int (unat (requested_segments w))" by (rule sint_small_u32)
qed

text \<open>The call after credit was granted, in the three ways the loop can end.\<close>

lemma stage_next_granted:
  assumes "remaining_bytes w \<noteq> 0" "requested_segments w \<noteq> 0" "0 < g"
    and "try_acquire (sint (requested_segments w)) l = (take_credit g l, Inr (new_lease g))"
    and "stage_loop stage_fn (nat g) 0 w = (w1, segs, failure)"
  shows "stage_next stage_fn l w =
    (let l2 = fst (lease_cleanup (take_credit g l) (mark_consumed (int (length segs)) (new_lease g))) in
     case failure of
       None \<Rightarrow> (case finished_window w segs (remaining_bytes w1 \<noteq> 0) w1 of (w2, win) \<Rightarrow> (l2, w2, Inr win))
     | Some e \<Rightarrow>
       if err_code e = ResourceExhausted \<or> err_code e = Unavailable
       then (if segs = [] then (l2, w1, Inl e)
             else case finished_window w segs True w1 of (w2, win) \<Rightarrow> (l2, w2, Inr win))
       else (release_segments segs l2, w1, Inl e))"
  using assms by (simp add: stage_next_def new_lease_def)

lemma plan_of_seq [simp]: "plan_of (w\<lparr>next_window_seq := n\<rparr>) = plan_of w" "staging_ok (w\<lparr>next_window_seq := n\<rparr>) = staging_ok w"
  by (simp_all add: plan_of_def staging_ok_def)

text \<open>What a call leaves behind.\<close>

definition stage_result :: "FlowCreditLedger \<Rightarrow> StagingWindow \<Rightarrow> FlowCreditLedger \<times> StagingWindow \<times> StagedWindow status_or \<Rightarrow> bool" where
  "stage_result l w res \<longleftrightarrow> (case res of (l', w', r) \<Rightarrow>
     total_credit l' = total_credit l \<and> outstanding l' \<le> total_credit l \<and> staging_ok w' \<and>
     (case r of
        Inl e \<Rightarrow> outstanding l' = outstanding l
      | Inr win \<Rightarrow>
        (let segs = window_segments win; k = length segs in
         0 < k \<and> map seg_span segs = take k (plan_of w) \<and> plan_of w' = drop k (plan_of w) \<and>
         (max_window_segments w = 0 \<or> k \<le> unat (max_window_segments w)) \<and>
         outstanding l' = outstanding l + int k \<and> (more_segments win \<longleftrightarrow> plan_of w' \<noteq> []))))"

lemma stage_granted_result:
  assumes ok: "staging_ok w" "length (plan_of w) < 2 ^ 31" "credit_leases stage_fn" "0 \<le> outstanding l"
    and left: "remaining_bytes w \<noteq> 0" and g: "0 < g" "g \<le> sint (requested_segments w)" "g \<le> available_credit l"
    and took: "try_acquire (sint (requested_segments w)) l = (take_credit g l, Inr (new_lease g))"
  shows "stage_result l w (stage_next stage_fn l w)"
    "(\<forall>off n i. is_ok (stage_fn off n i)) \<Longrightarrow> is_ok (snd (snd (stage_next stage_fn l w)))"
proof -
  note req = requested_positive [OF ok(1,2) left]
  obtain w1 segs failure where loop: "stage_loop stage_fn (nat g) 0 w = (w1, segs, failure)" by (metis prod_cases3)
  note sp = stage_loop_plan [OF ok(1) loop]
  let ?l2 = "fst (lease_cleanup (take_credit g l) (mark_consumed (int (length segs)) (new_lease g)))"
  have len: "int (length segs) \<le> g" using sp g(1) by linarith
  have l2: "outstanding ?l2 = outstanding l + int (length segs)" "total_credit ?l2 = total_credit l"
    using unused_credit [OF ok(4) _ len] by simp_all
  have bound: "outstanding l + int (length segs) \<le> total_credit l" using len g(3) by (simp add: available_credit_def)
  have cap: "max_window_segments w = 0 \<or> length segs \<le> unat (max_window_segments w)"
    using len g(2) unfolding req(2) unat_requested [OF ok(1,2)] by (auto split: if_splits)
  have more: "remaining_bytes w1 \<noteq> 0 \<longleftrightarrow> plan_of w1 \<noteq> []" using plan_of_Nil [of w1] sp by simp
  note next_eq = stage_next_granted [OF left req(1) g(1) took loop]
  have full: "segs \<noteq> []" if "failure = None"
    using sp that g(1) plan_of_Nil [OF ok(1)] left by (auto simp: min_def split: if_splits)
  have part: "staging_ok w1" "map seg_span segs = take (length segs) (plan_of w)"
    "plan_of w1 = drop (length segs) (plan_of w)" "failure \<noteq> None \<Longrightarrow> remaining_bytes w1 \<noteq> 0" using sp by blast+
  have returned: "outstanding (release_segments segs ?l2) = outstanding l" "total_credit (release_segments segs ?l2) = total_credit l"
    using release_segments_credit [OF stage_loop_leases [OF ok(3) loop], of ?l2] l2 ok(4) by simp_all
  show "stage_result l w (stage_next stage_fn l w)"
    unfolding next_eq stage_result_def using part l2 bound cap more full returned g
    by (cases failure) (auto simp: finished_window_def Let_def available_credit_def)
  show "is_ok (snd (snd (stage_next stage_fn l w)))" if "\<forall>off n i. is_ok (stage_fn off n i)"
    unfolding next_eq using stage_loop_total [OF that, of "nat g" 0 w] loop by (simp add: finished_window_def Let_def)
qed

section \<open>Properties\<close>

text \<open>
  C37. A call of \<open>stage_next\<close> that returns a window stages the next segments of the request's
  plan, in order and without a gap, at most the window cap of them; the state afterwards has
  exactly the rest of the plan, \<open>more_segments\<close> says whether there is one, and every segment holds
  one unit of credit. A call that fails has returned all credit it took. The credit given out never
  exceeds the total. When there is something left to stage, credit is available, the request fits
  the ledger and the staging function succeeds, the call returns a window.
\<close>

theorem staged_window_exact:
  assumes "staging_ok w" "length (plan_of w) < 2 ^ 31" "credit_leases stage_fn"
    and "0 \<le> outstanding l" "outstanding l \<le> total_credit l"
  shows "case stage_next stage_fn l w of (l', w', r) \<Rightarrow>
    total_credit l' = total_credit l \<and> outstanding l' \<le> total_credit l \<and> staging_ok w' \<and>
    (case r of
       Inl e \<Rightarrow> outstanding l' = outstanding l
     | Inr win \<Rightarrow>
       (let segs = window_segments win; k = length segs in
        0 < k \<and> map seg_span segs = take k (plan_of w) \<and> plan_of w' = drop k (plan_of w) \<and>
        (max_window_segments w = 0 \<or> k \<le> unat (max_window_segments w)) \<and>
        outstanding l' = outstanding l + int k \<and> (more_segments win \<longleftrightarrow> plan_of w' \<noteq> []))) \<and>
    ((\<forall>off n i. is_ok (stage_fn off n i)) \<and> remaining_bytes w \<noteq> 0 \<and> outstanding l < total_credit l \<and>
     int (unat (requested_segments w)) \<le> total_credit l \<longrightarrow> is_ok r)"
proof -
  have "stage_result l w (stage_next stage_fn l w) \<and>
      ((\<forall>off n i. is_ok (stage_fn off n i)) \<and> remaining_bytes w \<noteq> 0 \<and> outstanding l < total_credit l \<and>
       int (unat (requested_segments w)) \<le> total_credit l \<longrightarrow> is_ok (snd (snd (stage_next stage_fn l w))))"
  proof (cases "remaining_bytes w = 0")
    case True
    with assms show ?thesis by (simp add: stage_next_def stage_result_def)
  next
    case False
    note req = requested_positive [OF assms(1,2) False]
    let ?n = "sint (requested_segments w)"
    obtain l1 r1 where took: "try_acquire ?n l = (l1, r1)" by fastforce
    show ?thesis
    proof (cases r1)
      case (Inl e)
      then have "l1 = l" using try_acquire_cases [OF took] by auto
      have "\<not> (0 < ?n \<and> ?n \<le> total_credit l \<and> 0 < available_credit l)"
        using took Inl by (auto simp: try_acquire_def validate_request_def available_credit_def Let_def split: if_splits)
      moreover have "0 < ?n" unfolding req(2) using req(1) by (simp only: of_nat_0_less_iff unat_gt_0) simp
      ultimately show ?thesis
        using False req Inl took \<open>l1 = l\<close> assms by (auto simp: stage_next_def stage_result_def available_credit_def)
    next
      case (Inr credit)
      define g where "g = min ?n (available_credit l)"
      have "0 < g" "g \<le> ?n" "g \<le> available_credit l" "try_acquire ?n l = (take_credit g l, Inr (new_lease g))"
        using try_acquire_cases [OF took] Inr took unfolding g_def by auto
      from stage_granted_result [OF assms(1-4) False this] show ?thesis by blast
    qed
  qed
  then show ?thesis unfolding stage_result_def by (auto split: prod.splits)
qed

section \<open>Examples\<close>

definition ex_metadata :: StageMetadata where
  "ex_metadata = \<lparr>md_transport = TransportRdma, md_request_key = ''r'', md_window_seq = 0, md_segment_idx = 0,
     md_offset = 0, md_bytes = 0, md_zero_copy = False\<rparr>"

definition ex_lease :: "u64 \<Rightarrow> u32 \<Rightarrow> StageLease" where
  "ex_lease off n = \<lparr>lease_valid = True, lease_on_ledger = True, lease_ptr = Some off, lease_bytes = ucast n,
     lease_metadata = ex_metadata, lease_released = False\<rparr>"

definition ex_stage :: "u64 \<Rightarrow> u32 \<Rightarrow> u32 \<Rightarrow> StageLease status_or" where
  "ex_stage off n i = Inr (ex_lease off n)"

definition ex_staging :: StagingWindow where
  "ex_staging = \<lparr>chunk_size = 4, max_window_segments = 2, remaining_bytes = 10, current_offset = 100, next_window_seq = 0\<rparr>"

theorem staged_window_exact_witness:
  "case stage_next ex_stage two_credits ex_staging of
     (l', w', Inl e) \<Rightarrow> False
   | (l', w', Inr win) \<Rightarrow> map seg_span (window_segments win) = [(100, 4), (104, 4)] \<and> plan_of w' = [(108, 2)] \<and>
       outstanding l' = 2 \<and> more_segments win"
proof -
  have plan: "plan_of ex_staging = [(100, 4), (104, 4), (108, 2)]" by (simp add: plan_of_def ex_staging_def chunk_plan.simps)
  have ok: "staging_ok ex_staging" by (simp add: staging_ok_def ex_staging_def)
  have leases: "credit_leases ex_stage" by (auto simp: credit_leases_def ex_stage_def ex_lease_def)
  have credit: "0 \<le> outstanding two_credits" "outstanding two_credits \<le> total_credit two_credits"
    by (simp_all add: two_credits_def)
  have k: "case stage_next ex_stage two_credits ex_staging of (l', w', r) \<Rightarrow>
      (case r of Inl e \<Rightarrow> False | Inr win \<Rightarrow> length (window_segments win) = 2)" by code_simp
  obtain l' w' r where run: "stage_next ex_stage two_credits ex_staging = (l', w', r)" by (metis prod_cases3)
  from k run obtain win where win: "r = Inr win" "length (window_segments win) = 2" by (cases r) auto
  from staged_window_exact [OF ok _ leases credit] plan have
    "case stage_next ex_stage two_credits ex_staging of (l', w', r) \<Rightarrow>
      (case r of Inl e \<Rightarrow> True | Inr win \<Rightarrow>
        (let segs = window_segments win; k = length segs in
         map seg_span segs = take k (plan_of ex_staging) \<and> plan_of w' = drop k (plan_of ex_staging) \<and>
         outstanding l' = outstanding two_credits + int k \<and> (more_segments win \<longleftrightarrow> plan_of w' \<noteq> [])))"
    by (auto split: prod.splits sum.splits simp: Let_def)
  with win show ?thesis unfolding run plan by (simp add: Let_def two_credits_def)
qed

section \<open>Where the window loses its place\<close>

text \<open>
  A hard failure of the staging function gives the segments staged before it back, but the
  offset of the request stays behind them: a second call would skip their bytes.
\<close>

definition failing_stage :: "u64 \<Rightarrow> u32 \<Rightarrow> u32 \<Rightarrow> StageLease status_or" where
  "failing_stage off n i = (if i = 0 then Inr (ex_lease off n) else Inl (Err Internal ''registration failed''))"

lemma failed_stage_skips_bytes:
  "(case stage_next failing_stage two_credits ex_staging of (l', w', r) \<Rightarrow>
      (outstanding l', current_offset w', remaining_bytes w', is_ok r)) = (0, 104, 6, False)"
  by code_simp

text \<open>A chunk size of \<open>2^32\<close> is cut to 0 bytes: the window has a segment and nothing is staged.\<close>

lemma large_chunk_stages_nothing:
  "(case stage_next ex_stage two_credits (ex_staging\<lparr>chunk_size := 2 ^ 32, remaining_bytes := 2 ^ 32\<rparr>) of
      (l', w', Inl e) \<Rightarrow> None
    | (l', w', Inr win) \<Rightarrow> Some (map seg_bytes (window_segments win), remaining_bytes w')) = Some ([0], 2 ^ 32)"
  by code_simp

text \<open>Without a window cap a request for more segments than the ledger has is refused, although fewer could be granted.\<close>

lemma uncapped_window_refused:
  "(case stage_next ex_stage two_credits (ex_staging\<lparr>max_window_segments := 0\<rparr>) of (l', w', r) \<Rightarrow> r) =
     Inl (Err InvalidArgument ''requested_segments exceeds ledger capacity'')"
  by code_simp

text \<open>The registry gives back what was put under a key, once.\<close>

lemma registry_put_take:
  "registry_take k (registry_put k s now r) = (r', res) \<Longrightarrow>
     res = Inr s \<and> registry_take k r' = (r', Inl (Err NotFound ''StageLease not found''))"
  by (auto simp: registry_take_def registry_put_def update_conv' delete_conv')

end
