(* ===== verification/Ipc_Regions.thy ===== *)
theory Ipc_Regions
  imports TC_Prelude
begin

text \<open>
  The registry of memory regions that client processes share with the daemon
  (\<open>daemon/state/ipc_region_registry.{h,cc}\<close>): CUDA IPC regions and shared host memory,
  counted by the users of each region, with a time to live and a removal in two phases.

  Times and durations are integers in nanoseconds; \<open>None\<close> is \<open>absl::InfiniteFuture()\<close>.
  An address is a natural number, 0 the null pointer. The hash map of regions is an
  association list whose order is the iteration order; the reference counts are natural numbers
  (they would need \<open>2 ^ 64\<close> users at once to wrap). Clock readings, random draws and the
  results of the system calls are arguments.
\<close>

unbundle bit_operations_syntax

section \<open>Data\<close>

datatype MemoryKind = KVram | KHostShared

datatype HostRegionClass = ClassNone | ClassScratch | ClassAllocator

record RegionOptions =
  region_capacity :: nat
  max_ttl :: int

record RegisterParams =
  par_memory_kind :: MemoryKind
  par_device_id :: int
  par_owner_pid :: int
  par_size_bytes :: u64
  par_ttl_ms :: u32
  par_session_id :: string
  par_region_name :: string
  par_daemon_managed :: bool
  par_host_region_class :: HostRegionClass
  par_attachment_bytes :: string
  par_handle_bytes :: string

record RegionDescriptor =
  region_id :: string
  memory_kind :: MemoryKind
  device_id :: int
  owner_pid :: int
  size_bytes :: u64
  ttl_ms :: u32
  session_id :: string
  region_name :: string
  daemon_managed :: bool
  host_region_class :: HostRegionClass
  attach_token :: string
  expires_at :: "int option"
  poisoned :: bool

record HostSharedAttachment =
  att_region :: RegionDescriptor
  att_token :: string
  att_fd :: int
  att_offset_bytes :: u64
  att_size_bytes :: u64

record HostSharedLocalMapping =
  map_region :: RegionDescriptor
  map_base_ptr :: nat
  map_size_bytes :: u64

record HostSharedSlab =
  slab_fd :: int
  slab_base :: nat
  slab_size :: u64

record RegionRecord =
  desc :: RegionDescriptor
  attachment_bytes :: string
  refcount :: nat
  host_shared_attachment_refcount :: nat
  inserted_at :: int
  rec_poisoned :: bool
  retiring :: bool
  daemon_host_shared_slab :: "HostSharedSlab option"

text \<open>
  The members of \<open>IpcRegionRegistry\<close>. \<open>open_slabs\<close> is the state of the operating system the
  class owns: the slabs whose descriptor is open and whose memory is mapped.
\<close>

record IpcRegionRegistry =
  region_opts :: RegionOptions
  regions :: "(string \<times> RegionRecord) list"
  attach_tokens :: "string \<rightharpoonup> string"
  open_slabs :: "HostSharedSlab list"

abbreviation new_regions :: "RegionOptions \<Rightarrow> IpcRegionRegistry" where
  "new_regions opts \<equiv>
     \<lparr>region_opts = opts, regions = [], attach_tokens = Map.empty, open_slabs = []\<rparr>"

abbreviation find_region :: "IpcRegionRegistry \<Rightarrow> string \<Rightarrow> RegionRecord option" where
  "find_region reg rid \<equiv> map_of (regions reg) rid"

abbreviation put_region :: "string \<Rightarrow> RegionRecord \<Rightarrow> IpcRegionRegistry \<Rightarrow> IpcRegionRegistry" where
  "put_region rid rec reg \<equiv> reg\<lparr>regions := AList.update rid rec (regions reg)\<rparr>"

section \<open>Shared memory of the host\<close>

text \<open>
  The three system calls of \<open>create_temporary_host_shared_slab\<close> either fail with the status
  made of \<open>errno\<close> or give a descriptor and an address. A failure after the first call closes
  the descriptor again, so only the successful path leaves a slab behind.
\<close>

record SlabCalls =
  memfd_create :: "int status_or"
  ftruncate :: status
  mmap :: "nat status_or"

definition create_temporary_host_shared_slab ::
  "SlabCalls \<Rightarrow> u64 \<Rightarrow> HostSharedSlab status_or" where
  "create_temporary_host_shared_slab os n =
     (if n = 0 then Inl (Err InvalidArgument ''HOST_SHARED slab size must be > 0'')
      else case memfd_create os of
        Inl e \<Rightarrow> Inl e
      | Inr fd \<Rightarrow>
          (case ftruncate os of
             Inl e \<Rightarrow> Inl e
           | Inr _ \<Rightarrow>
               (case mmap os of
                  Inl e \<Rightarrow> Inl e
                | Inr base \<Rightarrow> Inr \<lparr>slab_fd = fd, slab_base = base, slab_size = n\<rparr>)))"

definition cleanup_slab :: "HostSharedSlab option \<Rightarrow> IpcRegionRegistry \<Rightarrow> IpcRegionRegistry" where
  "cleanup_slab slab reg =
     (case slab of None \<Rightarrow> reg | Some sl \<Rightarrow> reg\<lparr>open_slabs := remove1 sl (open_slabs reg)\<rparr>)"

text \<open>The slab that the caller of the system calls now owns.\<close>

definition with_slab :: "HostSharedSlab option \<Rightarrow> IpcRegionRegistry \<Rightarrow> IpcRegionRegistry" where
  "with_slab slab reg =
     (case slab of None \<Rightarrow> reg | Some sl \<Rightarrow> reg\<lparr>open_slabs := sl # open_slabs reg\<rparr>)"

section \<open>Times to live and identifiers\<close>

definition clamp_ttl_ms :: "u32 \<Rightarrow> int \<Rightarrow> u32" where
  "clamp_ttl_ms requested limit =
     (if requested = 0 then 0
      else if limit \<le> 0 then requested
      else let ms = min (uint requested * 1000000) limit div 1000000
        in if ms \<le> 0 then 0 else word_of_int (min ms (2 ^ 32 - 1)))"

text \<open>The assignment of \<open>expires_at\<close> that every operation which takes or drops a user makes.\<close>

definition renewed :: "int \<Rightarrow> RegionDescriptor \<Rightarrow> RegionDescriptor" where
  "renewed now d =
     d\<lparr>expires_at := (if ttl_ms d = 0 then None else Some (now + uint (ttl_ms d) * 1000000))\<rparr>"

definition hex_digit :: "nat \<Rightarrow> char" where
  "hex_digit n = ''0123456789abcdef'' ! n"

definition hex16 :: "u64 \<Rightarrow> string" where
  "hex16 w = map (\<lambda>i. hex_digit (unat (drop_bit (4 * i) w AND 15))) (rev [0..<16])"

text \<open>
  The loop of the two mint functions: it draws until an identifier is not in use. \<open>None\<close>
  is a loop that has used up the draws it was given.
\<close>

fun mint :: "(string \<Rightarrow> bool) \<Rightarrow> string \<Rightarrow> (u64 \<times> u64) list \<Rightarrow> string option" where
  "mint in_use prefix [] = None"
| "mint in_use prefix ((hi, lo) # draws) =
     (let i = prefix @ hex16 hi @ hex16 lo
      in if in_use i then mint in_use prefix draws else Some i)"

abbreviation mint_region_id :: "IpcRegionRegistry \<Rightarrow> (u64 \<times> u64) list \<Rightarrow> string option" where
  "mint_region_id reg \<equiv> mint (\<lambda>i. find_region reg i \<noteq> None) ''region:''"

abbreviation mint_attach_token :: "IpcRegionRegistry \<Rightarrow> (u64 \<times> u64) list \<Rightarrow> string option" where
  "mint_attach_token reg \<equiv> mint (\<lambda>i. attach_tokens reg i \<noteq> None) ''region-attach:''"

section \<open>Registration\<close>

abbreviation params_attachment :: "RegisterParams \<Rightarrow> string" where
  "params_attachment p \<equiv>
     (if par_attachment_bytes p = [] then par_handle_bytes p else par_attachment_bytes p)"

text \<open>The part of \<open>register_region\<close> before the lock: checks, and the slab of a managed region.\<close>

definition check_params :: "SlabCalls \<Rightarrow> RegisterParams \<Rightarrow> HostSharedSlab option status_or" where
  "check_params os p =
     (if par_owner_pid p \<le> 0 then Inl (Err InvalidArgument ''owner_pid must be > 0'')
      else if par_size_bytes p = 0 then Inl (Err InvalidArgument ''size_bytes must be > 0'')
      else case par_memory_kind p of
        KVram \<Rightarrow>
          (if par_device_id p < 0 then Inl (Err InvalidArgument ''device_id must be >= 0'')
           else if params_attachment p = []
           then Inl (Err InvalidArgument ''cuda_ipc_handle must not be empty'')
           else Inr None)
      | KHostShared \<Rightarrow>
          (if par_device_id p \<noteq> - 1
           then Inl (Err InvalidArgument ''HOST_SHARED regions must use device_id=-1'')
           else if par_daemon_managed p then
             (if params_attachment p \<noteq> []
              then Inl (Err InvalidArgument
                ''daemon-managed HOST_SHARED regions must not provide attachment metadata'')
              else map_sum id Some (create_temporary_host_shared_slab os (par_size_bytes p)))
           else if params_attachment p = []
           then Inl (Err InvalidArgument
             ''HOST_SHARED regions require attachment metadata unless daemon_managed=true'')
           else Inr None))"

definition new_descriptor ::
  "string \<Rightarrow> string \<Rightarrow> u32 \<Rightarrow> int option \<Rightarrow> RegisterParams \<Rightarrow> RegionDescriptor" where
  "new_descriptor rid token ttl expiry p =
     \<lparr>region_id = rid, memory_kind = par_memory_kind p, device_id = par_device_id p,
      owner_pid = par_owner_pid p, size_bytes = par_size_bytes p, ttl_ms = ttl,
      session_id = par_session_id p, region_name = par_region_name p,
      daemon_managed = par_daemon_managed p, host_region_class = par_host_region_class p,
      attach_token = token, expires_at = expiry, poisoned = False\<rparr>"

definition new_record ::
  "RegionDescriptor \<Rightarrow> string \<Rightarrow> int \<Rightarrow> HostSharedSlab option \<Rightarrow> RegionRecord" where
  "new_record d att now slab =
     \<lparr>desc = d, attachment_bytes = att, refcount = 0, host_shared_attachment_refcount = 0,
      inserted_at = now, rec_poisoned = False, retiring = False,
      daemon_host_shared_slab = slab\<rparr>"

text \<open>\<open>regions_.emplace\<close> and the entry in the table of tokens.\<close>

definition store_region ::
  "RegionRecord \<Rightarrow> IpcRegionRegistry \<Rightarrow> RegionDescriptor status_or \<times> IpcRegionRegistry" where
  "store_region rec reg =
     (let d = desc rec; rid = region_id d
      in if find_region reg rid \<noteq> None then (Inl (Err Internal ''failed to store region''), reg)
         else
           (let reg1 = put_region rid rec reg
            in (Inr d,
                if memory_kind d = KHostShared \<and> attach_token d \<noteq> []
                then reg1\<lparr>attach_tokens := (attach_tokens reg1)(attach_token d \<mapsto> rid)\<rparr>
                else reg1)))"

abbreviation is_managed :: "RegisterParams \<Rightarrow> bool" where
  "is_managed p \<equiv> par_memory_kind p = KHostShared \<and> par_daemon_managed p"

text \<open>
  The part under the lock. \<open>t1\<close> and \<open>t2\<close> are its two readings of the clock, \<open>ids\<close> and
  \<open>toks\<close> the random draws of the two mint functions.
\<close>

definition register_locked ::
  "int \<Rightarrow> int \<Rightarrow> (u64 \<times> u64) list \<Rightarrow> (u64 \<times> u64) list \<Rightarrow> RegisterParams \<Rightarrow>
   HostSharedSlab option \<Rightarrow> IpcRegionRegistry \<Rightarrow>
   (RegionDescriptor status_or \<times> IpcRegionRegistry) option" where
  "register_locked t1 t2 ids toks p slab reg =
     (if region_capacity (region_opts reg) \<le> length (regions reg)
      then Some (Inl (Err ResourceExhausted ''region registry capacity reached''),
                 cleanup_slab slab reg)
      else case mint_region_id reg ids of
        None \<Rightarrow> None
      | Some rid \<Rightarrow>
          (let ttl = clamp_ttl_ms (par_ttl_ms p) (max_ttl (region_opts reg));
               expiry = (if par_ttl_ms p = 0 then None else Some (t1 + uint ttl * 1000000))
           in if par_ttl_ms p \<noteq> 0 \<and> ttl = 0
              then Some (Inl (Err InvalidArgument ''effective ttl_ms underflowed''),
                         cleanup_slab slab reg)
              else if is_managed p then
                (case mint_attach_token reg toks of
                   None \<Rightarrow> None
                 | Some tok \<Rightarrow>
                     Some (store_region
                       (new_record (new_descriptor rid tok ttl expiry p) tok t2 slab) reg))
              else
                (let att = params_attachment p;
                     tok = (if par_memory_kind p = KHostShared then att else [])
                 in Some (store_region
                      (new_record (new_descriptor rid tok ttl expiry p) att t2 None) reg))))"

definition register_region ::
  "SlabCalls \<Rightarrow> int \<Rightarrow> int \<Rightarrow> (u64 \<times> u64) list \<Rightarrow> (u64 \<times> u64) list \<Rightarrow> RegisterParams \<Rightarrow>
   IpcRegionRegistry \<Rightarrow> (RegionDescriptor status_or \<times> IpcRegionRegistry) option" where
  "register_region os t1 t2 ids toks p reg =
     (case check_params os p of
        Inl e \<Rightarrow> Some (Inl e, reg)
      | Inr slab \<Rightarrow> register_locked t1 t2 ids toks p slab (with_slab slab reg))"

section \<open>Removal\<close>

definition cleanup_region_record :: "RegionRecord \<Rightarrow> IpcRegionRegistry \<Rightarrow> IpcRegionRegistry" where
  "cleanup_region_record rec reg =
     cleanup_slab (daemon_host_shared_slab rec)
       (if attach_token (desc rec) \<noteq> []
        then reg\<lparr>attach_tokens := (attach_tokens reg)(attach_token (desc rec) := None)\<rparr>
        else reg)"

text \<open>
  The second phase of every removal: look the region up again, clean it up and erase it. The
  descriptor is what \<open>sweep_expired\<close> and \<open>handle_pid_exit\<close> report.
\<close>

definition finish_removal ::
  "string \<Rightarrow> IpcRegionRegistry \<Rightarrow> RegionDescriptor option \<times> IpcRegionRegistry" where
  "finish_removal rid reg =
     (case find_region reg rid of
        None \<Rightarrow> (None, reg)
      | Some rec \<Rightarrow>
          (let reg1 = cleanup_region_record rec reg
           in (Some (desc rec), reg1\<lparr>regions := AList.delete rid (regions reg1)\<rparr>)))"

text \<open>
  The first phases mark the regions as retiring and release the lock for the cleanup callback.
\<close>

definition unregister_begin ::
  "string \<Rightarrow> int \<Rightarrow> bool \<Rightarrow> IpcRegionRegistry \<Rightarrow> RegionDescriptor status_or \<times> IpcRegionRegistry" where
  "unregister_begin rid pid force reg =
     (case find_region reg rid of
        None \<Rightarrow> (Inl (Err NotFound ''region_id not found''), reg)
      | Some rec \<Rightarrow>
          if pid \<noteq> owner_pid (desc rec)
          then (Inl (Err PermissionDenied ''owner_pid mismatch''), reg)
          else if \<not> force \<and> refcount rec > 0
          then (Inl (Err FailedPrecondition ''region has active references''), reg)
          else (Inr ((desc rec)\<lparr>poisoned := rec_poisoned rec\<rparr>),
                put_region rid (rec\<lparr>retiring := True\<rparr>) reg))"

text \<open>One record of the loop of \<open>sweep_expired\<close>; \<open>clock\<close> is its reading of the clock.\<close>

definition sweep_record :: "int \<Rightarrow> int \<Rightarrow> RegionRecord \<Rightarrow> RegionRecord \<times> RegionDescriptor list" where
  "sweep_record clock now rec =
     (if (case expires_at (desc rec) of None \<Rightarrow> True | Some t \<Rightarrow> now < t) then (rec, [])
      else if refcount rec > 0 then (rec\<lparr>desc := renewed clock (desc rec)\<rparr>, [])
      else (rec\<lparr>retiring := True\<rparr>, [(desc rec)\<lparr>poisoned := rec_poisoned rec\<rparr>]))"

definition pid_exit_record :: "int \<Rightarrow> RegionRecord \<Rightarrow> RegionRecord \<times> RegionDescriptor list" where
  "pid_exit_record pid rec =
     (if owner_pid (desc rec) \<noteq> pid then (rec, [])
      else (rec\<lparr>retiring := True\<rparr>, [(desc rec)\<lparr>poisoned := rec_poisoned rec\<rparr>]))"

definition mark_records ::
  "(RegionRecord \<Rightarrow> RegionRecord \<times> RegionDescriptor list) \<Rightarrow> IpcRegionRegistry \<Rightarrow>
   RegionDescriptor list \<times> IpcRegionRegistry" where
  "mark_records f reg =
     (concat (map (\<lambda>(rid, rec). snd (f rec)) (regions reg)),
      reg\<lparr>regions := map (\<lambda>(rid, rec). (rid, fst (f rec))) (regions reg)\<rparr>)"

abbreviation sweep_begin ::
  "int \<Rightarrow> int \<Rightarrow> IpcRegionRegistry \<Rightarrow> RegionDescriptor list \<times> IpcRegionRegistry" where
  "sweep_begin clock now \<equiv> mark_records (sweep_record clock now)"

definition pid_exit_begin ::
  "int \<Rightarrow> IpcRegionRegistry \<Rightarrow> RegionDescriptor list \<times> IpcRegionRegistry" where
  "pid_exit_begin pid reg = (if pid \<le> 0 then ([], reg) else mark_records (pid_exit_record pid) reg)"

text \<open>
  The operations as one thread runs them. The cleanup callback is code of the caller that runs
  without the lock and may call the registry.
\<close>

definition unregister_region ::
  "(RegionDescriptor \<Rightarrow> IpcRegionRegistry \<Rightarrow> IpcRegionRegistry) \<Rightarrow> string \<Rightarrow> int \<Rightarrow> bool \<Rightarrow>
   IpcRegionRegistry \<Rightarrow> bool status_or \<times> IpcRegionRegistry" where
  "unregister_region callback rid pid force reg =
     (case unregister_begin rid pid force reg of
        (Inl e, reg1) \<Rightarrow> (Inl e, reg1)
      | (Inr d, reg1) \<Rightarrow> (Inr True, snd (finish_removal rid (callback d reg1))))"

fun finish_pending ::
  "(RegionDescriptor \<Rightarrow> IpcRegionRegistry \<Rightarrow> IpcRegionRegistry) \<Rightarrow> RegionDescriptor list \<Rightarrow>
   IpcRegionRegistry \<Rightarrow> RegionDescriptor list \<times> IpcRegionRegistry" where
  "finish_pending callback [] reg = ([], reg)"
| "finish_pending callback (d # ds) reg =
     (let (removed, reg1) = finish_removal (region_id d) (callback d reg);
          (more, reg2) = finish_pending callback ds reg1
      in ((case removed of None \<Rightarrow> more | Some r \<Rightarrow> r # more), reg2))"

definition sweep_expired ::
  "(RegionDescriptor \<Rightarrow> IpcRegionRegistry \<Rightarrow> IpcRegionRegistry) \<Rightarrow> int \<Rightarrow> int \<Rightarrow>
   IpcRegionRegistry \<Rightarrow> RegionDescriptor list \<times> IpcRegionRegistry" where
  "sweep_expired callback clock now reg =
     (let (ds, reg1) = sweep_begin clock now reg in finish_pending callback ds reg1)"

definition handle_pid_exit ::
  "(RegionDescriptor \<Rightarrow> IpcRegionRegistry \<Rightarrow> IpcRegionRegistry) \<Rightarrow> int \<Rightarrow>
   IpcRegionRegistry \<Rightarrow> RegionDescriptor list \<times> IpcRegionRegistry" where
  "handle_pid_exit callback pid reg =
     (let (ds, reg1) = pid_exit_begin pid reg in finish_pending callback ds reg1)"

section \<open>Queries and use\<close>

definition describe :: "IpcRegionRegistry \<Rightarrow> string \<Rightarrow> RegionDescriptor status_or" where
  "describe reg rid =
     (case find_region reg rid of
        None \<Rightarrow> Inl (Err NotFound ''region_id not found'')
      | Some rec \<Rightarrow> Inr ((desc rec)\<lparr>poisoned := rec_poisoned rec\<rparr>))"

definition refresh_ttl :: "int \<Rightarrow> string \<Rightarrow> u32 \<Rightarrow> IpcRegionRegistry \<Rightarrow> bool \<times> IpcRegionRegistry" where
  "refresh_ttl now rid ttl reg =
     (case find_region reg rid of
        None \<Rightarrow> (False, reg)
      | Some rec \<Rightarrow>
          if ttl_ms (desc rec) = 0
          then (True, put_region rid (rec\<lparr>desc := (desc rec)\<lparr>expires_at := None\<rparr>\<rparr>) reg)
          else if ttl = 0 then (False, reg)
          else
            (let eff = clamp_ttl_ms ttl (max_ttl (region_opts reg))
             in if eff = 0 then (False, reg)
                else (True, put_region rid
                  (rec\<lparr>desc := (desc rec)\<lparr>ttl_ms := eff,
                     expires_at := Some (now + uint eff * 1000000)\<rparr>\<rparr>) reg)))"

definition get_attachment_bytes :: "IpcRegionRegistry \<Rightarrow> string \<Rightarrow> string status_or" where
  "get_attachment_bytes reg rid =
     (case find_region reg rid of
        None \<Rightarrow> Inl (Err NotFound ''region_id not found'')
      | Some rec \<Rightarrow> Inr (attachment_bytes rec))"

definition get_handle_bytes :: "IpcRegionRegistry \<Rightarrow> string \<Rightarrow> string status_or" where
  "get_handle_bytes reg rid =
     (case find_region reg rid of
        None \<Rightarrow> Inl (Err NotFound ''region_id not found'')
      | Some rec \<Rightarrow>
          if memory_kind (desc rec) \<noteq> KVram
          then Inl (Err FailedPrecondition ''region is not VRAM-backed'')
          else Inr (attachment_bytes rec))"

text \<open>The update that every successful acquisition makes on the record.\<close>

definition take_reference :: "int \<Rightarrow> RegionRecord \<Rightarrow> RegionRecord" where
  "take_reference now rec =
     rec\<lparr>refcount := refcount rec + 1,
         desc := (renewed now (desc rec))\<lparr>poisoned := rec_poisoned rec\<rparr>\<rparr>"

text \<open>The update of the two release functions; the time to live restarts with the last user.\<close>

definition drop_reference :: "int \<Rightarrow> RegionRecord \<Rightarrow> RegionRecord" where
  "drop_reference now rec =
     (let rec1 = rec\<lparr>refcount := refcount rec - 1\<rparr>
      in if refcount rec1 = 0 then rec1\<lparr>desc := renewed now (desc rec1)\<rparr> else rec1)"

definition acquire_region ::
  "int \<Rightarrow> string \<Rightarrow> int \<Rightarrow> IpcRegionRegistry \<Rightarrow> RegionDescriptor status_or \<times> IpcRegionRegistry" where
  "acquire_region now rid pid reg =
     (case find_region reg rid of
        None \<Rightarrow> (Inl (Err NotFound ''region_id not found''), reg)
      | Some rec \<Rightarrow>
          if rec_poisoned rec then (Inl (Err FailedPrecondition ''region is poisoned''), reg)
          else if retiring rec then (Inl (Err FailedPrecondition ''region is retiring''), reg)
          else if pid \<noteq> 0 \<and> pid \<noteq> owner_pid (desc rec)
          then (Inl (Err PermissionDenied ''owner_pid mismatch''), reg)
          else (Inr (desc (take_reference now rec)), put_region rid (take_reference now rec) reg))"

definition release_region ::
  "int \<Rightarrow> string \<Rightarrow> IpcRegionRegistry \<Rightarrow> status \<times> IpcRegionRegistry" where
  "release_region now rid reg =
     (case find_region reg rid of
        None \<Rightarrow> (Inl (Err NotFound ''region_id not found''), reg)
      | Some rec \<Rightarrow>
          if refcount rec = 0
          then (Inl (Err FailedPrecondition ''region refcount underflow''), reg)
          else (ok_status, put_region rid (drop_reference now rec) reg))"

definition mark_poisoned :: "string \<Rightarrow> IpcRegionRegistry \<Rightarrow> status \<times> IpcRegionRegistry" where
  "mark_poisoned rid reg =
     (case find_region reg rid of
        None \<Rightarrow> (Inl (Err NotFound ''region_id not found''), reg)
      | Some rec \<Rightarrow>
          (ok_status, put_region rid
            (rec\<lparr>rec_poisoned := True, desc := (desc rec)\<lparr>poisoned := True\<rparr>\<rparr>) reg))"

abbreviation is_poisoned :: "IpcRegionRegistry \<Rightarrow> string \<Rightarrow> bool" where
  "is_poisoned reg rid \<equiv> (case find_region reg rid of None \<Rightarrow> False | Some rec \<Rightarrow> rec_poisoned rec)"

text \<open>The two lookups that the attachment functions start with.\<close>

definition token_region ::
  "IpcRegionRegistry \<Rightarrow> string \<Rightarrow> (string \<times> RegionRecord) status_or" where
  "token_region reg token =
     (case attach_tokens reg token of
        None \<Rightarrow> Inl (Err NotFound ''attach_token not found'')
      | Some rid \<Rightarrow>
          (case find_region reg rid of
             None \<Rightarrow> Inl (Err NotFound ''region_id not found'')
           | Some rec \<Rightarrow>
               if memory_kind (desc rec) \<noteq> KHostShared
               then Inl (Err FailedPrecondition ''attach_token does not reference HOST_SHARED region'')
               else Inr (rid, rec)))"

definition acquire_host_shared_attachment ::
  "int \<Rightarrow> string \<Rightarrow> int \<Rightarrow> IpcRegionRegistry \<Rightarrow> HostSharedAttachment status_or \<times> IpcRegionRegistry" where
  "acquire_host_shared_attachment now token pid reg =
     (case token_region reg token of
        Inl e \<Rightarrow> (Inl e, reg)
      | Inr (rid, rec) \<Rightarrow>
          (case daemon_host_shared_slab rec of
             None \<Rightarrow> (Inl (Err FailedPrecondition ''HOST_SHARED region is not daemon-managed''), reg)
           | Some slab \<Rightarrow>
               if \<not> daemon_managed (desc rec)
               then (Inl (Err FailedPrecondition ''HOST_SHARED region is not daemon-managed''), reg)
               else if rec_poisoned rec then (Inl (Err FailedPrecondition ''region is poisoned''), reg)
               else if retiring rec then (Inl (Err FailedPrecondition ''region is retiring''), reg)
               else if pid \<le> 0 \<or> pid \<noteq> owner_pid (desc rec)
               then (Inl (Err PermissionDenied ''owner_pid mismatch''), reg)
               else
                 (let rec1 = (take_reference now rec)
                        \<lparr>host_shared_attachment_refcount := host_shared_attachment_refcount rec + 1\<rparr>
                  in (Inr \<lparr>att_region = desc rec1, att_token = attach_token (desc rec1),
                           att_fd = slab_fd slab, att_offset_bytes = 0,
                           att_size_bytes = slab_size slab\<rparr>,
                      put_region rid rec1 reg))))"

definition release_host_shared_attachment ::
  "int \<Rightarrow> string \<Rightarrow> int \<Rightarrow> IpcRegionRegistry \<Rightarrow> status \<times> IpcRegionRegistry" where
  "release_host_shared_attachment now token pid reg =
     (case token_region reg token of
        Inl e \<Rightarrow> (Inl e, reg)
      | Inr (rid, rec) \<Rightarrow>
          if pid \<le> 0 \<or> pid \<noteq> owner_pid (desc rec)
          then (Inl (Err PermissionDenied ''owner_pid mismatch''), reg)
          else if host_shared_attachment_refcount rec = 0
          then (Inl (Err FailedPrecondition ''HOST_SHARED attachment was not acquired''), reg)
          else if refcount rec = 0
          then (Inl (Err Internal ''HOST_SHARED attachment bookkeeping is inconsistent''), reg)
          else (ok_status, put_region rid (drop_reference now
                 (rec\<lparr>host_shared_attachment_refcount :=
                        host_shared_attachment_refcount rec - 1\<rparr>)) reg))"

definition acquire_host_shared_local_mapping ::
  "int \<Rightarrow> string \<Rightarrow> int \<Rightarrow> IpcRegionRegistry \<Rightarrow> HostSharedLocalMapping status_or \<times> IpcRegionRegistry" where
  "acquire_host_shared_local_mapping now rid pid reg =
     (case find_region reg rid of
        None \<Rightarrow> (Inl (Err NotFound ''region_id not found''), reg)
      | Some rec \<Rightarrow>
          if rec_poisoned rec then (Inl (Err FailedPrecondition ''region is poisoned''), reg)
          else if retiring rec then (Inl (Err FailedPrecondition ''region is retiring''), reg)
          else if pid \<noteq> 0 \<and> pid \<noteq> owner_pid (desc rec)
          then (Inl (Err PermissionDenied ''owner_pid mismatch''), reg)
          else if memory_kind (desc rec) \<noteq> KHostShared
          then (Inl (Err FailedPrecondition ''region is not HOST_SHARED''), reg)
          else
            (case daemon_host_shared_slab rec of
               None \<Rightarrow> (Inl (Err FailedPrecondition ''HOST_SHARED region is not daemon-managed''), reg)
             | Some slab \<Rightarrow>
                 if \<not> daemon_managed (desc rec) \<or> slab_base slab = 0
                 then (Inl (Err FailedPrecondition ''HOST_SHARED region is not daemon-managed''), reg)
                 else (Inr \<lparr>map_region = desc (take_reference now rec), map_base_ptr = slab_base slab,
                            map_size_bytes = slab_size slab\<rparr>,
                       put_region rid (take_reference now rec) reg)))"

section \<open>Threads on one registry\<close>

text \<open>
  Each step is one critical section of \<open>mu_\<close>. \<open>holds\<close> counts, for each region, the
  successful calls of \<open>acquire\<close> and \<open>acquire_host_shared_local_mapping\<close> that were not
  followed by their \<open>release\<close>; \<open>pending\<close> are the removals between their two phases, with a flag
  that is set for a sweep and for an \<open>unregister_region\<close> without \<open>force\<close>. A caller releases
  only what it acquired, and a random identifier of 128 bits does not repeat one that a
  holder or a pending removal still knows.
\<close>

record RegionWorld =
  registry :: IpcRegionRegistry
  holds :: "string \<Rightarrow> nat"
  pending :: "(string \<times> bool) list"

datatype RegionEvent =
    Register SlabCalls int int "(u64 \<times> u64) list" "(u64 \<times> u64) list" RegisterParams
  | UnregisterBegin string int bool
  | SweepBegin int int
  | PidExitBegin int
  | FinishRemoval string bool
  | AcquireRegion int string int
  | AcquireLocalMapping int string int
  | ReleaseRegion int string
  | AcquireAttachment int string int
  | ReleaseAttachment int string int
  | MarkPoisoned string
  | RefreshTtl int string u32

definition hold :: "string \<Rightarrow> 'a status_or \<Rightarrow> RegionWorld \<Rightarrow> RegionWorld" where
  "hold rid r w = (if is_ok r then w\<lparr>holds := (holds w)(rid := holds w rid + 1)\<rparr> else w)"

definition await_removal :: "bool \<Rightarrow> RegionDescriptor list \<Rightarrow> RegionWorld \<Rightarrow> RegionWorld" where
  "await_removal graceful ds w =
     w\<lparr>pending := pending w @ map (\<lambda>d. (region_id d, graceful)) ds\<rparr>"

fun exec_event :: "RegionEvent \<Rightarrow> RegionWorld \<Rightarrow> RegionWorld option" where
  "exec_event (Register os t1 t2 ids toks p) w =
     (case register_region os t1 t2 ids toks p (registry w) of
        None \<Rightarrow> None
      | Some (Inl _, reg) \<Rightarrow> Some (w\<lparr>registry := reg\<rparr>)
      | Some (Inr d, reg) \<Rightarrow>
          if holds w (region_id d) = 0 \<and> region_id d \<notin> fst ` set (pending w)
          then Some (w\<lparr>registry := reg\<rparr>) else None)"
| "exec_event (UnregisterBegin rid pid force) w =
     (case unregister_begin rid pid force (registry w) of
        (Inl _, reg) \<Rightarrow> Some (w\<lparr>registry := reg\<rparr>)
      | (Inr d, reg) \<Rightarrow> Some (await_removal (\<not> force) [d] (w\<lparr>registry := reg\<rparr>)))"
| "exec_event (SweepBegin clock now) w =
     (let (ds, reg) = sweep_begin clock now (registry w)
      in Some (await_removal True ds (w\<lparr>registry := reg\<rparr>)))"
| "exec_event (PidExitBegin pid) w =
     (let (ds, reg) = pid_exit_begin pid (registry w)
      in Some (await_removal False ds (w\<lparr>registry := reg\<rparr>)))"
| "exec_event (FinishRemoval rid graceful) w =
     (if (rid, graceful) \<in> set (pending w)
      then Some (w\<lparr>registry := snd (finish_removal rid (registry w)),
                   pending := remove1 (rid, graceful) (pending w)\<rparr>)
      else None)"
| "exec_event (AcquireRegion now rid pid) w =
     (let (r, reg) = acquire_region now rid pid (registry w)
      in Some (hold rid r (w\<lparr>registry := reg\<rparr>)))"
| "exec_event (AcquireLocalMapping now rid pid) w =
     (let (r, reg) = acquire_host_shared_local_mapping now rid pid (registry w)
      in Some (hold rid r (w\<lparr>registry := reg\<rparr>)))"
| "exec_event (ReleaseRegion now rid) w =
     (if holds w rid = 0 then None
      else Some (w\<lparr>registry := snd (release_region now rid (registry w)),
                   holds := (holds w)(rid := holds w rid - 1)\<rparr>))"
| "exec_event (AcquireAttachment now token pid) w =
     Some (w\<lparr>registry := snd (acquire_host_shared_attachment now token pid (registry w))\<rparr>)"
| "exec_event (ReleaseAttachment now token pid) w =
     Some (w\<lparr>registry := snd (release_host_shared_attachment now token pid (registry w))\<rparr>)"
| "exec_event (MarkPoisoned rid) w =
     Some (w\<lparr>registry := snd (mark_poisoned rid (registry w))\<rparr>)"
| "exec_event (RefreshTtl now rid ttl) w =
     Some (w\<lparr>registry := snd (refresh_ttl now rid ttl (registry w))\<rparr>)"

inductive reachable_world :: "RegionOptions \<Rightarrow> RegionWorld \<Rightarrow> bool" for opts where
  start: "reachable_world opts
    \<lparr>registry = new_regions opts, holds = (\<lambda>_. 0), pending = []\<rparr>"
| step: "reachable_world opts w \<Longrightarrow> exec_event ev w = Some w' \<Longrightarrow> reachable_world opts w'"

section \<open>The invariant\<close>

definition record_slabs :: "(string \<times> RegionRecord) list \<Rightarrow> HostSharedSlab list" where
  "record_slabs rs =
     concat (map (\<lambda>(rid, rec).
       case daemon_host_shared_slab rec of None \<Rightarrow> [] | Some sl \<Rightarrow> [sl]) rs)"

text \<open>The slab of a record belongs to a managed region of its size.\<close>

definition slab_ok :: "RegionRecord \<Rightarrow> bool" where
  "slab_ok rec =
     (case daemon_host_shared_slab rec of
        None \<Rightarrow> True
      | Some sl \<Rightarrow> memory_kind (desc rec) = KHostShared \<and> daemon_managed (desc rec) \<and>
          slab_size sl = size_bytes (desc rec))"

definition record_ok ::
  "(string \<Rightarrow> nat) \<Rightarrow> (string \<times> bool) list \<Rightarrow> string \<Rightarrow> RegionRecord \<Rightarrow> bool" where
  "record_ok H P rid rec \<longleftrightarrow>
     region_id (desc rec) = rid \<and>
     refcount rec = H rid + host_shared_attachment_refcount rec \<and>
     ((rid, True) \<in> set P \<longrightarrow> retiring rec \<and> refcount rec = 0) \<and>
     slab_ok rec"

definition regions_ok ::
  "(string \<Rightarrow> nat) \<Rightarrow> (string \<times> bool) list \<Rightarrow> IpcRegionRegistry \<Rightarrow> bool" where
  "regions_ok H P reg \<longleftrightarrow>
     distinct (map fst (regions reg)) \<and>
     (\<forall>rid rec. find_region reg rid = Some rec \<longrightarrow> record_ok H P rid rec) \<and>
     mset (open_slabs reg) = mset (record_slabs (regions reg))"

abbreviation world_ok :: "RegionWorld \<Rightarrow> bool" where
  "world_ok w \<equiv> regions_ok (holds w) (pending w) (registry w)"

lemma record_slabs_simps [simp]:
  "record_slabs [] = []"
  "record_slabs ((rid, rec) # rs) =
     (case daemon_host_shared_slab rec of None \<Rightarrow> [] | Some sl \<Rightarrow> [sl]) @ record_slabs rs"
  by (simp_all add: record_slabs_def)

lemma record_slabs_update_new:
  assumes "map_of rs rid = None"
  shows "mset (record_slabs (AList.update rid rec rs)) =
    mset (case daemon_host_shared_slab rec of None \<Rightarrow> [] | Some sl \<Rightarrow> [sl]) + mset (record_slabs rs)"
  using assms by (induction rs) (auto split: option.splits if_splits)

lemma record_slabs_update_same:
  assumes "map_of rs rid = Some rec" "daemon_host_shared_slab rec' = daemon_host_shared_slab rec"
  shows "record_slabs (AList.update rid rec' rs) = record_slabs rs"
  using assms by (induction rs) (auto split: option.splits if_splits)

lemma delete_absent: "rid \<notin> fst ` set rs \<Longrightarrow> AList.delete rid rs = rs"
  by (induction rs) (auto simp: AList.delete_eq)

lemma record_slabs_delete:
  assumes "distinct (map fst rs)" "map_of rs rid = Some rec"
  shows "mset (record_slabs rs) =
    mset (case daemon_host_shared_slab rec of None \<Rightarrow> [] | Some sl \<Rightarrow> [sl]) +
    mset (record_slabs (AList.delete rid rs))"
  using assms by (induction rs) (auto simp: delete_absent split: if_splits)

lemma record_slabs_map:
  assumes "\<And>rec. daemon_host_shared_slab (f rec) = daemon_host_shared_slab rec"
  shows "record_slabs (map (\<lambda>(rid, rec). (rid, f rec)) rs) = record_slabs rs"
  using assms by (induction rs) auto

lemma record_ok_other [simp]:
  "rid \<noteq> r \<Longrightarrow> record_ok (H(r := h)) P rid rec \<longleftrightarrow> record_ok H P rid rec"
  by (simp add: record_ok_def)

text \<open>Replacing a record by one with the same slab that satisfies the invariant.\<close>

lemma regions_ok_put:
  assumes "regions_ok H P reg" "find_region reg rid = Some rec"
    and "daemon_host_shared_slab rec' = daemon_host_shared_slab rec"
    and "record_ok (H(rid := h)) P rid rec'"
  shows "regions_ok (H(rid := h)) P (put_region rid rec' reg)"
  unfolding regions_ok_def
proof (intro conjI allI impI)
  show "distinct (map fst (regions (put_region rid rec' reg)))"
    using assms(1) by (simp add: regions_ok_def distinct_update)
  show "mset (open_slabs (put_region rid rec' reg)) =
      mset (record_slabs (regions (put_region rid rec' reg)))"
    using assms by (simp add: regions_ok_def record_slabs_update_same)
next
  fix r x
  assume "find_region (put_region rid rec' reg) r = Some x"
  with assms show "record_ok (H(rid := h)) P r x"
    by (cases "r = rid") (simp_all add: update_conv regions_ok_def)
qed

lemma regions_ok_put_same:
  assumes "regions_ok H P reg" "find_region reg rid = Some rec"
    and "daemon_host_shared_slab rec' = daemon_host_shared_slab rec"
    and "record_ok H P rid rec'"
  shows "regions_ok H P (put_region rid rec' reg)"
  using regions_ok_put [of H P reg rid rec rec' "H rid"] assms by simp

lemma regions_okD:
  assumes "regions_ok H P reg" "find_region reg rid = Some rec"
  shows "record_ok H P rid rec"
  using assms by (auto simp: regions_ok_def)

section \<open>Every step keeps the invariant\<close>

lemma renewed_keeps [simp]:
  "region_id (renewed now d) = region_id d" "memory_kind (renewed now d) = memory_kind d"
  "daemon_managed (renewed now d) = daemon_managed d" "size_bytes (renewed now d) = size_bytes d"
  "device_id (renewed now d) = device_id d" "owner_pid (renewed now d) = owner_pid d"
  by (simp_all add: renewed_def)

lemma take_reference_keeps [simp]:
  "daemon_host_shared_slab (take_reference now rec) = daemon_host_shared_slab rec"
  "retiring (take_reference now rec) = retiring rec"
  "rec_poisoned (take_reference now rec) = rec_poisoned rec"
  "refcount (take_reference now rec) = refcount rec + 1"
  "host_shared_attachment_refcount (take_reference now rec) = host_shared_attachment_refcount rec"
  "slab_ok (take_reference now rec) = slab_ok rec"
  "region_id (desc (take_reference now rec)) = region_id (desc rec)"
  "memory_kind (desc (take_reference now rec)) = memory_kind (desc rec)"
  "daemon_managed (desc (take_reference now rec)) = daemon_managed (desc rec)"
  "size_bytes (desc (take_reference now rec)) = size_bytes (desc rec)"
  "device_id (desc (take_reference now rec)) = device_id (desc rec)"
  by (simp_all add: take_reference_def slab_ok_def split: option.splits)

lemma drop_reference_keeps [simp]:
  "daemon_host_shared_slab (drop_reference now rec) = daemon_host_shared_slab rec"
  "retiring (drop_reference now rec) = retiring rec"
  "rec_poisoned (drop_reference now rec) = rec_poisoned rec"
  "refcount (drop_reference now rec) = refcount rec - 1"
  "host_shared_attachment_refcount (drop_reference now rec) = host_shared_attachment_refcount rec"
  "slab_ok (drop_reference now rec) = slab_ok rec"
  "region_id (desc (drop_reference now rec)) = region_id (desc rec)"
  "memory_kind (desc (drop_reference now rec)) = memory_kind (desc rec)"
  "daemon_managed (desc (drop_reference now rec)) = daemon_managed (desc rec)"
  "size_bytes (desc (drop_reference now rec)) = size_bytes (desc rec)"
  by (simp_all add: drop_reference_def Let_def slab_ok_def split: option.splits)

lemma slab_ok_update [simp]:
  "slab_ok (rec\<lparr>retiring := b\<rparr>) = slab_ok rec"
  "slab_ok (rec\<lparr>host_shared_attachment_refcount := n\<rparr>) = slab_ok rec"
  "slab_ok (rec\<lparr>rec_poisoned := b, desc := (desc rec)\<lparr>poisoned := b\<rparr>\<rparr>) = slab_ok rec"
  "slab_ok (rec\<lparr>desc := (desc rec)\<lparr>expires_at := e\<rparr>\<rparr>) = slab_ok rec"
  "slab_ok (rec\<lparr>desc := (desc rec)\<lparr>ttl_ms := t, expires_at := e\<rparr>\<rparr>) = slab_ok rec"
  "slab_ok (rec\<lparr>desc := renewed now (desc rec)\<rparr>) = slab_ok rec"
  by (simp_all add: slab_ok_def split: option.splits)

text \<open>A retiring region takes no new user, so a pending removal keeps its region unused.\<close>

lemma taken_ok:
  assumes "regions_ok H P reg" "find_region reg rid = Some rec" "\<not> retiring rec"
  shows "regions_ok (H(rid := H rid + 1)) P (put_region rid (take_reference now rec) reg)"
proof (rule regions_ok_put [OF assms(1,2)])
  from regions_okD [OF assms(1,2)] assms(3)
  show "record_ok (H(rid := H rid + 1)) P rid (take_reference now rec)"
    by (auto simp: record_ok_def)
qed simp

lemma acquire_region_ok:
  assumes "world_ok w" "acquire_region now rid pid (registry w) = (r, reg)"
  shows "world_ok (hold rid r (w\<lparr>registry := reg\<rparr>))"
  using assms taken_ok [OF assms(1)]
  by (auto simp: acquire_region_def hold_def split: option.splits if_splits)

lemma acquire_local_mapping_ok:
  assumes "world_ok w" "acquire_host_shared_local_mapping now rid pid (registry w) = (r, reg)"
  shows "world_ok (hold rid r (w\<lparr>registry := reg\<rparr>))"
  using assms taken_ok [OF assms(1)]
  by (auto simp: acquire_host_shared_local_mapping_def hold_def split: option.splits if_splits)

lemma release_region_ok:
  assumes "regions_ok H P reg" "0 < H rid"
  shows "regions_ok (H(rid := H rid - 1)) P (snd (release_region now rid reg))"
proof (cases "find_region reg rid")
  case None
  then have "r \<noteq> rid" if "find_region reg r = Some x" for r x using that by auto
  with assms(1) None show ?thesis
    by (simp add: release_region_def regions_ok_def del: map_of_eq_None_iff)
next
  case (Some rec)
  from regions_okD [OF assms(1) Some] assms(2)
  have "record_ok (H(rid := H rid - 1)) P rid (drop_reference now rec)" "refcount rec \<noteq> 0"
    by (auto simp: record_ok_def)
  with regions_ok_put [OF assms(1) Some, of "drop_reference now rec" "H rid - 1"] Some
  show ?thesis by (simp add: release_region_def)
qed

lemma acquire_attachment_ok:
  assumes "regions_ok H P reg"
  shows "regions_ok H P (snd (acquire_host_shared_attachment now token pid reg))"
proof -
  have "record_ok H P rid ((take_reference now rec)
      \<lparr>host_shared_attachment_refcount := host_shared_attachment_refcount rec + 1\<rparr>)"
    if "find_region reg rid = Some rec" "\<not> retiring rec" for rid rec
    using regions_okD [OF assms that(1)] that(2) by (auto simp: record_ok_def)
  with assms show ?thesis
    by (auto simp: acquire_host_shared_attachment_def token_region_def Let_def
        intro: regions_ok_put_same split: option.splits sum.splits if_splits)
qed

lemma release_attachment_ok:
  assumes "regions_ok H P reg"
  shows "regions_ok H P (snd (release_host_shared_attachment now token pid reg))"
proof -
  have "record_ok H P rid (drop_reference now
      (rec\<lparr>host_shared_attachment_refcount := host_shared_attachment_refcount rec - 1\<rparr>))"
    if "find_region reg rid = Some rec" "host_shared_attachment_refcount rec \<noteq> 0" for rid rec
    using regions_okD [OF assms that(1)] that(2) by (auto simp: record_ok_def)
  with assms show ?thesis
    by (auto simp: release_host_shared_attachment_def token_region_def
        intro: regions_ok_put_same split: option.splits sum.splits if_splits)
qed

lemma mark_poisoned_ok:
  assumes "regions_ok H P reg"
  shows "regions_ok H P (snd (mark_poisoned rid reg))"
proof -
  have "record_ok H P rid (rec\<lparr>rec_poisoned := True, desc := (desc rec)\<lparr>poisoned := True\<rparr>\<rparr>)"
    if "find_region reg rid = Some rec" for rec
    using regions_okD [OF assms that] by (auto simp: record_ok_def)
  with assms show ?thesis
    by (auto simp: mark_poisoned_def intro: regions_ok_put_same split: option.splits)
qed

lemma refresh_ttl_ok:
  assumes "regions_ok H P reg"
  shows "regions_ok H P (snd (refresh_ttl now rid ttl reg))"
proof -
  have "record_ok H P rid (rec\<lparr>desc := (desc rec)\<lparr>expires_at := e\<rparr>\<rparr>)"
    "record_ok H P rid (rec\<lparr>desc := (desc rec)\<lparr>ttl_ms := t, expires_at := e\<rparr>\<rparr>)"
    if "find_region reg rid = Some rec" for rec e t
    using regions_okD [OF assms that] by (auto simp: record_ok_def)
  with assms show ?thesis
    by (auto simp: refresh_ttl_def Let_def intro: regions_ok_put_same split: option.splits)
qed

text \<open>A first phase marks records and names some of them; a graceful one names only unused ones.\<close>

lemma find_region_map:
  "map_of (map (\<lambda>(rid, rec). (rid, f rec)) rs) rid = map_option f (map_of rs rid)"
  by (induction rs) auto

lemma mark_records_ok:
  assumes inv: "regions_ok H P reg"
    and keeps: "\<And>rec. daemon_host_shared_slab (fst (f rec)) = daemon_host_shared_slab rec \<and>
      region_id (desc (fst (f rec))) = region_id (desc rec) \<and> refcount (fst (f rec)) = refcount rec \<and>
      host_shared_attachment_refcount (fst (f rec)) = host_shared_attachment_refcount rec \<and>
      (retiring rec \<longrightarrow> retiring (fst (f rec))) \<and> slab_ok (fst (f rec)) = slab_ok rec"
    and named: "\<And>rec d. d \<in> set (snd (f rec)) \<Longrightarrow> region_id d = region_id (desc rec) \<and>
      (g \<longrightarrow> refcount rec = 0 \<and> retiring (fst (f rec)))"
    and res: "mark_records f reg = (ds, reg')"
  shows "regions_ok H (P @ map (\<lambda>d. (region_id d, g)) ds) reg'"
  unfolding regions_ok_def
proof (intro conjI allI impI)
  from res have reg': "regions reg' = map (\<lambda>(rid, rec). (rid, fst (f rec))) (regions reg)"
      "open_slabs reg' = open_slabs reg"
    and ds: "ds = concat (map (\<lambda>(rid, rec). snd (f rec)) (regions reg))"
    by (auto simp: mark_records_def)
  have keys: "map fst (regions reg') = map fst (regions reg)" by (auto simp: reg')
  from inv show "distinct (map fst (regions reg'))" by (simp only: keys regions_ok_def)
  from inv keeps show "mset (open_slabs reg') = mset (record_slabs (regions reg'))"
    by (simp add: reg' regions_ok_def record_slabs_map)
  fix rid rec'
  assume "find_region reg' rid = Some rec'"
  then obtain rec where rec: "find_region reg rid = Some rec" "rec' = fst (f rec)"
    by (auto simp: reg' find_region_map)
  have only: "refcount rec = 0 \<and> retiring rec'" if "(rid, True) \<in> (\<lambda>d. (region_id d, g)) ` set ds"
  proof -
    from that obtain d where d: "d \<in> set ds" "region_id d = rid" g by auto
    from d(1) obtain r x where x: "(r, x) \<in> set (regions reg)" "d \<in> set (snd (f x))"
      by (auto simp: ds)
    from inv x(1) have found: "find_region reg r = Some x" by (auto simp: regions_ok_def)
    from named [OF x(2)] d regions_okD [OF inv found] have "r = rid" by (simp add: record_ok_def)
    with found rec named [OF x(2)] d(3) show ?thesis by simp
  qed
  from regions_okD [OF inv rec(1)] keeps [of rec] only rec(2)
  show "record_ok H (P @ map (\<lambda>d. (region_id d, g)) ds) rid rec'"
    unfolding record_ok_def by auto
qed

lemma sweep_begin_ok:
  assumes "world_ok w" "sweep_begin clock now (registry w) = (ds, reg)"
  shows "world_ok (await_removal True ds (w\<lparr>registry := reg\<rparr>))"
proof -
  have "regions_ok (holds w) (pending w @ map (\<lambda>d. (region_id d, True)) ds) reg"
    by (rule mark_records_ok [OF assms(1) _ _ assms(2)])
      (auto simp: sweep_record_def split: option.splits if_splits)
  then show ?thesis by (simp add: await_removal_def)
qed

lemma pid_exit_begin_ok:
  assumes "world_ok w" "pid_exit_begin pid (registry w) = (ds, reg)"
  shows "world_ok (await_removal False ds (w\<lparr>registry := reg\<rparr>))"
proof (cases "pid \<le> 0")
  case True
  with assms show ?thesis by (auto simp: pid_exit_begin_def await_removal_def)
next
  case False
  with assms(2) have mark: "mark_records (pid_exit_record pid) (registry w) = (ds, reg)"
    by (simp add: pid_exit_begin_def)
  have "regions_ok (holds w) (pending w @ map (\<lambda>d. (region_id d, False)) ds) reg"
    by (rule mark_records_ok [OF assms(1) _ _ mark])
      (auto simp: pid_exit_record_def split: if_splits)
  then show ?thesis by (simp add: await_removal_def)
qed

lemma regions_ok_pending:
  assumes "regions_ok H P reg"
    and "\<And>rid rec. find_region reg rid = Some rec \<Longrightarrow> (rid, True) \<in> set P' \<Longrightarrow>
      (rid, True) \<in> set P \<or> retiring rec \<and> refcount rec = 0"
  shows "regions_ok H P' reg"
  unfolding regions_ok_def
proof (intro conjI allI impI)
  fix rid rec
  assume "find_region reg rid = Some rec"
  from regions_okD [OF assms(1) this] assms(2) [OF this] show "record_ok H P' rid rec"
    by (auto simp: record_ok_def)
qed (use assms(1) in \<open>simp_all add: regions_ok_def\<close>)

lemma unregister_begin_ok:
  assumes "world_ok w" "unregister_begin rid pid force (registry w) = (Inr d, reg)"
  shows "world_ok (await_removal (\<not> force) [d] (w\<lparr>registry := reg\<rparr>))"
proof -
  from assms(2) obtain rec where rec: "find_region (registry w) rid = Some rec"
    and d: "d = (desc rec)\<lparr>poisoned := rec_poisoned rec\<rparr>" and unused: "\<not> force \<longrightarrow> refcount rec = 0"
    and reg: "reg = put_region rid (rec\<lparr>retiring := True\<rparr>) (registry w)"
    by (auto simp: unregister_begin_def split: option.splits if_splits)
  from regions_okD [OF assms(1) rec]
  have ok: "record_ok (holds w) (pending w) rid (rec\<lparr>retiring := True\<rparr>)" "region_id d = rid"
    by (auto simp: record_ok_def d)
  have "regions_ok (holds w) (pending w) reg"
    unfolding reg by (rule regions_ok_put_same [OF assms(1) rec _ ok(1)]) simp
  then have "regions_ok (holds w) (pending w @ [(rid, \<not> force)]) reg"
    by (rule regions_ok_pending) (use unused in \<open>auto simp: reg update_conv split: if_splits\<close>)
  then show ?thesis by (simp add: await_removal_def ok)
qed

lemma finish_removal_ok:
  assumes "regions_ok H P reg"
  shows "regions_ok H P (snd (finish_removal rid reg))"
proof (cases "find_region reg rid")
  case None
  with assms show ?thesis by (simp add: finish_removal_def)
next
  case (Some rec)
  let ?reg = "snd (finish_removal rid reg)"
  have regs: "regions ?reg = AList.delete rid (regions reg)"
    and slabs: "open_slabs ?reg = (case daemon_host_shared_slab rec of None \<Rightarrow> open_slabs reg
      | Some sl \<Rightarrow> remove1 sl (open_slabs reg))"
    using Some
    by (auto simp: finish_removal_def cleanup_region_record_def cleanup_slab_def Let_def
        split: option.splits)
  from assms have dist: "distinct (map fst (regions reg))" by (simp add: regions_ok_def)
  show ?thesis
    unfolding regions_ok_def regs
  proof (intro conjI allI impI)
    show "distinct (map fst (AList.delete rid (regions reg)))" using dist by (rule distinct_delete)
    from assms record_slabs_delete [OF dist Some]
    show "mset (open_slabs ?reg) = mset (record_slabs (AList.delete rid (regions reg)))"
      by (auto simp: regions_ok_def slabs split: option.splits)
    fix r x
    assume "map_of (AList.delete rid (regions reg)) r = Some x"
    with assms show "record_ok H P r x" by (auto simp: delete_conv' regions_ok_def split: if_splits)
  qed
qed

text \<open>Registration.\<close>

lemma mint_fresh: "mint used prefix draws = Some i \<Longrightarrow> \<not> used i"
  by (induction used prefix draws rule: mint.induct) (auto simp: Let_def split: if_splits)

lemma cleanup_with_slab [simp]: "cleanup_slab slab (with_slab slab reg) = reg"
  by (simp add: cleanup_slab_def with_slab_def split: option.splits)

lemma regions_with_slab [simp]:
  "regions (with_slab slab reg) = regions reg" "attach_tokens (with_slab slab reg) = attach_tokens reg"
  "region_opts (with_slab slab reg) = region_opts reg"
  by (simp_all add: with_slab_def split: option.splits)

lemma store_region_ok:
  assumes inv: "regions_ok H P reg" and new: "find_region reg (region_id d) = None"
    and free: "H (region_id d) = 0" "(region_id d, True) \<notin> set P"
    and slab: "slab_ok (new_record d att now slab)"
    and res: "store_region (new_record d att now slab) (with_slab slab reg) = (r, reg')"
  shows "regions_ok H P reg'"
proof -
  let ?rec = "new_record d att now slab"
  have rec: "daemon_host_shared_slab ?rec = slab" "desc ?rec = d" by (simp_all add: new_record_def)
  from res new have regs: "regions reg' = AList.update (region_id d) ?rec (regions reg)"
    and slabs: "open_slabs reg' = open_slabs (with_slab slab reg)"
    by (auto simp: store_region_def rec Let_def split: if_splits)
  from slab free have ok: "record_ok H P (region_id d) ?rec"
    by (simp add: record_ok_def rec) (simp add: new_record_def)
  show ?thesis
    unfolding regions_ok_def regs
  proof (intro conjI allI impI)
    show "distinct (map fst (AList.update (region_id d) ?rec (regions reg)))"
      using inv by (simp add: regions_ok_def distinct_update)
    show "mset (open_slabs reg') = mset (record_slabs (AList.update (region_id d) ?rec (regions reg)))"
      using inv new
      by (auto simp: record_slabs_update_new rec slabs with_slab_def regions_ok_def split: option.splits)
    fix r x
    assume "map_of (AList.update (region_id d) ?rec (regions reg)) r = Some x"
    with inv ok show "record_ok H P r x" by (auto simp: update_conv regions_ok_def split: if_splits)
  qed
qed

lemma check_params_slab:
  assumes "check_params os p = Inr slab"
  shows "case slab of
      None \<Rightarrow> \<not> is_managed p
    | Some sl \<Rightarrow> is_managed p \<and> slab_size sl = par_size_bytes p"
  using assms
  by (auto simp: check_params_def create_temporary_host_shared_slab_def
      split: MemoryKind.splits if_splits sum.splits)

lemma register_locked_cases:
  assumes res: "register_locked t1 t2 ids toks p slab reg1 = Some (r, reg')"
    and slab: "case slab of
        None \<Rightarrow> \<not> is_managed p
      | Some sl \<Rightarrow> is_managed p \<and> slab_size sl = par_size_bytes p"
  shows "(\<exists>e. r = Inl e \<and> reg' = cleanup_slab slab reg1) \<or>
    (\<exists>d att. find_region reg1 (region_id d) = None \<and> slab_ok (new_record d att t2 slab) \<and>
       store_region (new_record d att t2 slab) reg1 = (r, reg'))"
proof -
  have fresh: "find_region reg1 rid = None" if "mint_region_id reg1 ids = Some rid" for rid
    using mint_fresh [OF that] by simp
  have ok: "slab_ok (new_record (new_descriptor rid tok ttl expiry p) att t2 slab)"
    for rid tok ttl expiry att
    using slab
    by (auto simp: slab_ok_def new_record_def new_descriptor_def split: option.splits)
  have rid: "region_id (new_descriptor rid tok ttl expiry p) = rid" for rid tok ttl expiry
    by (simp add: new_descriptor_def)
  have none: "\<not> is_managed p \<Longrightarrow> slab = None" using slab by (auto split: option.splits)
  from res none have "(\<exists>e. r = Inl e \<and> reg' = cleanup_slab slab reg1) \<or>
      (\<exists>rid tok ttl expiry att. mint_region_id reg1 ids = Some rid \<and>
        store_region (new_record (new_descriptor rid tok ttl expiry p) att t2 slab) reg1 = (r, reg'))"
    unfolding register_locked_def Let_def by (simp split: if_splits option.splits) blast+
  with fresh ok rid show ?thesis by metis
qed

lemma register_region_ok:
  assumes inv: "regions_ok H P reg"
    and res: "register_region os t1 t2 ids toks p reg = Some (r, reg')"
    and free: "\<And>d. r = Inr d \<Longrightarrow> H (region_id d) = 0 \<and> (region_id d, True) \<notin> set P"
  shows "regions_ok H P reg'"
proof (cases "check_params os p")
  case (Inl e)
  with res inv show ?thesis by (simp add: register_region_def)
next
  case (Inr slab)
  with res have locked: "register_locked t1 t2 ids toks p slab (with_slab slab reg) = Some (r, reg')"
    by (simp add: register_region_def)
  from register_locked_cases [OF locked check_params_slab [OF Inr]] show ?thesis
  proof (elim disjE exE conjE)
    fix d att
    assume d: "find_region (with_slab slab reg) (region_id d) = None"
      and ok: "slab_ok (new_record d att t2 slab)"
      and st: "store_region (new_record d att t2 slab) (with_slab slab reg) = (r, reg')"
    from st d have "r = Inr d" by (auto simp: store_region_def new_record_def Let_def split: if_splits)
    from free [OF this] d ok st show ?thesis by (intro store_region_ok [OF inv]) simp_all
  qed (use inv in simp)
qed

lemma exec_event_ok:
  assumes "world_ok w" "exec_event ev w = Some w'"
  shows "world_ok w'"
proof (cases ev)
  case (Register os t1 t2 ids toks p)
  with assms obtain r reg where res: "register_region os t1 t2 ids toks p (registry w) = Some (r, reg)"
    and w': "w' = w\<lparr>registry := reg\<rparr>"
    and "\<And>d. r = Inr d \<Longrightarrow> holds w (region_id d) = 0 \<and> (region_id d, True) \<notin> set (pending w)"
    by (force split: option.splits prod.splits sum.splits if_splits)
  with register_region_ok [OF assms(1) res] show ?thesis by simp
next
  case (UnregisterBegin rid pid force)
  obtain r reg where res: "unregister_begin rid pid force (registry w) = (r, reg)" by fastforce
  show ?thesis
  proof (cases r)
    case (Inl e)
    with res have "reg = registry w" by (auto simp: unregister_begin_def split: option.splits if_splits)
    with Inl res assms UnregisterBegin show ?thesis by auto
  next
    case (Inr d)
    with res assms UnregisterBegin unregister_begin_ok [OF assms(1)] show ?thesis by auto
  qed
next
  case (FinishRemoval rid g)
  with assms have "w' = w\<lparr>registry := snd (finish_removal rid (registry w)),
      pending := remove1 (rid, g) (pending w)\<rparr>"
    by (simp split: if_splits)
  moreover have "regions_ok (holds w) (remove1 (rid, g) (pending w)) (snd (finish_removal rid (registry w)))"
    by (rule regions_ok_pending [OF finish_removal_ok [OF assms(1)]]) (auto dest: notin_set_remove1)
  ultimately show ?thesis by simp
qed (use assms in \<open>auto simp: sweep_begin_ok pid_exit_begin_ok acquire_region_ok acquire_local_mapping_ok
      release_region_ok [simplified] acquire_attachment_ok release_attachment_ok mark_poisoned_ok refresh_ttl_ok
      split: prod.splits if_splits\<close>)

lemma reachable_world_ok: "reachable_world opts w \<Longrightarrow> world_ok w"
proof (induction rule: reachable_world.induct)
  case start
  show ?case by (simp add: regions_ok_def)
next
  case (step w ev w')
  then show ?case by (blast intro: exec_event_ok)
qed

text \<open>Identifiers repeat only when the draws do.\<close>

lemma hex_digit_inj:
  assumes "a < 16" "b < 16" "hex_digit a = hex_digit b"
  shows "a = b"
proof -
  have "distinct ''0123456789abcdef''" "length ''0123456789abcdef'' = 16" by simp_all
  with assms show ?thesis unfolding hex_digit_def by (simp only: nth_eq_iff_index_eq)
qed

lemma hex16_inj:
  assumes "hex16 a = hex16 b"
  shows "a = b"
proof (rule bit_word_eqI)
  fix n
  assume "n < LENGTH(64)"
  then have n: "n div 4 < 16" by simp
  have low: "unat (drop_bit k w AND 15 :: u64) < 16" for k w
  proof -
    have "drop_bit k w AND 15 \<le> (15 :: u64)" by (rule word_and_le1)
    then show ?thesis by (simp add: word_le_nat_alt)
  qed
  from assms n have "hex_digit (unat (drop_bit (4 * (n div 4)) a AND 15)) =
      hex_digit (unat (drop_bit (4 * (n div 4)) b AND 15))"
    by (auto simp: hex16_def)
  from hex_digit_inj [OF low low this]
  have "drop_bit (4 * (n div 4)) a AND 15 = drop_bit (4 * (n div 4)) b AND 15" by simp
  then have "bit (drop_bit (4 * (n div 4)) a AND mask 4) (n mod 4) =
      bit (drop_bit (4 * (n div 4)) b AND mask 4) (n mod 4)"
    by (simp add: mask_eq_exp_minus_1)
  moreover have "n mod 4 < 64" by (rule less_trans [of _ 4]) simp_all
  ultimately show "bit a n = bit b n" by (simp add: bit_simps)
qed

lemma length_hex16 [simp]: "length (hex16 w) = 16"
  by (simp add: hex16_def)

lemma minted_ids_distinct:
  "prefix @ hex16 a @ hex16 b = prefix @ hex16 c @ hex16 d \<Longrightarrow> a = c \<and> b = d"
  by (auto dest: hex16_inj)

text \<open>The slab of a registered region is open.\<close>

lemma reachable_world_slab:
  assumes "reachable_world opts w" "find_region (registry w) rid = Some rec"
  shows "case daemon_host_shared_slab rec of
      None \<Rightarrow> True
    | Some sl \<Rightarrow> sl \<in> set (open_slabs (registry w)) \<and> slab_size sl = size_bytes (desc rec) \<and>
        memory_kind (desc rec) = KHostShared"
proof -
  have inv: "world_ok w" by (rule reachable_world_ok [OF assms(1)])
  then have slabs: "mset (open_slabs (registry w)) = mset (record_slabs (regions (registry w)))"
    and dist: "distinct (map fst (regions (registry w)))"
    by (simp_all add: regions_ok_def)
  have "sl \<in># mset (record_slabs (regions (registry w)))"
    if "daemon_host_shared_slab rec = Some sl" for sl
    unfolding record_slabs_delete [OF dist assms(2)] using that by simp
  with mset_eq_setD [OF slabs] regions_okD [OF inv assms(2)] show ?thesis
    by (auto simp: record_ok_def slab_ok_def split: option.splits)
qed

text \<open>
  C38. Region safety. However the critical sections of registrations, acquisitions, releases
  and removals interleave, the reference count of a region is the number of its holders
  plus the number of its attachments; a region that a sweep or an unforced unregistration is about
  to remove is retiring and has neither holders nor attachments; the shared memory of a
  managed region has the size of the region and stays mapped as long as the region is registered; and no
  slab is open that belongs to no region.
\<close>

theorem region_references_exact:
  assumes "reachable_world opts w" "find_region (registry w) rid = Some rec"
  shows "refcount rec = holds w rid + host_shared_attachment_refcount rec \<and>
    ((rid, True) \<in> set (pending w) \<longrightarrow>
       retiring rec \<and> holds w rid = 0 \<and> host_shared_attachment_refcount rec = 0) \<and>
    (\<forall>sl. daemon_host_shared_slab rec = Some sl \<longrightarrow>
       sl \<in> set (open_slabs (registry w)) \<and> slab_size sl = size_bytes (desc rec)) \<and>
    mset (open_slabs (registry w)) = mset (record_slabs (regions (registry w)))"
proof -
  have inv: "world_ok w" by (rule reachable_world_ok [OF assms(1)])
  from regions_okD [OF inv assms(2)] reachable_world_slab [OF assms] show ?thesis
    using inv by (auto simp: record_ok_def regions_ok_def split: option.splits)
qed

fun run_events :: "RegionEvent list \<Rightarrow> RegionWorld \<Rightarrow> RegionWorld option" where
  "run_events [] w = Some w"
| "run_events (ev # evs) w =
     (case exec_event ev w of None \<Rightarrow> None | Some w1 \<Rightarrow> run_events evs w1)"

lemma run_events_reachable:
  "reachable_world opts w \<Longrightarrow> run_events evs w = Some w' \<Longrightarrow> reachable_world opts w'"
  by (induction evs w rule: run_events.induct) (auto intro: reachable_world.step split: option.splits)

text \<open>
  A managed region of 4096 bytes with a time to live of a second, and what a client might
  register beside it.
\<close>

definition demo_opts :: RegionOptions where
  "demo_opts = \<lparr>region_capacity = 4, max_ttl = 600000000000\<rparr>"

definition demo_params :: RegisterParams where
  "demo_params =
     \<lparr>par_memory_kind = KHostShared, par_device_id = - 1, par_owner_pid = 7, par_size_bytes = 4096,
      par_ttl_ms = 1000, par_session_id = [], par_region_name = [], par_daemon_managed = True,
      par_host_region_class = ClassScratch, par_attachment_bytes = [], par_handle_bytes = []\<rparr>"

definition demo_os :: SlabCalls where
  "demo_os = \<lparr>memfd_create = Inr 3, ftruncate = ok_status, mmap = Inr 16\<rparr>"

definition demo_start :: RegionWorld where
  "demo_start = \<lparr>registry = new_regions demo_opts, holds = (\<lambda>_. 0), pending = []\<rparr>"

definition demo_id :: string where
  "demo_id = ''region:00000000000000010000000000000002''"

definition demo_token :: string where
  "demo_token = ''region-attach:00000000000000030000000000000004''"

definition demo_events :: "RegionEvent list" where
  "demo_events =
     [Register demo_os 0 0 [(1, 2)] [(3, 4)] demo_params, AcquireLocalMapping 5 demo_id 0,
      SweepBegin 2000000000 2000000000, ReleaseRegion 2500000000 demo_id,
      SweepBegin 4000000000 4000000000, AcquireRegion 4000000000 demo_id 7]"

definition demo_world :: RegionWorld where
  "demo_world = the (run_events demo_events demo_start)"

lemma demo_start_reachable: "reachable_world demo_opts demo_start"
  unfolding demo_start_def by (rule reachable_world.start)

lemma demo_world_reachable: "reachable_world demo_opts demo_world"
proof -
  have "\<not> Option.is_none (run_events demo_events demo_start)" by code_simp
  then have "run_events demo_events demo_start = Some demo_world"
    by (simp add: Option.is_none_def demo_world_def)
  then show ?thesis by (rule run_events_reachable [OF demo_start_reachable])
qed

theorem region_references_exact_witness:
  "reachable_world demo_opts demo_world \<and> pending demo_world = [(demo_id, True)] \<and>
   (case find_region (registry demo_world) demo_id of
      None \<Rightarrow> False
    | Some rec \<Rightarrow> retiring rec \<and> holds demo_world demo_id = 0 \<and> refcount rec = 0 \<and>
        length (open_slabs (registry demo_world)) = 1)"
proof -
  have p: "pending demo_world = [(demo_id, True)]" and s: "length (open_slabs (registry demo_world)) = 1"
    and f: "find_region (registry demo_world) demo_id \<noteq> None"
    by code_simp+
  from f obtain rec where rec: "find_region (registry demo_world) demo_id = Some rec" by blast
  from region_references_exact [OF demo_world_reachable rec] p s rec demo_world_reachable
  show ?thesis by simp
qed

text \<open>
  The tokens of unmanaged regions are bytes of the client. One that registers the token of a
  managed region takes it over: the owner cannot attach any more, and after the client
  unregisters its region the token is gone.
\<close>

definition hijack_params :: RegisterParams where
  "hijack_params = demo_params\<lparr>par_owner_pid := 9, par_daemon_managed := False,
     par_attachment_bytes := demo_token\<rparr>"

lemma registered_token_taken_over:
  "(case run_events [Register demo_os 0 0 [(1, 2)] [(3, 4)] demo_params,
        Register demo_os 0 0 [(5, 6)] [] hijack_params] demo_start of
      None \<Rightarrow> False
    | Some w \<Rightarrow>
        fst (acquire_host_shared_attachment 0 demo_token 7 (registry w)) =
          Inl (Err FailedPrecondition ''HOST_SHARED region is not daemon-managed'') \<and>
        fst (acquire_host_shared_attachment 0 demo_token 7
          (snd (unregister_region (\<lambda>_ reg. reg)
             ''region:00000000000000050000000000000006'' 9 False (registry w)))) =
          Inl (Err NotFound ''attach_token not found''))"
  by code_simp

text \<open>The exit of the owner unmaps shared memory that the daemon itself still holds.\<close>

lemma pid_exit_unmaps_held_region:
  "(case run_events [Register demo_os 0 0 [(1, 2)] [(3, 4)] demo_params,
        AcquireLocalMapping 5 demo_id 0, PidExitBegin 7, FinishRemoval demo_id False] demo_start of
      None \<Rightarrow> False
    | Some w \<Rightarrow> holds w demo_id = 1 \<and> open_slabs (registry w) = [])"
  by code_simp
end
