(* ===== verification/Target_Storage.thy ===== *)
theory Target_Storage
  imports Ipc_Regions
begin

text \<open>
  The lease on the storages of a request
  (\<open>daemon/service/controllers/materialization_target_storage_utils.{h,cc}\<close>): every
  storage of a target layout names a window of a registered region; the lease takes the
  references on the regions, maps them and gives the windows' addresses. The calls of the CUDA
  driver are parameters. One reading of the clock stands for those of all the calls of a request;
  it only sets expiry times.
\<close>

section \<open>Data\<close>

datatype RegionMemoryKind = KindUnspecified | KindVram | KindHostShared

datatype StorageSource =
    CudaIpcHandle string | VramRegionId string | RegionRef string RegionMemoryKind | SourceNotSet

record StorageEntry =
  storage_id :: string
  entry_device_id :: int
  storage_length :: u64
  storage_source :: StorageSource
  mapping_base_offset :: u64

datatype AcquireTargetStoragesError =
  ErrUnknown | RegionPoisoned | RegionMissing | MapFailed | DeviceMismatch | Bounds

fun acquire_error_reason :: "AcquireTargetStoragesError \<Rightarrow> string" where
  "acquire_error_reason RegionPoisoned = ''region_poisoned''"
| "acquire_error_reason RegionMissing = ''region_missing''"
| "acquire_error_reason MapFailed = ''map_failed''"
| "acquire_error_reason DeviceMismatch = ''device_uuid_mismatch''"
| "acquire_error_reason Bounds = ''bounds''"
| "acquire_error_reason ErrUnknown = ''transfer_error''"

record StableLocalBackingRef =
  is_host_shared_region :: bool
  backing_id :: string
  backing_base_addr :: nat
  backing_bytes :: u64
  slot_bytes :: u64
  dev_type :: int
  dev_id :: int

text \<open>
  \<open>stable_backing_keepalive\<close> is the region whose reference its \<open>RegionReferenceKeepalive\<close>
  gives back; \<open>keepalive\<close> tells whether the shared state of the lease is referenced.
\<close>

record IntoTargetStorage =
  base_ptr :: nat
  into_length :: u64
  stable_backing :: "StableLocalBackingRef option"
  stable_backing_keepalive :: "string option"
  keepalive :: bool

record RegionMapping =
  mapping_desc :: RegionDescriptor
  mapping_base :: nat

record TargetStorageLease =
  acquired_region_ids :: "string list"
  region_map :: "string \<rightharpoonup> RegionMapping"
  lease_storages :: "IntoTargetStorage list"

record CudaIpc =
  set_device :: "int \<Rightarrow> status"
  open_mapping :: "string \<Rightarrow> nat status_or"

abbreviation empty_lease :: TargetStorageLease where
  "empty_lease \<equiv> \<lparr>acquired_region_ids = [], region_map = Map.empty, lease_storages = []\<rparr>"

section \<open>Operations\<close>

definition resolve_storage_source :: "StorageEntry \<Rightarrow> (string \<times> MemoryKind) status_or" where
  "resolve_storage_source s =
     (case storage_source s of
        VramRegionId rid \<Rightarrow>
          (if rid = [] then Inl (Err InvalidArgument ''vram_region_id must not be empty'')
           else Inr (rid, KVram))
      | RegionRef rid k \<Rightarrow>
          (if rid = [] then Inl (Err InvalidArgument ''region_ref.region_id must not be empty'')
           else case k of
             KindVram \<Rightarrow> Inr (rid, KVram)
           | KindHostShared \<Rightarrow> Inr (rid, KHostShared)
           | KindUnspecified \<Rightarrow>
               Inl (Err InvalidArgument ''region_ref.memory_kind must be specified''))
      | _ \<Rightarrow> Inl (Err InvalidArgument ''storage entry must reference a region''))"

abbreviation acquire_failure :: "error \<Rightarrow> AcquireTargetStoragesError" where
  "acquire_failure e \<equiv>
     (if e = Err FailedPrecondition ''region is poisoned'' then RegionPoisoned else RegionMissing)"

definition map_vram ::
  "int \<Rightarrow> CudaIpc \<Rightarrow> int \<Rightarrow> StorageEntry \<Rightarrow> string \<Rightarrow> IpcRegionRegistry \<Rightarrow>
   ((AcquireTargetStoragesError \<times> error) + RegionMapping) \<times> IpcRegionRegistry" where
  "map_vram now cuda pid s rid reg =
     (case acquire_region now rid pid reg of
        (Inl e, reg1) \<Rightarrow> (Inl (acquire_failure e, e), reg1)
      | (Inr d, reg1) \<Rightarrow>
          (case get_handle_bytes reg1 rid of
             Inl e \<Rightarrow> (Inl (RegionMissing, e), reg1)
           | Inr h \<Rightarrow>
               (case set_device cuda (entry_device_id s) of
                  Inl e \<Rightarrow> (Inl (MapFailed, e), reg1)
                | Inr _ \<Rightarrow>
                    (case open_mapping cuda h of
                       Inl e \<Rightarrow> (Inl (MapFailed, e), reg1)
                     | Inr p \<Rightarrow> (Inr \<lparr>mapping_desc = d, mapping_base = p\<rparr>, reg1)))))"

definition map_host_shared ::
  "int \<Rightarrow> int \<Rightarrow> string \<Rightarrow> IpcRegionRegistry \<Rightarrow>
   ((AcquireTargetStoragesError \<times> error) + RegionMapping) \<times> IpcRegionRegistry" where
  "map_host_shared now pid rid reg =
     (case acquire_host_shared_local_mapping now rid pid reg of
        (Inl e, reg1) \<Rightarrow> (Inl (acquire_failure e, e), reg1)
      | (Inr m, reg1) \<Rightarrow>
          (Inr \<lparr>mapping_desc = map_region m, mapping_base = map_base_ptr m\<rparr>, reg1))"

text \<open>The mapping of the region, made at its first use in the request.\<close>

definition ensure_mapped ::
  "int \<Rightarrow> CudaIpc \<Rightarrow> int \<Rightarrow> StorageEntry \<Rightarrow> string \<Rightarrow> MemoryKind \<Rightarrow> TargetStorageLease \<Rightarrow>
   IpcRegionRegistry \<Rightarrow>
   ((AcquireTargetStoragesError \<times> error) + RegionMapping) \<times> TargetStorageLease \<times>
   IpcRegionRegistry" where
  "ensure_mapped now cuda pid s rid kind lease reg =
     (case region_map lease rid of
        Some m \<Rightarrow> (Inr m, lease, reg)
      | None \<Rightarrow>
          (case (case kind of KVram \<Rightarrow> map_vram now cuda pid s rid reg
                 | KHostShared \<Rightarrow> map_host_shared now pid rid reg) of
             (Inl e, reg1) \<Rightarrow> (Inl e, lease, reg1)
           | (Inr m, reg1) \<Rightarrow>
               (Inr m, lease\<lparr>acquired_region_ids := acquired_region_ids lease @ [rid],
                              region_map := (region_map lease)(rid \<mapsto> m)\<rparr>, reg1)))"

definition check_window :: "StorageEntry \<Rightarrow> RegionMapping \<Rightarrow> (AcquireTargetStoragesError \<times> error) option" where
  "check_window s m =
     (let d = mapping_desc m
      in if memory_kind d = KVram \<and> device_id d \<noteq> entry_device_id s
         then Some (DeviceMismatch,
           Err FailedPrecondition ''region device does not match storage device'')
         else if memory_kind d \<noteq> KVram \<and> entry_device_id s \<noteq> - 1
         then Some (DeviceMismatch, Err FailedPrecondition ''HOST_SHARED storage.device_id must be -1'')
         else if size_bytes d < mapping_base_offset s \<or>
                 size_bytes d - mapping_base_offset s < storage_length s
         then Some (Bounds, Err FailedPrecondition ''region-backed storage exceeds region bounds'')
         else if mapping_base m = 0
         then Some (MapFailed, Err FailedPrecondition ''region base pointer is unavailable'')
         else if 2 ^ 63 - 1 < mapping_base_offset s
         then Some (Bounds, Err FailedPrecondition
           ''region-backed storage offset exceeds pointer arithmetic limits'')
         else None)"

text \<open>\<open>acquire_stable_backing_keepalive\<close>: a reference of its own.\<close>

definition acquire_stable_backing_keepalive ::
  "int \<Rightarrow> string \<Rightarrow> int \<Rightarrow> IpcRegionRegistry \<Rightarrow> string status_or \<times> IpcRegionRegistry" where
  "acquire_stable_backing_keepalive now rid pid reg =
     (case acquire_region now rid pid reg of
        (Inl e, reg1) \<Rightarrow> (Inl e, reg1)
      | (Inr _, reg1) \<Rightarrow> (Inr rid, reg1))"

abbreviation window_backing :: "RegionMapping \<Rightarrow> StableLocalBackingRef" where
  "window_backing m \<equiv>
     \<lparr>is_host_shared_region = True, backing_id = region_id (mapping_desc m),
      backing_base_addr = mapping_base m, backing_bytes = size_bytes (mapping_desc m),
      slot_bytes = 0, dev_type = 0, dev_id = 0\<rparr>"

definition window_storage ::
  "StorageEntry \<Rightarrow> RegionMapping \<Rightarrow> string option \<Rightarrow> IntoTargetStorage" where
  "window_storage s m ka =
     \<lparr>base_ptr = mapping_base m + unat (mapping_base_offset s), into_length = storage_length s,
      stable_backing = map_option (\<lambda>_. window_backing m) ka, stable_backing_keepalive = ka,
      keepalive = True\<rparr>"

text \<open>One round of the loop over the storages.\<close>

definition acquire_storage ::
  "int \<Rightarrow> CudaIpc \<Rightarrow> int \<Rightarrow> StorageEntry \<Rightarrow> TargetStorageLease \<Rightarrow> IpcRegionRegistry \<Rightarrow>
   ((AcquireTargetStoragesError \<times> error) + unit) \<times> TargetStorageLease \<times> IpcRegionRegistry" where
  "acquire_storage now cuda pid s lease reg =
     (case resolve_storage_source s of
        Inl e \<Rightarrow> (Inl (ErrUnknown, e), lease, reg)
      | Inr (rid, kind) \<Rightarrow>
          (case ensure_mapped now cuda pid s rid kind lease reg of
             (Inl e, lease1, reg1) \<Rightarrow> (Inl e, lease1, reg1)
           | (Inr m, lease1, reg1) \<Rightarrow>
               (case check_window s m of
                  Some e \<Rightarrow> (Inl e, lease1, reg1)
                | None \<Rightarrow>
                    if memory_kind (mapping_desc m) = KHostShared \<and> daemon_managed (mapping_desc m)
                    then
                      (case acquire_stable_backing_keepalive now (region_id (mapping_desc m)) pid reg1 of
                         (Inl e, reg2) \<Rightarrow> (Inl (ErrUnknown, e), lease1, reg2)
                       | (Inr ka, reg2) \<Rightarrow>
                           (Inr (), lease1\<lparr>lease_storages :=
                              lease_storages lease1 @ [window_storage s m (Some ka)]\<rparr>, reg2))
                    else
                      (Inr (), lease1\<lparr>lease_storages :=
                         lease_storages lease1 @ [window_storage s m None]\<rparr>, reg1))))"

text \<open>The references that die with a lease: those of the storages, then those of the regions.\<close>

definition held_ids :: "TargetStorageLease \<Rightarrow> string list" where
  "held_ids lease =
     concat (map (\<lambda>s. case stable_backing_keepalive s of None \<Rightarrow> [] | Some r \<Rightarrow> [r])
       (lease_storages lease)) @ acquired_region_ids lease"

fun release_all :: "int \<Rightarrow> string list \<Rightarrow> IpcRegionRegistry \<Rightarrow> IpcRegionRegistry" where
  "release_all now [] reg = reg"
| "release_all now (rid # rids) reg = release_all now rids (snd (release_region now rid reg))"

abbreviation release_now :: "int \<Rightarrow> TargetStorageLease \<Rightarrow> IpcRegionRegistry \<Rightarrow> IpcRegionRegistry" where
  "release_now now lease \<equiv> release_all now (held_ids lease)"

fun acquire_loop ::
  "int \<Rightarrow> CudaIpc \<Rightarrow> int \<Rightarrow> StorageEntry list \<Rightarrow> TargetStorageLease \<Rightarrow> IpcRegionRegistry \<Rightarrow>
   ((AcquireTargetStoragesError \<times> error) + TargetStorageLease) \<times> IpcRegionRegistry" where
  "acquire_loop now cuda pid [] lease reg = (Inr lease, reg)"
| "acquire_loop now cuda pid (s # ss) lease reg =
     (case acquire_storage now cuda pid s lease reg of
        (Inl e, lease1, reg1) \<Rightarrow> (Inl e, release_now now lease1 reg1)
      | (Inr _, lease1, reg1) \<Rightarrow> acquire_loop now cuda pid ss lease1 reg1)"

abbreviation acquire_storages ::
  "int \<Rightarrow> CudaIpc \<Rightarrow> int \<Rightarrow> StorageEntry list \<Rightarrow> IpcRegionRegistry \<Rightarrow>
   ((AcquireTargetStoragesError \<times> error) + TargetStorageLease) \<times> IpcRegionRegistry" where
  "acquire_storages now cuda pid ss reg \<equiv> acquire_loop now cuda pid ss empty_lease reg"

text \<open>
  The backings of the storages of a request, each activated once. The result lists the
  activations; \<open>activate\<close> is the call of the communication manager.
\<close>

fun activate_backings ::
  "(StableLocalBackingRef \<Rightarrow> status) \<Rightarrow> string list \<Rightarrow> IntoTargetStorage list \<Rightarrow>
   status \<times> StableLocalBackingRef list" where
  "activate_backings activate seen [] = (ok_status, [])"
| "activate_backings activate seen (s # ss) =
     (case stable_backing s of
        None \<Rightarrow> activate_backings activate seen ss
      | Some b \<Rightarrow>
          if backing_id b = [] \<or> backing_id b \<in> set seen then activate_backings activate seen ss
          else case activate b of
            Inl e \<Rightarrow> (Inl e, [b])
          | Inr _ \<Rightarrow>
              (let (st, bs) = activate_backings activate (backing_id b # seen) ss
               in (st, b # bs)))"

abbreviation activate_stable_local_backings ::
  "bool \<Rightarrow> (StableLocalBackingRef \<Rightarrow> status) \<Rightarrow> IntoTargetStorage list \<Rightarrow>
   status \<times> StableLocalBackingRef list" where
  "activate_stable_local_backings enabled activate ss \<equiv>
     (if enabled then activate_backings activate [] ss else (ok_status, []))"

section \<open>Counting references\<close>

text \<open>The reference counts of a registry, and everything else of it but expiry and attachments.\<close>

definition refs :: "IpcRegionRegistry \<Rightarrow> string \<Rightarrow> nat option" where
  "refs reg rid = map_option refcount (find_region reg rid)"

definition plain_desc :: "RegionDescriptor \<Rightarrow> RegionDescriptor" where
  "plain_desc d = d\<lparr>expires_at := None, poisoned := False\<rparr>"

definition shape_of :: "RegionRecord \<Rightarrow> RegionRecord" where
  "shape_of rec = rec\<lparr>refcount := 0, host_shared_attachment_refcount := 0, desc := plain_desc (desc rec)\<rparr>"

definition shapes :: "IpcRegionRegistry \<Rightarrow> string \<Rightarrow> RegionRecord option" where
  "shapes reg rid = map_option shape_of (find_region reg rid)"

definition plus_refs :: "(string \<Rightarrow> nat option) \<Rightarrow> string list \<Rightarrow> string \<Rightarrow> nat option" where
  "plus_refs R ids rid = map_option (\<lambda>n. n + count_list ids rid) (R rid)"

lemma plus_refs_append: "plus_refs (plus_refs R a) b = plus_refs R (a @ b)"
  by (auto simp: plus_refs_def fun_eq_iff map_option_case split: option.splits)

lemma plus_refs_Nil [simp]: "plus_refs R [] = R"
  by (simp add: plus_refs_def fun_eq_iff option.map_ident)

lemma plus_refs_perm: "mset a = mset b \<Longrightarrow> plus_refs R a = plus_refs R b"
  by (simp add: plus_refs_def fun_eq_iff flip: count_mset)

lemma plain_desc_renewed [simp]: "plain_desc (renewed now d) = plain_desc d"
  by (simp add: plain_desc_def renewed_def)

lemma plain_desc_poisoned [simp]: "plain_desc (d\<lparr>poisoned := b\<rparr>) = plain_desc d"
  by (simp add: plain_desc_def)

lemma plain_desc_take [simp]: "plain_desc (desc (take_reference now rec)) = plain_desc (desc rec)"
  by (simp add: take_reference_def)

lemma plain_desc_keeps [simp]:
  "memory_kind (plain_desc d) = memory_kind d" "region_id (plain_desc d) = region_id d"
  "size_bytes (plain_desc d) = size_bytes d" "daemon_managed (plain_desc d) = daemon_managed d"
  "device_id (plain_desc d) = device_id d"
  by (simp_all add: plain_desc_def)

lemma shape_of_keeps [simp]:
  "desc (shape_of rec) = plain_desc (desc rec)"
  "daemon_host_shared_slab (shape_of rec) = daemon_host_shared_slab rec"
  "attachment_bytes (shape_of rec) = attachment_bytes rec"
  by (simp_all add: shape_of_def)

lemma shape_of_take [simp]: "shape_of (take_reference now rec) = shape_of rec"
  by (simp add: shape_of_def take_reference_def)

lemma shape_of_drop [simp]: "shape_of (drop_reference now rec) = shape_of rec"
  by (simp add: shape_of_def drop_reference_def Let_def)

lemma put_taken:
  assumes "find_region reg rid = Some rec"
  shows "refs (put_region rid (take_reference now rec) reg) = plus_refs (refs reg) [rid]"
    and "shapes (put_region rid (take_reference now rec) reg) = shapes reg"
proof -
  show "refs (put_region rid (take_reference now rec) reg) = plus_refs (refs reg) [rid]"
  proof
    fix r
    from assms show "refs (put_region rid (take_reference now rec) reg) r = plus_refs (refs reg) [rid] r"
      by (cases "r = rid") (simp_all add: refs_def plus_refs_def update_conv option.map_ident)
  qed
  show "shapes (put_region rid (take_reference now rec) reg) = shapes reg"
  proof
    fix r
    from assms show "shapes (put_region rid (take_reference now rec) reg) r = shapes reg r"
      by (cases "r = rid") (simp_all add: shapes_def update_conv)
  qed
qed

lemma acquire_region_result:
  assumes "acquire_region now rid pid reg = (r, reg')"
  shows "case r of Inl e \<Rightarrow> reg' = reg
    | Inr d \<Rightarrow> refs reg' = plus_refs (refs reg) [rid] \<and> shapes reg' = shapes reg \<and>
        (\<exists>x. shapes reg rid = Some x \<and> plain_desc d = desc x)"
  using assms put_taken [of reg rid _ now]
  by (auto simp: acquire_region_def shapes_def
      split: option.splits if_splits)

lemma local_mapping_result:
  assumes "acquire_host_shared_local_mapping now rid pid reg = (r, reg')"
  shows "case r of Inl e \<Rightarrow> reg' = reg
    | Inr m \<Rightarrow> refs reg' = plus_refs (refs reg) [rid] \<and> shapes reg' = shapes reg \<and>
        (\<exists>x sl. shapes reg rid = Some x \<and> plain_desc (map_region m) = desc x \<and>
           memory_kind (desc x) = KHostShared \<and> daemon_host_shared_slab x = Some sl \<and>
           map_base_ptr m = slab_base sl)"
  using assms put_taken [of reg rid _ now]
  by (auto simp: acquire_host_shared_local_mapping_def shapes_def
      split: option.splits if_splits)

lemma release_region_refs:
  "refs (snd (release_region now rid reg)) =
     (\<lambda>r. map_option (\<lambda>n. n - count_list [rid] r) (refs reg r))"
  by (auto simp: release_region_def refs_def update_conv fun_eq_iff option.map_ident split: option.splits)

lemma release_region_shapes [simp]: "shapes (snd (release_region now rid reg)) = shapes reg"
  by (auto simp: release_region_def shapes_def update_conv fun_eq_iff split: option.splits)

lemma release_all_shapes [simp]: "shapes (release_all now ids reg) = shapes reg"
  by (induction ids arbitrary: reg) simp_all

lemma release_all_refs:
  "refs (release_all now ids reg) = (\<lambda>r. map_option (\<lambda>n. n - count_list ids r) (refs reg r))"
  by (induction ids arbitrary: reg)
    (auto simp: release_region_refs fun_eq_iff option.map_ident option.map_comp comp_def)

lemma release_all_plus:
  assumes "refs reg = plus_refs R (ids @ extra)"
  shows "refs (release_all now ids reg) = plus_refs R extra"
  using assms by (auto simp: release_all_refs plus_refs_def option.map_comp comp_def)

lemma get_handle_bytes_shapes:
  "get_handle_bytes reg rid = (case shapes reg rid of
      None \<Rightarrow> Inl (Err NotFound ''region_id not found'')
    | Some x \<Rightarrow> if memory_kind (desc x) \<noteq> KVram
        then Inl (Err FailedPrecondition ''region is not VRAM-backed'') else Inr (attachment_bytes x))"
  by (auto simp: get_handle_bytes_def shapes_def split: option.splits)

section \<open>What a lease holds\<close>

text \<open>A mapping of the lease is the region of the registry, at the address it is mapped.\<close>

definition mapping_ok ::
  "CudaIpc \<Rightarrow> (string \<Rightarrow> RegionRecord option) \<Rightarrow> string \<Rightarrow> RegionMapping \<Rightarrow> bool" where
  "mapping_ok cuda S rid m =
     (case S rid of
        None \<Rightarrow> False
      | Some x \<Rightarrow>
          plain_desc (mapping_desc m) = desc x \<and>
          (case memory_kind (desc x) of
             KVram \<Rightarrow> open_mapping cuda (attachment_bytes x) = Inr (mapping_base m)
           | KHostShared \<Rightarrow>
               map_option slab_base (daemon_host_shared_slab x) = Some (mapping_base m)))"

definition window_ok ::
  "CudaIpc \<Rightarrow> (string \<Rightarrow> RegionRecord option) \<Rightarrow> StorageEntry \<Rightarrow> IntoTargetStorage \<Rightarrow> bool" where
  "window_ok cuda S s t \<longleftrightarrow>
     (\<exists>rid kind m ka. resolve_storage_source s = Inr (rid, kind) \<and> mapping_ok cuda S rid m \<and>
        check_window s m = None \<and> t = window_storage s m ka)"

text \<open>A VRAM region whose handle or mapping is not available.\<close>

definition vram_unmappable ::
  "CudaIpc \<Rightarrow> (string \<Rightarrow> RegionRecord option) \<Rightarrow> StorageEntry \<Rightarrow> string \<Rightarrow> bool" where
  "vram_unmappable cuda S s rid \<longleftrightarrow>
     resolve_storage_source s = Inr (rid, KVram) \<and>
     (case S rid of
        None \<Rightarrow> False
      | Some x \<Rightarrow> memory_kind (desc x) \<noteq> KVram \<or> \<not> is_ok (set_device cuda (entry_device_id s)) \<or>
          \<not> is_ok (open_mapping cuda (attachment_bytes x)))"

definition lease_ok ::
  "CudaIpc \<Rightarrow> (string \<Rightarrow> nat option) \<Rightarrow> (string \<Rightarrow> RegionRecord option) \<Rightarrow>
   TargetStorageLease \<Rightarrow> IpcRegionRegistry \<Rightarrow> bool" where
  "lease_ok cuda R S lease reg \<longleftrightarrow>
     refs reg = plus_refs R (held_ids lease) \<and> shapes reg = S \<and>
     (\<forall>rid m. region_map lease rid = Some m \<longrightarrow> mapping_ok cuda S rid m)"

lemma map_vram_result:
  assumes "map_vram now cuda pid s rid reg = (r, reg')" "resolve_storage_source s = Inr (rid, KVram)"
  shows "shapes reg' = shapes reg \<and>
    (case r of
       Inl e \<Rightarrow> reg' = reg \<or>
         vram_unmappable cuda (shapes reg) s rid \<and> refs reg' = plus_refs (refs reg) [rid]
     | Inr m \<Rightarrow> refs reg' = plus_refs (refs reg) [rid] \<and> mapping_ok cuda (shapes reg) rid m)"
proof -
  obtain a reg1 where a: "acquire_region now rid pid reg = (a, reg1)" by fastforce
  show ?thesis
  proof (cases a)
    case (Inl e)
    with a assms acquire_region_result [OF a] show ?thesis by (auto simp: map_vram_def)
  next
    case (Inr d)
    with acquire_region_result [OF a] obtain x where
      "refs reg1 = plus_refs (refs reg) [rid]" "shapes reg1 = shapes reg"
      "shapes reg rid = Some x" "plain_desc d = desc x"
      by auto
    with Inr a assms show ?thesis
      by (auto simp: map_vram_def get_handle_bytes_shapes vram_unmappable_def mapping_ok_def
          split: sum.splits if_splits)
  qed
qed

lemma map_host_shared_result:
  assumes "map_host_shared now pid rid reg = (r, reg')"
  shows "shapes reg' = shapes reg \<and>
    (case r of Inl e \<Rightarrow> reg' = reg
     | Inr m \<Rightarrow> refs reg' = plus_refs (refs reg) [rid] \<and> mapping_ok cuda (shapes reg) rid m)"
proof -
  obtain a reg1 where a: "acquire_host_shared_local_mapping now rid pid reg = (a, reg1)" by fastforce
  from a assms local_mapping_result [OF a] show ?thesis
    by (auto simp: map_host_shared_def mapping_ok_def split: sum.splits)
qed

lemma ensure_mapped_result:
  assumes ok: "lease_ok cuda R S lease reg" and src: "resolve_storage_source s = Inr (rid, kind)"
    and res: "ensure_mapped now cuda pid s rid kind lease reg = (r, lease', reg')"
  shows "lease_storages lease' = lease_storages lease \<and> shapes reg' = S \<and>
    (case r of
       Inl e \<Rightarrow> lease' = lease \<and>
         (reg' = reg \<or> vram_unmappable cuda S s rid \<and> refs reg' = plus_refs R (held_ids lease @ [rid]))
     | Inr m \<Rightarrow> lease_ok cuda R S lease' reg' \<and> mapping_ok cuda S rid m)"
proof (cases "region_map lease rid")
  case (Some m)
  with ok res show ?thesis by (auto simp: ensure_mapped_def lease_ok_def)
next
  case None
  from ok have reg: "refs reg = plus_refs R (held_ids lease)" "shapes reg = S"
    by (simp_all add: lease_ok_def)
  obtain a reg1 where a: "(case kind of KVram \<Rightarrow> map_vram now cuda pid s rid reg
      | KHostShared \<Rightarrow> map_host_shared now pid rid reg) = (a, reg1)" by fastforce
  have mapped: "shapes reg1 = S \<and>
    (case a of
       Inl e \<Rightarrow> reg1 = reg \<or>
         vram_unmappable cuda S s rid \<and> refs reg1 = plus_refs R (held_ids lease @ [rid])
     | Inr m \<Rightarrow> refs reg1 = plus_refs R (held_ids lease @ [rid]) \<and> mapping_ok cuda S rid m)"
  proof (cases kind)
    case KVram
    with a src map_vram_result [of now cuda pid s rid reg a reg1] show ?thesis
      by (cases a) (simp_all add: reg plus_refs_append)
  next
    case KHostShared
    with a map_host_shared_result [of now pid rid reg a reg1 cuda] show ?thesis
      by (cases a) (simp_all add: reg plus_refs_append)
  qed
  show ?thesis
  proof (cases a)
    case (Inl e)
    with res a None mapped show ?thesis by (auto simp: ensure_mapped_def)
  next
    case (Inr m)
    with res a None have "r = Inr m" "reg' = reg1"
      "lease' = lease\<lparr>acquired_region_ids := acquired_region_ids lease @ [rid],
         region_map := (region_map lease)(rid \<mapsto> m)\<rparr>"
      by (auto simp: ensure_mapped_def)
    with mapped Inr ok show ?thesis by (auto simp: lease_ok_def held_ids_def)
  qed
qed

lemma held_ids_storage:
  "ts = lease_storages lease \<Longrightarrow> plus_refs R (held_ids (lease\<lparr>lease_storages := ts @ [window_storage s m ka]\<rparr>)) =
   plus_refs R (held_ids lease @ (case ka of None \<Rightarrow> [] | Some r \<Rightarrow> [r]))"
  by (rule plus_refs_perm) (simp add: held_ids_def window_storage_def)

lemma acquire_window_result:
  assumes ok: "lease_ok cuda R S lease1 reg1" and map: "mapping_ok cuda S rid m"
    and src: "resolve_storage_source s = Inr (rid, kind)"
    and mapped: "ensure_mapped now cuda pid s rid kind lease reg = (Inr m, lease1, reg1)"
    and fits: "check_window s m = None"
    and res: "acquire_storage now cuda pid s lease reg = (r, lease', reg')"
  shows "case r of
      Inl e \<Rightarrow> refs reg' = plus_refs R (held_ids lease')
    | Inr _ \<Rightarrow> lease_ok cuda R S lease' reg' \<and>
        (\<exists>t. lease_storages lease' = lease_storages lease1 @ [t] \<and> window_ok cuda S s t)"
proof (cases "memory_kind (mapping_desc m) = KHostShared \<and> daemon_managed (mapping_desc m)")
  case False
  with res src mapped fits have "r = Inr ()" "reg' = reg1"
    "lease' = lease1\<lparr>lease_storages := lease_storages lease1 @ [window_storage s m None]\<rparr>"
    by (auto simp: acquire_storage_def)
  with ok map src fits show ?thesis by (auto simp: lease_ok_def held_ids_storage window_ok_def)
next
  case True
  obtain b reg2 where b: "acquire_region now (region_id (mapping_desc m)) pid reg1 = (b, reg2)"
    by fastforce
  show ?thesis
  proof (cases b)
    case (Inl e)
    with res src mapped fits True b acquire_region_result [OF b] ok show ?thesis
      by (auto simp: acquire_storage_def acquire_stable_backing_keepalive_def lease_ok_def)
  next
    case (Inr d)
    with res src mapped fits True b have "r = Inr ()" "reg' = reg2"
      "lease' = lease1\<lparr>lease_storages := lease_storages lease1 @
         [window_storage s m (Some (region_id (mapping_desc m)))]\<rparr>"
      by (auto simp: acquire_storage_def acquire_stable_backing_keepalive_def)
    with ok map src fits acquire_region_result [OF b] Inr show ?thesis
      by (auto simp: lease_ok_def held_ids_storage plus_refs_append window_ok_def)
  qed
qed

lemma acquire_storage_result:
  assumes ok: "lease_ok cuda R S lease reg"
    and res: "acquire_storage now cuda pid s lease reg = (r, lease', reg')"
  shows "case r of
      Inl e \<Rightarrow> refs reg' = plus_refs R (held_ids lease') \<or>
        (\<exists>rid. vram_unmappable cuda S s rid \<and> refs reg' = plus_refs R (held_ids lease' @ [rid]))
    | Inr _ \<Rightarrow> lease_ok cuda R S lease' reg' \<and>
        (\<exists>t. lease_storages lease' = lease_storages lease @ [t] \<and> window_ok cuda S s t)"
proof (cases "resolve_storage_source s")
  case (Inl e)
  with ok res show ?thesis by (auto simp: acquire_storage_def lease_ok_def)
next
  case (Inr src)
  obtain rid kind where src: "resolve_storage_source s = Inr (rid, kind)" using Inr by (cases src) simp
  obtain a lease1 reg1 where a: "ensure_mapped now cuda pid s rid kind lease reg = (a, lease1, reg1)"
    by (metis prod_cases3)
  note step = ensure_mapped_result [OF ok src a]
  show ?thesis
  proof (cases a)
    case (Inl e)
    with res src a step ok show ?thesis by (auto simp: acquire_storage_def lease_ok_def)
  next
    case (Inr m)
    from step Inr have lease1: "lease_ok cuda R S lease1 reg1" "mapping_ok cuda S rid m"
      "lease_storages lease1 = lease_storages lease" by simp_all
    then have counts: "refs reg1 = plus_refs R (held_ids lease1)" by (simp add: lease_ok_def)
    show ?thesis
    proof (cases "check_window s m")
      case (Some e)
      with res src a Inr counts show ?thesis by (auto simp: acquire_storage_def)
    next
      case None
      with acquire_window_result [OF lease1(1,2) src a [unfolded Inr] None res] lease1(3)
      show ?thesis by (auto split: sum.splits)
    qed
  qed
qed

lemma acquire_loop_result:
  assumes "lease_ok cuda R S lease reg" "acquire_loop now cuda pid ss lease reg = (r, reg')"
  shows "case r of
      Inl e \<Rightarrow> refs reg' = R \<or>
        (\<exists>s rid. s \<in> set ss \<and> vram_unmappable cuda S s rid \<and> refs reg' = plus_refs R [rid])
    | Inr lease' \<Rightarrow> lease_ok cuda R S lease' reg' \<and>
        (\<exists>ts. lease_storages lease' = lease_storages lease @ ts \<and> list_all2 (window_ok cuda S) ss ts)"
  using assms
proof (induction ss arbitrary: lease reg)
  case Nil
  then show ?case by auto
next
  case (Cons s ss)
  obtain a lease1 reg1 where a: "acquire_storage now cuda pid s lease reg = (a, lease1, reg1)"
    by (metis prod_cases3)
  note step = acquire_storage_result [OF Cons.prems(1) a]
  show ?case
  proof (cases a)
    case (Inl e)
    with Cons.prems(2) a have r: "r = Inl e" "reg' = release_now now lease1 reg1" by auto
    from step Inl consider "refs reg1 = plus_refs R (held_ids lease1 @ [])"
      | rid where "vram_unmappable cuda S s rid" "refs reg1 = plus_refs R (held_ids lease1 @ [rid])"
      by auto
    then show ?thesis
    proof cases
      case 1
      from release_all_plus [OF this, of now] show ?thesis by (simp add: r)
    next
      case 2
      from release_all_plus [OF 2(2), of now] 2(1) show ?thesis by (auto simp: r)
    qed
  next
    case (Inr u)
    with Cons.prems(2) a have rest: "acquire_loop now cuda pid ss lease1 reg1 = (r, reg')" by auto
    from step Inr obtain t where t: "lease_ok cuda R S lease1 reg1"
      "lease_storages lease1 = lease_storages lease @ [t]" "window_ok cuda S s t" by auto
    from Cons.IH [OF t(1) rest] t(2,3) show ?thesis by (auto split: sum.splits)
  qed
qed

lemma acquire_storages_result:
  assumes "acquire_storages now cuda pid ss reg = (r, reg')"
  shows "case r of
      Inl e \<Rightarrow> refs reg' = refs reg \<or>
        (\<exists>s rid. s \<in> set ss \<and> vram_unmappable cuda (shapes reg) s rid \<and>
           refs reg' = plus_refs (refs reg) [rid])
    | Inr lease \<Rightarrow> lease_ok cuda (refs reg) (shapes reg) lease reg' \<and>
        list_all2 (window_ok cuda (shapes reg)) ss (lease_storages lease)"
proof -
  have "lease_ok cuda (refs reg) (shapes reg) empty_lease reg"
    by (simp add: lease_ok_def held_ids_def)
  from acquire_loop_result [OF this assms] show ?thesis
    by (auto split: sum.splits)
qed

text \<open>None of this maps or unmaps shared memory.\<close>

lemma acquire_region_slabs: "acquire_region now rid pid reg = (r, reg') \<Longrightarrow> open_slabs reg' = open_slabs reg"
  by (auto simp: acquire_region_def split: option.splits if_splits)

lemma local_mapping_slabs:
  "acquire_host_shared_local_mapping now rid pid reg = (r, reg') \<Longrightarrow> open_slabs reg' = open_slabs reg"
  by (auto simp: acquire_host_shared_local_mapping_def split: option.splits if_splits)

lemma ensure_mapped_slabs:
  "ensure_mapped now cuda pid s rid kind lease reg = (r, lease', reg') \<Longrightarrow>
   open_slabs reg' = open_slabs reg"
  by (auto simp: ensure_mapped_def map_vram_def map_host_shared_def
      dest: acquire_region_slabs local_mapping_slabs
      split: option.splits MemoryKind.splits prod.splits sum.splits)

lemma acquire_storage_slabs:
  "acquire_storage now cuda pid s lease reg = (r, lease', reg') \<Longrightarrow> open_slabs reg' = open_slabs reg"
  by (auto simp: acquire_storage_def acquire_stable_backing_keepalive_def
      dest!: acquire_region_slabs ensure_mapped_slabs
      split: option.splits prod.splits sum.splits if_splits)

lemma acquire_loop_slabs:
  "acquire_loop now cuda pid ss lease reg = (Inr lease', reg') \<Longrightarrow> open_slabs reg' = open_slabs reg"
  by (induction ss arbitrary: lease reg)
    (auto dest: acquire_storage_slabs split: prod.splits sum.splits)

text \<open>
  C39. Lease accounting. A lease on the storages of a request holds exactly the references it has
  recorded, so that its release brings every count of the registry back. A
  request that fails has given back its references too, with one exception: for a storage that
  names a region as VRAM whose handle cannot be read or mapped, one reference stays behind.
\<close>

theorem target_storage_references:
  "case acquire_storages now cuda pid ss reg of
     (Inr lease, reg') \<Rightarrow>
       refs reg' = plus_refs (refs reg) (held_ids lease) \<and>
       refs (release_now t lease reg') = refs reg
   | (Inl _, reg') \<Rightarrow>
       refs reg' = refs reg \<or>
       (\<exists>s rid. s \<in> set ss \<and> vram_unmappable cuda (shapes reg) s rid \<and>
          refs reg' = plus_refs (refs reg) [rid])"
proof -
  obtain r reg' where res: "acquire_storages now cuda pid ss reg = (r, reg')" by fastforce
  show ?thesis
  proof (cases r)
    case (Inl e)
    with acquire_storages_result [OF res] res show ?thesis by auto
  next
    case (Inr lease)
    with acquire_storages_result [OF res]
    have "refs reg' = plus_refs (refs reg) (held_ids lease @ [])" by (auto simp: lease_ok_def)
    with release_all_plus [OF this, of t] Inr res show ?thesis by simp
  qed
qed

text \<open>
  The exception happens without any fault of the driver: a request that names a managed host
  region as VRAM fails, and after it the owner cannot unregister the region without force.
\<close>

definition demo_cuda :: CudaIpc where
  "demo_cuda = \<lparr>set_device = (\<lambda>_. ok_status), open_mapping = (\<lambda>_. Inr 32)\<rparr>"

definition demo_entry :: StorageEntry where
  "demo_entry = \<lparr>storage_id = ''s'', entry_device_id = 0, storage_length = 16,
     storage_source = VramRegionId demo_id, mapping_base_offset = 0\<rparr>"

lemma wrong_kind_leaks_reference:
  "(case run_events [Register demo_os 0 0 [(1, 2)] [(3, 4)] demo_params] demo_start of
      None \<Rightarrow> False
    | Some w \<Rightarrow>
        (let (r, reg) = acquire_storages 5 demo_cuda 7 [demo_entry] (registry w)
         in isl r \<and> refs reg demo_id = Some 1 \<and>
            fst (unregister_region (\<lambda>_ reg. reg) demo_id 7 False reg) =
              Inl (Err FailedPrecondition ''region has active references'')))"
  by code_simp

text \<open>Each backing of a request is activated at most once.\<close>

lemma activated_once:
  "distinct (map backing_id (snd (activate_backings activate seen ss))) \<and>
   (\<forall>b \<in> set (snd (activate_backings activate seen ss)). backing_id b \<notin> set seen)"
proof (induction ss arbitrary: seen)
  case Nil
  show ?case by simp
next
  case (Cons s ss)
  show ?case
  proof (cases "stable_backing s")
    case None
    with Cons.IH [of seen] show ?thesis by simp
  next
    case (Some b)
    obtain st bs where bs: "activate_backings activate (backing_id b # seen) ss = (st, bs)" by fastforce
    show ?thesis
    proof (cases "backing_id b = [] \<or> backing_id b \<in> set seen")
      case True
      with Some Cons.IH [of seen] show ?thesis by simp
    next
      case False
      with Some bs Cons.IH [of "backing_id b # seen"] show ?thesis
        by (cases "activate b") auto
    qed
  qed
qed
end
