(* ===== verification/Region_Layout.thy ===== *)
theory Region_Layout
  imports Target_Storage Device_Keys
begin

text \<open>
  The layout of byte artifacts in registered regions
  (\<open>daemon/service/byte_artifact_region_layout.{h,cc}\<close>): the storages of a target layout
  are laid out one after the other in a logical address space, and every artifact of the request
  is a range of one storage. Enumerations of the request are the numbers of the protocol; the
  map of expected lengths is an association list in iteration order.
\<close>

section \<open>Data\<close>

type_synonym SlotToken = "u64 \<times> u64"

record TargetTensorOffset =
  name :: string
  off_storage_id :: string
  storage_offset :: u64
  off_logical_length :: u64
  slot_index :: "u64 option"
  slot_generation :: "u64 option"

record TargetLayout =
  storages :: "StorageEntry list"
  aliases_size :: nat
  offsets :: "TargetTensorOffset list"
  layout_kind :: nat
  index_kind :: nat
  layout_view_id :: string
  tensor_spec_kind :: nat

record StorageRange =
  sr_storage_id :: string
  sr_region_id :: string
  logical_base :: u64
  sr_length :: u64
  sr_memory_kind :: MemoryKind
  sr_host_region_class :: HostRegionClass
  sr_daemon_managed :: bool
  sr_base_ptr :: nat
  sr_device_id :: int
  sr_stable_backing :: "StableLocalBackingRef option"
  sr_stable_backing_keepalive :: "string option"
  sr_keepalive :: bool

record ItemRange =
  storage_index :: nat
  logical_offset :: u64
  logical_length :: u64
  storage_local_offset :: u64
  item_slot_token :: "SlotToken option"

record ByteArtifactRegionLayout =
  storage_lease :: TargetStorageLease
  layout_storages :: "StorageRange list"
  items :: "(string \<times> ItemRange) list"
  layout_device_id :: int

section \<open>Checks of the request\<close>

definition parse_slot_token :: "TargetTensorOffset \<Rightarrow> SlotToken option status_or" where
  "parse_slot_token e =
     (case (slot_index e, slot_generation e) of
        (Some i, Some g) \<Rightarrow> Inr (Some (i, g))
      | (None, None) \<Rightarrow> Inr None
      | _ \<Rightarrow> Inl (Err InvalidArgument
          ''target_layout.offset slot_index and slot_generation must be specified together''))"

definition resolve_storage_memory_kind :: "StorageEntry \<Rightarrow> MemoryKind status_or" where
  "resolve_storage_memory_kind s =
     (case storage_source s of
        VramRegionId _ \<Rightarrow> Inr KVram
      | RegionRef _ k \<Rightarrow>
          (case k of
             KindVram \<Rightarrow> Inr KVram
           | KindHostShared \<Rightarrow> Inr KHostShared
           | KindUnspecified \<Rightarrow> Inl (Err InvalidArgument ''region_ref.memory_kind must be specified''))
      | _ \<Rightarrow> Inl (Err InvalidArgument ''target_layout storages must reference a region''))"

definition resolve_storage_region_id :: "StorageEntry \<Rightarrow> string status_or" where
  "resolve_storage_region_id s =
     (case storage_source s of
        VramRegionId rid \<Rightarrow>
          (if rid = [] then Inl (Err InvalidArgument ''vram_region_id must not be empty'') else Inr rid)
      | RegionRef rid _ \<Rightarrow>
          (if rid = [] then Inl (Err InvalidArgument ''region_ref.region_id must not be empty'')
           else Inr rid)
      | _ \<Rightarrow> Inl (Err InvalidArgument ''target_layout storages must reference a region''))"

text \<open>The loop of \<open>validate_layout_memory_kind\<close>; \<open>dev\<close> and \<open>kind\<close> are its local variables.\<close>

fun validate_memory_kind ::
  "DeviceRegistry \<Rightarrow> string \<Rightarrow> StorageEntry list \<Rightarrow> int option \<Rightarrow> MemoryKind option \<Rightarrow>
   MemoryKind status_or" where
  "validate_memory_kind dreg duuid [] dev kind =
     (case kind of
        None \<Rightarrow> Inl (Err InvalidArgument ''target_layout must include at least one storage'')
      | Some k \<Rightarrow> Inr k)"
| "validate_memory_kind dreg duuid (s # ss) dev kind =
     (case resolve_storage_memory_kind s of
        Inl e \<Rightarrow> Inl e
      | Inr k \<Rightarrow>
          if kind \<noteq> None \<and> kind \<noteq> Some k
          then Inl (Err InvalidArgument ''byte artifact region layout must use one memory kind'')
          else if k = KHostShared then
            (if entry_device_id s \<noteq> - 1
             then Inl (Err InvalidArgument ''HOST_SHARED storage.device_id must be -1'')
             else if duuid \<noteq> []
             then Inl (Err InvalidArgument
               ''device_uuid must be empty for HOST_SHARED byte artifact layouts'')
             else validate_memory_kind dreg duuid ss dev (Some k))
          else if entry_device_id s < 0
          then Inl (Err InvalidArgument ''storage.device_id must be >= 0'')
          else if duuid = []
          then Inl (Err InvalidArgument ''device_uuid is required for VRAM byte artifact layouts'')
          else if dev \<noteq> None \<and> dev \<noteq> Some (entry_device_id s)
          then Inl (Err InvalidArgument ''byte artifact region layout must use one device_id'')
          else if uuid (gpu_key dreg (entry_device_id s)) \<noteq> [] \<and>
                  uuid (gpu_key dreg (entry_device_id s)) \<noteq> duuid
          then Inl (Err InvalidArgument ''storage.device_id does not match device_uuid'')
          else validate_memory_kind dreg duuid ss (Some (entry_device_id s)) (Some k))"

section \<open>Construction\<close>

text \<open>
  The loop over the storages: \<open>cursor\<close> is the next logical address, \<open>cls\<close> the common class of
  host regions, \<open>srs\<close> the ranges so far. A missing entry of the lease makes
  \<open>vector::at\<close> throw.
\<close>

abbreviation region_class ::
  "IpcRegionRegistry \<Rightarrow> MemoryKind \<Rightarrow> string \<Rightarrow> (HostRegionClass \<times> bool) status_or" where
  "region_class reg k rid \<equiv>
     (if k = KHostShared
      then map_sum id (\<lambda>d. (host_region_class d, daemon_managed d)) (describe reg rid)
      else Inr (ClassNone, False))"

definition new_range ::
  "StorageEntry \<Rightarrow> IntoTargetStorage \<Rightarrow> u64 \<Rightarrow> MemoryKind \<Rightarrow> string \<Rightarrow> HostRegionClass \<Rightarrow> bool \<Rightarrow>
   StorageRange" where
  "new_range s t cursor k rid c managed =
     \<lparr>sr_storage_id = storage_id s, sr_region_id = rid, logical_base = cursor,
      sr_length = storage_length s, sr_memory_kind = k, sr_host_region_class = c,
      sr_daemon_managed = managed, sr_base_ptr = base_ptr t, sr_device_id = entry_device_id s,
      sr_stable_backing = stable_backing t,
      sr_stable_backing_keepalive = stable_backing_keepalive t, sr_keepalive = keepalive t\<rparr>"

fun add_storages ::
  "IpcRegionRegistry \<Rightarrow> StorageEntry list \<Rightarrow> IntoTargetStorage list \<Rightarrow> u64 \<Rightarrow>
   HostRegionClass option \<Rightarrow> StorageRange list \<Rightarrow>
   (StorageRange list \<times> HostRegionClass option \<times> u64) status_or" where
  "add_storages reg [] ts cursor cls srs = Inr (srs, cls, cursor)"
| "add_storages reg (s # ss) ts cursor cls srs =
     (case resolve_storage_memory_kind s of
        Inl e \<Rightarrow> Inl e
      | Inr k \<Rightarrow>
          (case resolve_storage_region_id s of
             Inl e \<Rightarrow> Inl e
           | Inr rid \<Rightarrow>
               (case region_class reg k rid of
                  Inl e \<Rightarrow> Inl e
                | Inr (c, managed) \<Rightarrow>
                    if k = KHostShared \<and> cls \<noteq> None \<and> cls \<noteq> Some c
                    then Inl (Err InvalidArgument
                      ''byte artifact HOST_SHARED region layout must use one host_region_class'')
                    else case ts of
                      [] \<Rightarrow> Inl (Err Thrown ''vector::at'')
                    | t # ts1 \<Rightarrow>
                        if - 1 - cursor < storage_length s
                        then Inl (Err InvalidArgument
                          ''target_layout storage lengths overflow logical layout'')
                        else add_storages reg ss ts1 (cursor + storage_length s)
                          (if k = KHostShared then Some c else cls)
                          (srs @ [new_range s t cursor k rid c managed]))))"

text \<open>\<open>storage_indices\<close>: the first storage with an identifier.\<close>

fun storage_position :: "string \<Rightarrow> StorageRange list \<Rightarrow> nat option" where
  "storage_position i [] = None"
| "storage_position i (sr # srs) =
     (if sr_storage_id sr = i then Some 0 else map_option Suc (storage_position i srs))"

text \<open>One round of the loop over the offsets; \<open>needs_slot\<close> holds for allocator-backed regions.\<close>

definition add_item ::
  "bool \<Rightarrow> (string \<times> u64) list \<Rightarrow> StorageRange list \<Rightarrow> TargetTensorOffset \<Rightarrow>
   (string \<times> ItemRange) list \<Rightarrow> (string \<times> ItemRange) list status_or" where
  "add_item needs_slot expected srs e its =
     (if name e = [] then Inl (Err InvalidArgument ''target_layout.offsets include empty name'')
      else case map_of expected (name e) of
        None \<Rightarrow> Inl (Err InvalidArgument ''target_layout.offsets include unknown artifact_id'')
      | Some len \<Rightarrow>
          (case storage_position (off_storage_id e) srs of
             None \<Rightarrow> Inl (Err InvalidArgument ''target_layout.offsets reference unknown storage_id'')
           | Some i \<Rightarrow>
               (let sr = srs ! i; local = storage_offset e - logical_base sr
                in if storage_offset e < logical_base sr
                   then Inl (Err InvalidArgument ''target_layout.offset.storage_offset is out of bounds'')
                   else if off_logical_length e = 0
                   then Inl (Err InvalidArgument ''target_layout.offset.logical_length must be > 0'')
                   else case parse_slot_token e of
                     Inl er \<Rightarrow> Inl er
                   | Inr tok \<Rightarrow>
                       if needs_slot \<and> tok = None
                       then Inl (Err InvalidArgument
                         ''allocator-backed HOST_SHARED byte artifact layouts require slot_index and slot_generation on every offset'')
                       else if len \<noteq> 0 \<and> len \<noteq> off_logical_length e
                       then Inl (Err InvalidArgument
                         ''target_layout.offset.logical_length does not match expected byte length'')
                       else if sr_length sr < local \<or> sr_length sr - local < off_logical_length e
                       then Inl (Err InvalidArgument ''target_layout.offset exceeds storage bounds'')
                       else if 2 ^ 63 - 1 < local
                       then Inl (Err InvalidArgument
                         ''target_layout.offset exceeds pointer arithmetic limits'')
                       else if map_of its (name e) \<noteq> None
                       then Inl (Err InvalidArgument ''target_layout.offsets include duplicate artifact_id'')
                       else Inr (its @ [(name e,
                         \<lparr>storage_index = i, logical_offset = storage_offset e,
                          logical_length = off_logical_length e, storage_local_offset = local,
                          item_slot_token = tok\<rparr>)]))))"

fun add_items ::
  "bool \<Rightarrow> (string \<times> u64) list \<Rightarrow> StorageRange list \<Rightarrow> TargetTensorOffset list \<Rightarrow>
   (string \<times> ItemRange) list \<Rightarrow> (string \<times> ItemRange) list status_or" where
  "add_items needs_slot expected srs [] its = Inr its"
| "add_items needs_slot expected srs (e # es) its =
     (case add_item needs_slot expected srs e its of
        Inl er \<Rightarrow> Inl er
      | Inr its1 \<Rightarrow> add_items needs_slot expected srs es its1)"

text \<open>A layout without offsets: one artifact that fills one storage.\<close>

definition whole_item ::
  "bool \<Rightarrow> (string \<times> u64) list \<Rightarrow> StorageRange list \<Rightarrow> u64 \<Rightarrow> (string \<times> ItemRange) list status_or" where
  "whole_item needs_slot expected srs cursor =
     (if needs_slot
      then Inl (Err InvalidArgument
        ''allocator-backed HOST_SHARED byte artifact layouts require explicit offsets with slot tokens'')
      else case expected of
        [(a, len)] \<Rightarrow>
          (if length srs \<noteq> 1
           then Inl (Err InvalidArgument
             ''target_layout.offsets are required when multiple storages are used'')
           else if len \<noteq> 0 \<and> len \<noteq> cursor
           then Inl (Err InvalidArgument
             ''target_layout total size does not match expected byte length'')
           else Inr [(a, \<lparr>storage_index = 0, logical_offset = 0, logical_length = cursor,
                          storage_local_offset = 0, item_slot_token = None\<rparr>)])
      | _ \<Rightarrow> Inl (Err InvalidArgument
          ''target_layout.offsets are required for multi-item byte artifact region access''))"

text \<open>The part of \<open>acquire\<close> behind the lease.\<close>

definition build_layout ::
  "TargetLayout \<Rightarrow> (string \<times> u64) list \<Rightarrow> MemoryKind \<Rightarrow> TargetStorageLease \<Rightarrow>
   IpcRegionRegistry \<Rightarrow> ByteArtifactRegionLayout status_or" where
  "build_layout layout expected k lease reg =
     (case add_storages reg (storages layout) (lease_storages lease) 0 None [] of
        Inl e \<Rightarrow> Inl e
      | Inr (srs, cls, cursor) \<Rightarrow>
          (let needs_slot = (k = KHostShared \<and> cls = Some ClassAllocator)
           in map_sum id
                (\<lambda>its. \<lparr>storage_lease = lease, layout_storages = srs, items = its,
                        layout_device_id = (if k = KHostShared then - 1
                          else entry_device_id (hd (storages layout)))\<rparr>)
                (if offsets layout = [] then whole_item needs_slot expected srs cursor
                 else if length (offsets layout) \<noteq> length expected
                 then Inl (Err InvalidArgument
                   ''target_layout.offsets must cover every requested byte artifact'')
                 else add_items needs_slot expected srs (offsets layout) [])))"

definition acquire_layout ::
  "int \<Rightarrow> CudaIpc \<Rightarrow> DeviceRegistry \<Rightarrow> TargetLayout \<Rightarrow> int \<Rightarrow> string \<Rightarrow> (string \<times> u64) list \<Rightarrow>
   IpcRegionRegistry \<Rightarrow> ByteArtifactRegionLayout status_or \<times> IpcRegionRegistry" where
  "acquire_layout now cuda dreg layout pid duuid expected reg =
     (if layout_kind layout \<noteq> 0
      then (Inl (Err InvalidArgument ''target_layout.layout_kind must be coalesced''), reg)
      else if index_kind layout \<noteq> 0
      then (Inl (Err InvalidArgument ''target_layout.index_kind must be canonical''), reg)
      else if tensor_spec_kind layout \<noteq> 1
      then (Inl (Err InvalidArgument ''target_layout.tensor_spec_kind must be offsets''), reg)
      else if layout_view_id layout \<noteq> []
      then (Inl (Err InvalidArgument ''target_layout.view_id is not supported for byte artifacts''), reg)
      else if aliases_size layout \<noteq> 0
      then (Inl (Err InvalidArgument ''target_layout.aliases are not supported for byte artifacts''), reg)
      else if storages layout = []
      then (Inl (Err InvalidArgument ''target_layout must include at least one storage''), reg)
      else case validate_memory_kind dreg duuid (storages layout) None None of
        Inl e \<Rightarrow> (Inl e, reg)
      | Inr k \<Rightarrow>
          (case acquire_storages now cuda pid (storages layout) reg of
             (Inl (_, e), reg1) \<Rightarrow> (Inl e, reg1)
           | (Inr lease, reg1) \<Rightarrow>
               (case build_layout layout expected k lease reg1 of
                  Inl e \<Rightarrow> (Inl e, release_now now lease reg1)
                | Inr l \<Rightarrow> (Inr l, reg1))))"

section \<open>Use\<close>

abbreviation contains :: "ByteArtifactRegionLayout \<Rightarrow> string \<Rightarrow> bool" where
  "contains l a \<equiv> map_of (items l) a \<noteq> None"

abbreviation expected_length :: "ByteArtifactRegionLayout \<Rightarrow> string \<Rightarrow> u64" where
  "expected_length l a \<equiv> (case map_of (items l) a of None \<Rightarrow> 0 | Some it \<Rightarrow> logical_length it)"

abbreviation slot_token :: "ByteArtifactRegionLayout \<Rightarrow> string \<Rightarrow> SlotToken option" where
  "slot_token l a \<equiv> (case map_of (items l) a of None \<Rightarrow> None | Some it \<Rightarrow> item_slot_token it)"

abbreviation item_storage :: "ByteArtifactRegionLayout \<Rightarrow> ItemRange \<Rightarrow> StorageRange" where
  "item_storage l it \<equiv> layout_storages l ! storage_index it"

abbreviation item_addr :: "ByteArtifactRegionLayout \<Rightarrow> ItemRange \<Rightarrow> nat" where
  "item_addr l it \<equiv> sr_base_ptr (item_storage l it) + unat (storage_local_offset it)"

abbreviation item_backing :: "StorageRange \<Rightarrow> ItemRange \<Rightarrow> StableLocalBackingRef option" where
  "item_backing sr it \<equiv>
     map_option (\<lambda>b. if item_slot_token it \<noteq> None \<and> 0 < logical_length it
       then b\<lparr>slot_bytes := logical_length it\<rparr> else b) (sr_stable_backing sr)"

text \<open>The result: total size and the one storage of the item.\<close>

definition build_item_target_layout ::
  "ByteArtifactRegionLayout \<Rightarrow> string \<Rightarrow> (u64 \<times> IntoTargetStorage list) status_or" where
  "build_item_target_layout l a =
     (case map_of (items l) a of
        None \<Rightarrow> Inl (Err NotFound ''artifact_id is not mapped in region layout'')
      | Some it \<Rightarrow>
          (let sr = item_storage l it
           in Inr (logical_length it,
                [\<lparr>base_ptr = item_addr l it, into_length = logical_length it,
                  stable_backing = item_backing sr it,
                  stable_backing_keepalive = sr_stable_backing_keepalive sr,
                  keepalive = sr_keepalive sr\<rparr>])))"

datatype ItemSource = CpuMemorySource nat u64 | GpuMemorySource nat int u64

definition open_item_source :: "ByteArtifactRegionLayout \<Rightarrow> string \<Rightarrow> ItemSource status_or" where
  "open_item_source l a =
     (case map_of (items l) a of
        None \<Rightarrow> Inl (Err NotFound ''artifact_id is not mapped in region layout'')
      | Some it \<Rightarrow>
          if sr_memory_kind (item_storage l it) = KHostShared
          then Inr (CpuMemorySource (item_addr l it) (logical_length it))
          else Inr (GpuMemorySource (item_addr l it) (layout_device_id l) (logical_length it)))"

text \<open>
  \<open>HostSharedSourceSpan\<close> as the address and length of the item, with its storage and range.
\<close>

definition open_host_shared_source_span ::
  "ByteArtifactRegionLayout \<Rightarrow> string \<Rightarrow> (nat \<times> u64 \<times> StorageRange \<times> SlotToken option \<times>
   StableLocalBackingRef option) status_or" where
  "open_host_shared_source_span l a =
     (case map_of (items l) a of
        None \<Rightarrow> Inl (Err NotFound ''artifact_id is not mapped in region layout'')
      | Some it \<Rightarrow>
          (let sr = item_storage l it
           in if sr_memory_kind sr \<noteq> KHostShared
              then Inl (Err FailedPrecondition ''source layout item is not HOST_SHARED'')
              else if \<not> sr_daemon_managed sr
              then Inl (Err FailedPrecondition ''HOST_SHARED source layout item is not daemon-managed'')
              else if sr_base_ptr sr = 0
              then Inl (Err FailedPrecondition
                ''HOST_SHARED source layout base pointer is unavailable'')
              else if logical_length it = 0
              then Inl (Err InvalidArgument ''HOST_SHARED source layout item length must be > 0'')
              else if sr_host_region_class sr = ClassAllocator \<and> item_slot_token it = None
              then Inl (Err FailedPrecondition
                ''allocator-backed HOST_SHARED source span requires slot token'')
              else if \<not> sr_keepalive sr
              then Inl (Err FailedPrecondition ''HOST_SHARED source span requires region keepalive'')
              else Inr (item_addr l it, logical_length it, sr, item_slot_token it,
                        item_backing sr it)))"

text \<open>
  The activation of the backings behind the items. A second item of a backing only changes a
  local copy, so the loop activates what \<open>activate_stable_local_backings\<close> of the storages does,
  with the slot size of the item that comes first.
\<close>

definition activate_layout_backings ::
  "bool \<Rightarrow> (StableLocalBackingRef \<Rightarrow> status) \<Rightarrow> ByteArtifactRegionLayout \<Rightarrow>
   status \<times> StableLocalBackingRef list" where
  "activate_layout_backings enabled activate l =
     activate_stable_local_backings enabled activate
       (map (\<lambda>(a, it).
          \<lparr>base_ptr = item_addr l it, into_length = logical_length it,
           stable_backing = item_backing (item_storage l it) it,
           stable_backing_keepalive = sr_stable_backing_keepalive (item_storage l it),
           keepalive = sr_keepalive (item_storage l it)\<rparr>) (items l))"

section \<open>Items lie in their regions\<close>

text \<open>Where a region is mapped: the address the driver gives for its handle, or its slab.\<close>

definition region_base :: "CudaIpc \<Rightarrow> RegionRecord \<Rightarrow> nat option" where
  "region_base cuda rec =
     (case memory_kind (desc rec) of
        KVram \<Rightarrow> (case open_mapping cuda (attachment_bytes rec) of Inl _ \<Rightarrow> None | Inr p \<Rightarrow> Some p)
      | KHostShared \<Rightarrow> map_option slab_base (daemon_host_shared_slab rec))"

text \<open>A window of the lease lies in the region its storage names.\<close>

lemma window_in_region:
  assumes "window_ok cuda (shapes reg) s t" "resolve_storage_region_id s = Inr rid"
  shows "\<exists>rec base. find_region reg rid = Some rec \<and> region_base cuda rec = Some base \<and>
    base \<le> base_ptr t \<and> base_ptr t + unat (storage_length s) \<le> base + unat (size_bytes (desc rec))"
proof -
  from assms(1) obtain rid' kind m ka where w: "resolve_storage_source s = Inr (rid', kind)"
    "mapping_ok cuda (shapes reg) rid' m" "check_window s m = None" "t = window_storage s m ka"
    by (auto simp: window_ok_def)
  from w(1) assms(2) have "rid' = rid"
    by (auto simp: resolve_storage_source_def resolve_storage_region_id_def
        split: StorageSource.splits RegionMemoryKind.splits if_splits)
  with w(2) obtain rec where rec: "find_region reg rid = Some rec"
    and d: "plain_desc (mapping_desc m) = plain_desc (desc rec)"
    and base: "region_base cuda rec = Some (mapping_base m)"
    by (auto simp: mapping_ok_def shapes_def region_base_def split: option.splits MemoryKind.splits)
  from d have sz: "size_bytes (mapping_desc m) = size_bytes (desc rec)"
    by (metis plain_desc_keeps(3))
  from w(3) sz have "mapping_base_offset s \<le> size_bytes (desc rec)"
    "storage_length s \<le> size_bytes (desc rec) - mapping_base_offset s"
    by (auto simp: check_window_def Let_def not_less split: if_splits)
  then have "unat (mapping_base_offset s) + unat (storage_length s) \<le> unat (size_bytes (desc rec))"
    by (simp add: word_le_nat_alt unat_sub)
  with rec base w(4) show ?thesis by (auto simp: window_storage_def)
qed

text \<open>The ranges of the storages, one for each window of the lease.\<close>

definition range_of :: "StorageEntry \<Rightarrow> IntoTargetStorage \<Rightarrow> StorageRange \<Rightarrow> bool" where
  "range_of s t sr \<longleftrightarrow>
     resolve_storage_region_id s = Inr (sr_region_id sr) \<and> sr_length sr = storage_length s \<and>
     sr_base_ptr sr = base_ptr t"

lemma add_storages_result:
  assumes "add_storages reg ss ts cursor cls srs = Inr (srs', cls', cursor')"
  shows "\<exists>new. srs' = srs @ new \<and> length new = length ss \<and> length ss \<le> length ts \<and>
    cursor' = cursor + sum_list (map sr_length new) \<and>
    (\<forall>i < length ss. range_of (ss ! i) (ts ! i) (new ! i))"
  using assms
proof (induction ss arbitrary: ts cursor cls srs)
  case Nil
  then show ?case by simp
next
  case (Cons s ss)
  from Cons.prems obtain t ts1 k rid c managed cls1 where t: "ts = t # ts1"
    and rid: "resolve_storage_region_id s = Inr rid"
    and rest: "add_storages reg ss ts1 (cursor + storage_length s) cls1
      (srs @ [new_range s t cursor k rid c managed]) = Inr (srs', cls', cursor')"
    by (auto split: sum.splits if_splits list.splits)
  define sr where "sr = new_range s t cursor k rid c managed"
  have sr: "range_of s t sr" using rid by (simp add: sr_def range_of_def new_range_def)
  from Cons.IH [OF rest [folded sr_def]] obtain new where new: "srs' = (srs @ [sr]) @ new" "length new = length ss"
    "length ss \<le> length ts1" "cursor' = cursor + storage_length s + sum_list (map sr_length new)"
    "\<forall>i < length ss. range_of (ss ! i) (ts1 ! i) (new ! i)"
    by blast
  have "\<forall>i < length (s # ss). range_of ((s # ss) ! i) (ts ! i) ((sr # new) ! i)"
    using sr new(5) by (auto simp: t nth_Cons split: nat.splits)
  with new sr t show ?case by (intro exI [of _ "sr # new"]) (simp add: range_of_def add.assoc)
qed

lemma storage_position_bound: "storage_position i srs = Some n \<Longrightarrow> n < length srs"
  by (induction srs arbitrary: n) (auto split: if_splits)

text \<open>What the loop over the offsets guarantees of an item.\<close>

definition item_ok :: "(string \<times> u64) list \<Rightarrow> StorageRange list \<Rightarrow> string \<Rightarrow> ItemRange \<Rightarrow> bool" where
  "item_ok expected srs a it \<longleftrightarrow>
     (\<exists>len. map_of expected a = Some len \<and> (len \<noteq> 0 \<longrightarrow> logical_length it = len)) \<and>
     storage_index it < length srs \<and>
     unat (storage_local_offset it) + unat (logical_length it) \<le>
       unat (sr_length (srs ! storage_index it))"

lemma add_item_result:
  assumes "add_item needs_slot expected srs e its = Inr its1"
  shows "\<exists>it. its1 = its @ [(name e, it)] \<and> name e \<notin> fst ` set its \<and> item_ok expected srs (name e) it"
proof -
  from assms obtain len i tok where i: "storage_position (off_storage_id e) srs = Some i"
    and len: "map_of expected (name e) = Some len" "len \<noteq> 0 \<longrightarrow> off_logical_length e = len"
    and fits: "storage_offset e - logical_base (srs ! i) \<le> sr_length (srs ! i)"
      "off_logical_length e \<le> sr_length (srs ! i) - (storage_offset e - logical_base (srs ! i))"
    and new: "map_of its (name e) = None"
    and its1: "its1 = its @ [(name e, \<lparr>storage_index = i, logical_offset = storage_offset e,
      logical_length = off_logical_length e,
      storage_local_offset = storage_offset e - logical_base (srs ! i), item_slot_token = tok\<rparr>)]"
    unfolding add_item_def Let_def by (auto simp: not_less split: if_splits option.splits sum.splits)
  from fits have "unat (storage_offset e - logical_base (srs ! i)) + unat (off_logical_length e)
      \<le> unat (sr_length (srs ! i))"
    by (simp add: word_le_nat_alt unat_sub)
  with i len its1 new storage_position_bound [OF i] show ?thesis
    by (auto simp: item_ok_def map_of_eq_None_iff)
qed

lemma add_items_result:
  assumes "add_items needs_slot expected srs es its = Inr its'"
    and "distinct (map fst its)" "\<forall>(a, it) \<in> set its. item_ok expected srs a it"
  shows "distinct (map fst its') \<and> length its' = length its + length es \<and>
    (\<forall>(a, it) \<in> set its'. item_ok expected srs a it)"
  using assms
proof (induction es arbitrary: its)
  case Nil
  then show ?case by simp
next
  case (Cons e es)
  from Cons.prems(1) obtain its1 where its1: "add_item needs_slot expected srs e its = Inr its1"
    and rest: "add_items needs_slot expected srs es its1 = Inr its'"
    by (auto split: sum.splits)
  from add_item_result [OF its1] obtain it where it: "its1 = its @ [(name e, it)]"
    "name e \<notin> fst ` set its" "item_ok expected srs (name e) it" by blast
  from it Cons.prems(2,3) have "distinct (map fst its1)" "\<forall>(a, it) \<in> set its1. item_ok expected srs a it"
    by auto
  from Cons.IH [OF rest this] it(1) show ?case by simp
qed

lemma whole_item_result:
  assumes "whole_item needs_slot expected srs cursor = Inr its"
    and "cursor = sum_list (map sr_length srs)"
  shows "distinct (map fst its) \<and> length its = length expected \<and>
    (\<forall>(a, it) \<in> set its. item_ok expected srs a it)"
proof -
  from assms(1) obtain a len where "expected = [(a, len)]" "length srs = 1" "len \<noteq> 0 \<longrightarrow> len = cursor"
    "its = [(a, \<lparr>storage_index = 0, logical_offset = 0, logical_length = cursor,
       storage_local_offset = 0, item_slot_token = None\<rparr>)]"
    by (auto simp: whole_item_def split: if_splits list.splits prod.splits)
  moreover from this obtain sr where "srs = [sr]" by (auto simp: length_Suc_conv)
  ultimately show ?thesis using assms(2) by (auto simp: item_ok_def)
qed

text \<open>As many distinct items as requested artifacts: each has one.\<close>

lemma items_cover:
  assumes "distinct (map fst its)" "length its = length expected" "distinct (map fst expected)"
    and "\<forall>(a, it) \<in> set its. item_ok expected srs a it"
  shows "fst ` set its = fst ` set expected"
proof (rule card_subset_eq)
  show "fst ` set its \<subseteq> fst ` set expected"
  proof
    fix a
    assume "a \<in> fst ` set its"
    with assms(4) have "map_of expected a \<noteq> None" by (auto simp: item_ok_def)
    then show "a \<in> fst ` set expected" by (simp add: map_of_eq_None_iff)
  qed
  from assms(1-3) distinct_card [of "map fst its"] distinct_card [of "map fst expected"]
  show "card (fst ` set its) = card (fst ` set expected)" by simp
qed simp

lemma build_layout_result:
  assumes res: "build_layout layout expected k lease reg = Inr l"
    and dist: "distinct (map fst expected)"
  shows "fst ` set (items l) = fst ` set expected \<and>
    (\<forall>(a, it) \<in> set (items l). item_ok expected (layout_storages l) a it) \<and>
    length (layout_storages l) = length (storages layout) \<and>
    (\<forall>i < length (storages layout).
       range_of (storages layout ! i) (lease_storages lease ! i) (layout_storages l ! i))"
proof -
  from res obtain cls cursor where
    srs: "add_storages reg (storages layout) (lease_storages lease) 0 None [] =
      Inr (layout_storages l, cls, cursor)"
    and its: "(if offsets layout = []
        then whole_item (k = KHostShared \<and> cls = Some ClassAllocator) expected (layout_storages l) cursor
        else if length (offsets layout) \<noteq> length expected
        then Inl (Err InvalidArgument ''target_layout.offsets must cover every requested byte artifact'')
        else add_items (k = KHostShared \<and> cls = Some ClassAllocator) expected (layout_storages l)
          (offsets layout) []) = Inr (items l)"
    unfolding build_layout_def Let_def by (auto simp: map_sum_eq_Inr split: sum.splits)
  from add_storages_result [OF srs]
  have ranges: "length (layout_storages l) = length (storages layout)"
    "\<forall>i < length (storages layout).
       range_of (storages layout ! i) (lease_storages lease ! i) (layout_storages l ! i)"
    and cursor: "cursor = sum_list (map sr_length (layout_storages l))"
    by auto
  have ok: "distinct (map fst (items l)) \<and> length (items l) = length expected \<and>
      (\<forall>(a, it) \<in> set (items l). item_ok expected (layout_storages l) a it)"
  proof (cases "offsets layout = []")
    case True
    with its cursor show ?thesis by (intro whole_item_result) simp_all
  next
    case False
    with its have n: "length (offsets layout) = length expected"
      and add: "add_items (k = KHostShared \<and> cls = Some ClassAllocator) expected (layout_storages l)
        (offsets layout) [] = Inr (items l)"
      by (simp_all split: if_splits)
    from add_items_result [OF add] n show ?thesis by simp
  qed
  with items_cover [of "items l" expected "layout_storages l"] dist ranges show ?thesis by blast
qed

lemma acquire_layout_Inr:
  assumes "acquire_layout now cuda dreg layout pid duuid expected reg = (Inr l, reg')"
  obtains k lease where "acquire_storages now cuda pid (storages layout) reg = (Inr lease, reg')"
    "build_layout layout expected k lease reg' = Inr l"
  using assms
  by (auto simp: acquire_layout_def split: if_splits sum.splits prod.splits)

text \<open>Every requested artifact has a range of its length inside the region of its storage.\<close>

lemma layout_item_region:
  assumes "acquire_layout now cuda dreg layout pid duuid expected reg = (Inr l, reg')"
    and "distinct (map fst expected)" "map_of expected a = Some len"
  shows "\<exists>it rec base. map_of (items l) a = Some it \<and> (len = 0 \<or> logical_length it = len) \<and>
    build_item_target_layout l a =
      Inr (logical_length it, [\<lparr>base_ptr = item_addr l it, into_length = logical_length it,
        stable_backing = item_backing (item_storage l it) it,
        stable_backing_keepalive = sr_stable_backing_keepalive (item_storage l it),
        keepalive = sr_keepalive (item_storage l it)\<rparr>]) \<and>
    find_region reg (sr_region_id (item_storage l it)) = Some rec \<and>
    region_base cuda rec = Some base \<and> base \<le> item_addr l it \<and>
    item_addr l it + unat (logical_length it) \<le> base + unat (size_bytes (desc rec))"
proof -
  from assms(1) obtain k lease where lease: "acquire_storages now cuda pid (storages layout) reg = (Inr lease, reg')"
    and layout: "build_layout layout expected k lease reg' = Inr l"
    by (rule acquire_layout_Inr)
  from acquire_storages_result [OF lease]
  have windows: "list_all2 (window_ok cuda (shapes reg)) (storages layout) (lease_storages lease)"
    by simp
  note built = build_layout_result [OF layout assms(2)]
  from assms(3) have "a \<in> fst ` set expected" by (force dest: map_of_SomeD)
  with built have "a \<in> fst ` set (items l)" by simp
  then obtain it where it: "map_of (items l) a = Some it"
    by (metis map_of_eq_None_iff not_Some_eq)
  with built have ok: "item_ok expected (layout_storages l) a it" by (auto dest: map_of_SomeD)
  define i where "i = storage_index it"
  from ok built have i: "i < length (storages layout)" by (simp add: item_ok_def i_def)
  with built have range: "range_of (storages layout ! i) (lease_storages lease ! i) (layout_storages l ! i)"
    by blast
  from windows i have "window_ok cuda (shapes reg) (storages layout ! i) (lease_storages lease ! i)"
    by (rule list_all2_nthD)
  from window_in_region [OF this] range obtain rec base where
    "find_region reg (sr_region_id (layout_storages l ! i)) = Some rec"
    "region_base cuda rec = Some base" "base \<le> sr_base_ptr (layout_storages l ! i)"
    "sr_base_ptr (layout_storages l ! i) + unat (sr_length (layout_storages l ! i))
       \<le> base + unat (size_bytes (desc rec))"
    by (auto simp: range_of_def)
  with it ok assms(3) show ?thesis
    by (intro exI [of _ it] exI [of _ rec] exI [of _ base])
      (auto simp: item_ok_def i_def build_item_target_layout_def Let_def)
qed

lemma acquire_layout_slabs:
  "acquire_layout now cuda dreg layout pid duuid expected reg = (Inr l, reg') \<Longrightarrow>
   open_slabs reg' = open_slabs reg"
  by (erule acquire_layout_Inr) (rule acquire_loop_slabs)

text \<open>Two artifacts of 8 bytes in the managed region of 4096 bytes.\<close>

definition demo_registered :: RegionWorld where
  "demo_registered =
     the (run_events [Register demo_os 0 0 [(1, 2)] [(3, 4)] demo_params] demo_start)"

definition demo_regions :: IpcRegionRegistry where
  "demo_regions = registry demo_registered"

definition demo_offset :: "string \<Rightarrow> u64 \<Rightarrow> SlotToken option \<Rightarrow> TargetTensorOffset" where
  "demo_offset a off tok =
     \<lparr>name = a, off_storage_id = ''s'', storage_offset = off, off_logical_length = 8,
      slot_index = map_option fst tok, slot_generation = map_option snd tok\<rparr>"

definition demo_layout :: "TargetTensorOffset list \<Rightarrow> TargetLayout" where
  "demo_layout offs =
     \<lparr>storages = [\<lparr>storage_id = ''s'', entry_device_id = - 1, storage_length = 64,
        storage_source = RegionRef demo_id KindHostShared, mapping_base_offset = 16\<rparr>],
      aliases_size = 0, offsets = offs, layout_kind = 0, index_kind = 0, layout_view_id = [],
      tensor_spec_kind = 1\<rparr>"

definition demo_acquired ::
  "SlotToken option \<Rightarrow> ByteArtifactRegionLayout status_or \<times> IpcRegionRegistry" where
  "demo_acquired tok =
     acquire_layout 5 demo_cuda new_registry
       (demo_layout [demo_offset ''a'' 8 None, demo_offset ''b'' 32 tok]) 7 []
       [(''a'', 8), (''b'', 0)] demo_regions"

lemma demo_regions_reachable: "reachable_world demo_opts demo_registered"
proof -
  have "\<not> Option.is_none
      (run_events [Register demo_os 0 0 [(1, 2)] [(3, 4)] demo_params] demo_start)"
    by code_simp
  then have "run_events [Register demo_os 0 0 [(1, 2)] [(3, 4)] demo_params] demo_start =
      Some demo_registered"
    by (simp only: Option.is_none_def demo_registered_def) auto
  then show ?thesis by (rule run_events_reachable [OF demo_start_reachable])
qed

text \<open>
  The backing of a region is activated for its first item; the slot size that a later item of the
  same region brings is not passed on.
\<close>

lemma later_slot_size_lost:
  "(case demo_acquired (Some (1, 1)) of
     (Inl _, _) \<Rightarrow> False
   | (Inr l, _) \<Rightarrow>
       map slot_bytes (snd (activate_layout_backings True (\<lambda>_. ok_status) l)) = [0] \<and>
       (case open_host_shared_source_span l ''b'' of
          Inl _ \<Rightarrow> False
        | Inr (_, _, _, _, b) \<Rightarrow> map_option slot_bytes b = Some 8))"
  by code_simp
end
