(* ===== verification/Spec2Isabelle.thy ===== *)
theory Spec2Isabelle
  imports Byte_Range_Builder Byte_Range_Program UMA_Plans Replica_Registry Lifecycle_Kernel
    Pinned_Scheduler Staging_Flow Region_Layout
begin

text \<open>
  Verification library of TensorCast, a store daemon that keeps tensor artifacts in the memory of a
  host and its GPUs and copies them between files, peers, devices and client processes. A
  request names an artifact and a target; the daemon finds or loads a replica, describes the copy
  as a map of byte ranges, reads the sources in windows and writes the target. Around that path
  lie the ledger of loaded chunks, the registry of replicas, the capabilities that clients hold and
  the memory regions they share with the daemon.

  \<^bold>\<open>Vocabulary.\<close> \<open>TC_Prelude\<close> has the status values (\<open>absl::Status\<close> as the left side of a
  sum, with the literal part of the message), the machine words and their overflow lemmas, and the
  contract of \<open>std::sort\<close> as a locale. Clock readings, random draws, iteration orders of hash
  maps, results of system calls and of the CUDA driver, SHA-256 and the JSON library are arguments
  of the definitions that use them. An operation that changes state before it fails returns the
  changed state with the error. A call that waits on a condition variable is a function whose
  \<open>None\<close> means that it keeps waiting; an exception is an error with the code \<open>Thrown\<close>.

  \<^bold>\<open>Byte-range maps.\<close> \<open>Byte_Range_Map\<close> models
  \<open>src/core/store/materialization/contracts/byte_range/byte_range_map.{h,cc}\<close>. The meaning of a
  map is the origin of each destination byte. Normalisation accepts exactly the maps that cover
  the destination once, keeps the meaning and is fully abstract; the order in which an unstable
  sort leaves equal segments is irrelevant; the payload of the fingerprint determines the map (C1
  to C5). \<open>Byte_Range_Builder\<close> models \<open>dataplane/sources/byte_range_map_builder.cc\<close>:
  composition, relocation and the map of an index have the meaning one expects and fail
  exactly outside their domain (C6 to C9). \<open>Byte_Range_Program\<close> models
  \<open>byte_range_program.{h,cc}\<close>: a compiled program denotes its map, and the cache is a bounded
  most-recently-used list whose answers equal fresh compilations as long as digests do not
  collide (C10 to C12).

  \<^bold>\<open>Memory of the store.\<close> \<open>Memory_Tier\<close> models \<open>src/core/store/memory_tier_budget.{h,cc}\<close>; its
  locale \<open>stable_budget\<close> is what the memory authority relies on (C13, C14). \<open>Device_Keys\<close> models
  \<open>device_registry.{h,cc}\<close> and the key types (C15). \<open>UMA_State\<close>, \<open>UMA_Ops\<close> and
  \<open>UMA_Sessions\<close> model \<open>src/core/store/replica/unified_memory_authority.{h,cc}\<close>: one record of
  the ledger and one definition for each method. \<open>UMA_Invariants\<close> shows the invariant of
  every reachable state (C16, C17), \<open>UMA_Leases\<close> the equality of leased and reserved bytes
  (C18, C19), \<open>UMA_Plans\<close> that the ranges of a transfer plan are the bytes of its chunks and that
  commit completes the load (C20 to C22). \<open>Replica_Registry\<close> models \<open>replica_registry.{h,cc}\<close> and
  \<open>eviction_service.cc\<close> of \<open>src/core/store/components\<close>: with its three indices it refines a
  map, the secondary lookups are exact, and eviction stops at the first release that suffices
  (C23 to C26).

  \<^bold>\<open>Capabilities.\<close> \<open>Lifecycle_Types\<close> and \<open>Lifecycle_Kernel\<close> model
  \<open>src/daemon/state/lifecycle_kernel.{h,cc}\<close>: which credentials are admitted, that use guards
  are counted exactly and keep their capability, that release is final, and that the text keys
  of the address index identify addresses (C27 to C30).

  \<^bold>\<open>Data plane.\<close> \<open>Sources_Sinks\<close> models the sources and the host sink under
  \<open>src/core/store/materialization/dataplane\<close>, behind the locales \<open>seekable_source\<close> and
  \<open>positioned_sink\<close>: writes and direct-write grants reach exactly their bytes (C33, C34).
  \<open>Window_Scheduler\<close> and \<open>Pinned_Scheduler\<close> model \<open>sources/source_window_scheduler.cc\<close>:
  execution leaves the bytes that the map means, within the read bounds, and the pinned path does
  what the plain one does (C31, C32, C36). \<open>Pinned_Pool\<close> and \<open>Streaming_Buffer\<close> model
  \<open>pinned_buffer_pool.cc\<close>, \<open>pinned_memory_authority.cc\<close>, \<open>streaming_pinned_buffer.cc\<close> and
  \<open>streaming_chunk_guard.cc\<close> of \<open>src/core/common/memory\<close>: every slice and slot has one owner
  in every reachable state (C35). \<open>Staging_Flow\<close> models
  \<open>src/core/communicator/engine/staging_flow_controller.{h,cc}\<close>: what a window stages and
  what it costs in credit (C37).

  \<^bold>\<open>Shared regions.\<close> \<open>Ipc_Regions\<close> models \<open>src/daemon/state/ipc_region_registry.{h,cc}\<close> with
  one step for each critical section: reference counts are exact and a region that
  is removed without force has no user (C38). \<open>Target_Storage\<close> models
  \<open>materialization_target_storage_utils.{h,cc}\<close> of \<open>src/daemon/service/controllers\<close>: leases
  give back what they took (C39). \<open>Region_Layout\<close> models
  \<open>src/daemon/service/byte_artifact_region_layout.{h,cc}\<close>; the theorem of this theory joins the
  three: artifacts stay in mapped memory (C40).

  \<^bold>\<open>Bounds.\<close> Sizes, offsets and cursors are 64-bit words where the code has \<open>uint64_t\<close> and
  32-bit words where it has \<open>uint32_t\<close>; theorems that need sums not to wrap say so. The window
  theorems assume that the extent of a source plus the window cap is below \<open>2 ^ 64\<close>, which every
  real file and allocation satisfies. The staging theorem assumes a chunk size that fits 32
  bits; without it the code stages empty segments, which \<open>large_chunk_stages_nothing\<close> shows.
  Counters of users, guards and credit are unbounded: they count live objects. No definition
  runs on fuel: loops are structural or have a termination proof, and the one loop that need not
  end, \<open>split_loop\<close>, whose cursor can wrap, is a partial function that is proved to return
  under the bound on source and cap and shown not to return without it. The mint loops of \<open>Ipc_Regions\<close> take the list of random draws they use.

  \<^bold>\<open>Defects.\<close> Lemmas on concrete runs show where the code departs from its intent: error paths
  of the authority that leave leases and budget apart, a guard that is reused, a ledger that
  overcommits its credit, a failed window that skips bytes, an attach token that another
  client can take over, memory unmapped while held, and a reference lost when a region cannot be
  mapped.

  \<^bold>\<open>Not modelled.\<close> The asynchronous branch of the pinned window loop, whose futures complete on
  other threads. The transports (RDMA verbs, TCP sockets), the communication engine and the CUDA
  wrappers consist of calls into drivers, and their behaviour is that of the drivers. The gRPC
  controllers, the client of the global store and the facades translate protocol messages and
  call the components above; the loaders and sinks for files and devices are input and output.
  Checkpoint formats, topology discovery, configuration, telemetry, metrics, tracing and the
  Python bindings are outside the path of the bytes. Capability tokens rest on HMAC and the
  protobuf encoding, which are not part of the repository.
\<close>

section \<open>Artifacts in shared memory\<close>

text \<open>
  C40. Artifacts stay in mapped memory. When a layout is acquired on a registry that any
  interleaving of its operations has produced, every requested artifact has a range of its
  expected length, and the addresses that the copy engines get for it lie within the registered
  region its storage names, at the place where that region is mapped; shared host memory is still
  mapped there in its full size. No offset or length of the request, however large, makes a range
  wrap around or leave its region.
\<close>

theorem layout_item_in_mapped_memory:
  assumes "reachable_world opts w"
    and "acquire_layout now cuda dreg layout pid duuid expected (registry w) = (Inr l, reg')"
    and "distinct (map fst expected)" "map_of expected a = Some len"
  shows "\<exists>it rec base. map_of (items l) a = Some it \<and> (len = 0 \<or> logical_length it = len) \<and>
    map_sum id (\<lambda>(total, ts). (total, map base_ptr ts, map into_length ts))
        (build_item_target_layout l a) =
      Inr (logical_length it, [item_addr l it], [logical_length it]) \<and>
    find_region (registry w) (sr_region_id (item_storage l it)) = Some rec \<and>
    region_base cuda rec = Some base \<and> base \<le> item_addr l it \<and>
    item_addr l it + unat (logical_length it) \<le> base + unat (size_bytes (desc rec)) \<and>
    (case daemon_host_shared_slab rec of
       None \<Rightarrow> memory_kind (desc rec) = KVram
     | Some sl \<Rightarrow> sl \<in> set (open_slabs reg') \<and> slab_base sl = base \<and>
         slab_size sl = size_bytes (desc rec))"
proof -
  from layout_item_region [OF assms(2-4)] obtain it rec base where
    item: "map_of (items l) a = Some it" "len = 0 \<or> logical_length it = len"
      "find_region (registry w) (sr_region_id (item_storage l it)) = Some rec"
      "region_base cuda rec = Some base" "base \<le> item_addr l it"
      "item_addr l it + unat (logical_length it) \<le> base + unat (size_bytes (desc rec))"
    and target: "map_sum id (\<lambda>(total, ts). (total, map base_ptr ts, map into_length ts))
        (build_item_target_layout l a) =
      Inr (logical_length it, [item_addr l it], [logical_length it])"
    by auto
  from reachable_world_slab [OF assms(1) item(3)] acquire_layout_slabs [OF assms(2)] item(4)
  have "case daemon_host_shared_slab rec of
       None \<Rightarrow> memory_kind (desc rec) = KVram
     | Some sl \<Rightarrow> sl \<in> set (open_slabs reg') \<and> slab_base sl = base \<and>
         slab_size sl = size_bytes (desc rec)"
    by (auto simp: region_base_def split: option.splits MemoryKind.splits)
  with item target show ?thesis by blast
qed

theorem layout_item_in_mapped_memory_witness:
  "case demo_acquired None of
     (Inl _, _) \<Rightarrow> False
   | (Inr l, _) \<Rightarrow> \<exists>it rec base. map_of (items l) ''b'' = Some it \<and>
       region_base demo_cuda rec = Some base \<and> base \<le> item_addr l it \<and>
       item_addr l it + unat (logical_length it) \<le> base + unat (size_bytes (desc rec))"
proof -
  have "is_ok (fst (demo_acquired None))" by code_simp
  then obtain l reg' where l: "demo_acquired None = (Inr l, reg')"
    by (cases "demo_acquired None") (auto simp: is_ok_iff)
  have "distinct (map fst [(''a'', 8 :: u64), (''b'', 0)])"
    and "map_of [(''a'', 8 :: u64), (''b'', 0)] ''b'' = Some 0" by simp_all
  from layout_item_in_mapped_memory [OF demo_regions_reachable
      l [unfolded demo_acquired_def demo_regions_def] this] l
  show ?thesis by auto
qed

end
